(* ===== verification/Prelude.thy ===== *)
theory Prelude
  imports Main "HOL-Library.Word"
begin

text \<open>
  Shared vocabulary of the development: the machine types of the C++ sources, results of
  fallible code, the parts of \<open>std::string\<close> the parsers use, decimal printing
  (\<open>std::to_string\<close>), wrap-around subtraction on \<open>size_t\<close>, and the locale of
  transition systems whose invariants the stateful components instantiate.
\<close>

unbundle bit_operations_syntax

named_theorems result_simps \<open>unfolding the sequencing of fallible computations\<close>
named_theorems str_simps \<open>facts on searching and cutting strings\<close>

subsection \<open>Machine types\<close>

type_synonym byte = "8 word"
type_synonym u16 = "16 word"
type_synonym u32 = "32 word"
type_synonym u64 = "64 word"

text \<open>
  \<open>size_t\<close> values are natural numbers below \<open>2 ^ 64\<close>; subtraction is the only
  operation of the sources on them that can leave this range, and it wraps.
\<close>

definition size_sub :: "nat \<Rightarrow> nat \<Rightarrow> nat" where
  "size_sub a b = (if b \<le> a then a - b else 2 ^ 64 + a - b)"

lemma size_sub_le [simp]: "b \<le> a \<Longrightarrow> size_sub a b = a - b"
  by (simp add: size_sub_def)

subsection \<open>Words\<close>

lemma word_enum:
  fixes y :: "'a::len word"
  assumes "unat y < k"
  shows "y \<in> set (map of_nat [0..<k])"
proof -
  have "y = of_nat (unat y)" by simp
  then show ?thesis using assms by (simp del: of_nat_unat)
qed

lemma next_id:
  fixes x :: "'a::len word"
  assumes "x \<noteq> - 1"
  shows "unat (x + 1) = unat x + 1"
proof -
  have "1 + x \<noteq> 0" using assms by (simp add: add.commute eq_neg_iff_add_eq_0)
  from unatSuc [OF this] show ?thesis by (simp only: add.commute Suc_eq_plus1)
qed

lemma below_max: "unat (x :: u64) < 2 ^ 64 - 1 \<Longrightarrow> x \<noteq> - 1"
  by (auto simp: unsigned_minus_1_eq_mask mask_eq_exp_minus_1)

lemma glue: "push_bit k (drop_bit k (x::'a::len word)) OR take_bit k x = x"
  by (rule bit_word_eqI) (auto simp: bit_simps)

lemma unat_shiftr: "unat (drop_bit k (x::'a::len word)) = unat x div 2 ^ k"
  unfolding unat_drop_bit_eq by (simp add: drop_bit_eq_div)

lemma seam_and: "(push_bit k a OR take_bit k b) AND push_bit k c = push_bit k (a AND c)" for a b c :: "'a::len word"
  by (rule bit_word_eqI) (auto simp: bit_simps)

lemma seam_add: "push_bit k a + take_bit k b = push_bit k a OR take_bit k b" for a b :: "'a::len word"
  by (rule disjunctive_add_eq_or, rule bit_word_eqI) (auto simp: bit_simps)

lemma take_bit_small: "unat y < 2 ^ k \<Longrightarrow> take_bit k y = y" for y :: "'a::len word"
  by (metis take_bit_nat_eq_self unsigned_take_bit_eq unsigned_word_eqI)

lemma and_single_bit: "b AND push_bit k 1 = push_bit k (of_bool (bit b k))" for b :: "'a::len word"
  by (rule bit_word_eqI) (auto simp: bit_simps)

lemma and_not_or_and: "((b AND NOT k) OR e) AND k = e AND k" for b k e :: "'a::len word"
  by (rule bit_word_eqI) (auto simp: bit_simps)

lemma or_absorb:
  fixes a b :: "'a::len word"
  assumes "a AND b = a"
  shows "b OR a = b"
proof (rule bit_word_eqI)
  fix n
  have "bit (a AND b) n = bit a n" by (simp only: assms)
  then show "bit (b OR a) n \<longleftrightarrow> bit b n" by (auto simp: bit_simps)
qed

lemma and_not_id:
  fixes b k :: "'a::len word"
  assumes "b AND k = 0"
  shows "b AND NOT k = b"
proof (rule bit_word_eqI)
  fix n assume "n < LENGTH('a)"
  moreover have "\<not> bit (b AND k) n" using assms by simp
  ultimately show "bit (b AND NOT k) n \<longleftrightarrow> bit b n" by (auto simp: bit_simps)
qed

subsection \<open>Fallible computations\<close>

fun ebind :: "'e + 'a \<Rightarrow> ('a \<Rightarrow> 'e + 'b) \<Rightarrow> 'e + 'b" where
  "ebind (Inl e) f = Inl e"
| "ebind (Inr x) f = f x"

declare ebind.simps [result_simps]

lemma ebind_eq_Inr:
  "ebind r f = Inr y \<longleftrightarrow> (\<exists>x. r = Inr x \<and> f x = Inr y)"
  by (cases r) auto

lemma ebind_eq_Inl:
  "ebind r f = Inl e \<longleftrightarrow> r = Inl e \<or> (\<exists>x. r = Inr x \<and> f x = Inl e)"
  by (cases r) auto

lemma ebind_split:
  "P (ebind r f) \<longleftrightarrow> (\<forall>e. r = Inl e \<longrightarrow> P (Inl e)) \<and> (\<forall>x. r = Inr x \<longrightarrow> P (f x))"
  by (cases r) auto

lemma ebind_assoc [simp]: "ebind (ebind r f) g = ebind r (\<lambda>x. ebind (f x) g)"
  by (cases r) auto

text \<open>The \<open>for\<close> loop over a container whose body may throw.\<close>

fun efold :: "('s \<Rightarrow> 'a \<Rightarrow> 'e + 's) \<Rightarrow> 's \<Rightarrow> 'a list \<Rightarrow> 'e + 's" where
  "efold f s [] = Inr s"
| "efold f s (x # xs) = ebind (f s x) (\<lambda>s'. efold f s' xs)"

lemma efold_append: "efold f s (xs @ ys) = ebind (efold f s xs) (\<lambda>s'. efold f s' ys)"
  by (induction xs arbitrary: s) auto

lemma efold_invariant:
  assumes "efold f s xs = Inr s'" and "P s"
    and "\<And>s x s'. P s \<Longrightarrow> x \<in> set xs \<Longrightarrow> f s x = Inr s' \<Longrightarrow> P s'"
  shows "P s'"
  using assms
proof (induction xs arbitrary: s)
  case Nil
  then show ?case by simp
next
  case (Cons x xs)
  from Cons.prems(1) obtain s1 where s1: "f s x = Inr s1" "efold f s1 xs = Inr s'"
    by (auto simp: ebind_eq_Inr)
  have "P s1" by (rule Cons.prems(3) [OF Cons.prems(2) _ s1(1)]) simp
  then show ?case
    by (rule Cons.IH [OF s1(2)]) (rule Cons.prems(3), assumption, simp_all)
qed

subsection \<open>Strings\<close>

text \<open>\<open>std::string::find\<close> of one character: its first index, if it occurs.\<close>

definition str_find :: "'c \<Rightarrow> 'c list \<Rightarrow> nat option" where
  "str_find c s = (if c \<in> set s then Some (length (takeWhile (\<lambda>d. d \<noteq> c) s)) else None)"

lemma str_find_None [str_simps]: "str_find c s = None \<longleftrightarrow> c \<notin> set s"
  by (simp add: str_find_def)

lemma str_find_first [str_simps]: "c \<notin> set s \<Longrightarrow> str_find c (s @ c # t) = Some (length s)"
proof -
  assume "c \<notin> set s"
  then have "takeWhile (\<lambda>d. d \<noteq> c) s = s" by (induction s) auto
  then have "takeWhile (\<lambda>d. d \<noteq> c) (s @ c # t) = s"
    by (metis (mono_tags, lifting) append_Nil2 takeWhile.simps(2) takeWhile_append takeWhile_eq_all_conv)
  then show ?thesis by (simp add: str_find_def)
qed

lemma str_find_SomeD:
  assumes "str_find c s = Some i"
  shows "i < length s" "s ! i = c" "c \<notin> set (take i s)" "s = take i s @ c # drop (Suc i) s"
proof -
  let ?p = "takeWhile (\<lambda>d. d \<noteq> c) s"
  from assms have c: "c \<in> set s" and i: "i = length ?p"
    by (auto simp: str_find_def split: if_splits)
  have "\<exists>t. s = ?p @ c # t" using c
    by (induction s) auto
  then obtain t where s: "s = ?p @ c # t" ..
  have len: "length ?p < length s" using arg_cong [OF s, of length] by simp
  then show "i < length s" by (simp add: i)
  have "s ! length ?p = (?p @ c # t) ! length ?p" using s by metis
  then show nth: "s ! i = c" by (simp add: i)
  have t: "take i s = ?p" unfolding i by (metis takeWhile_eq_take)
  show "c \<notin> set (take i s)" unfolding t by (auto dest: set_takeWhileD)
  show "s = take i s @ c # drop (Suc i) s"
    using len nth id_take_nth_drop [of i s] by (simp add: i)
qed

text \<open>Cutting the characters of a class off both ends of a string.\<close>

definition strip :: "('c \<Rightarrow> bool) \<Rightarrow> 'c list \<Rightarrow> 'c list" where
  "strip p s = rev (dropWhile p (rev (dropWhile p s)))"

lemma dropWhile_stop: "xs \<noteq> [] \<Longrightarrow> \<not> p (hd xs) \<Longrightarrow> dropWhile p xs = xs"
  by (cases xs) auto

lemma strip_id: "(s \<noteq> [] \<Longrightarrow> \<not> p (hd s) \<and> \<not> p (last s)) \<Longrightarrow> strip p s = s"
  by (cases "s = []") (auto simp: strip_def dropWhile_stop hd_rev)

lemma strip_none: "\<forall>c\<in>set s. \<not> p c \<Longrightarrow> strip p s = s"
  by (rule strip_id) auto

subsection \<open>Decimal printing\<close>

definition digit_char :: "nat \<Rightarrow> char" where
  "digit_char d = char_of (48 + d)"

definition is_digit :: "char \<Rightarrow> bool" where
  "is_digit c \<longleftrightarrow> 48 \<le> (of_char c :: nat) \<and> (of_char c :: nat) \<le> 57"

definition digit_val :: "char \<Rightarrow> nat" where
  "digit_val c = of_char c - 48"

fun to_string :: "nat \<Rightarrow> string" where
  "to_string n = (if n < 10 then [digit_char n] else to_string (n div 10) @ [digit_char (n mod 10)])"

declare to_string.simps [simp del]

lemma digit_char_val [simp]: "d < 10 \<Longrightarrow> digit_val (digit_char d) = d"
  by (simp add: digit_val_def digit_char_def)

lemma digit_char_is_digit [simp]: "d < 10 \<Longrightarrow> is_digit (digit_char d)"
  by (simp add: is_digit_def digit_char_def)

lemma is_digit_val_less: "is_digit c \<Longrightarrow> digit_val c < 10"
  by (simp add: is_digit_def digit_val_def) linarith

lemma to_string_nonempty [simp]: "to_string n \<noteq> []"
  by (subst to_string.simps) simp

lemma to_string_digits: "\<forall>c\<in>set (to_string n). is_digit c"
proof (induction n rule: to_string.induct)
  case (1 n)
  then show ?case by (subst to_string.simps) auto
qed

text \<open>The value of a digit string read from the left, as the accumulating loops compute it.\<close>

definition decimal_value :: "string \<Rightarrow> nat" where
  "decimal_value s = foldl (\<lambda>a c. a * 10 + digit_val c) 0 s"

lemma decimal_value_snoc [simp]: "decimal_value (s @ [c]) = decimal_value s * 10 + digit_val c"
  by (simp add: decimal_value_def)

lemma decimal_value_to_string [simp]: "decimal_value (to_string n) = n"
proof (induction n rule: to_string.induct)
  case (1 n)
  show ?case
  proof (cases "n < 10")
    case True
    then show ?thesis by (subst to_string.simps) (simp add: decimal_value_def)
  next
    case False
    with 1 show ?thesis by (subst to_string.simps) simp
  qed
qed

lemma to_string_inj: "to_string m = to_string n \<Longrightarrow> m = n"
  by (metis decimal_value_to_string)

lemma decimal_value_prefix_le: "decimal_value s \<le> decimal_value (s @ t)"
proof (induction t rule: rev_induct)
  case Nil
  then show ?case by simp
next
  case (snoc c t)
  have "decimal_value (s @ t @ [c]) = decimal_value (s @ t) * 10 + digit_val c"
    using decimal_value_snoc [of "s @ t" c] by simp
  with snoc show ?case by simp
qed

subsection \<open>Transition systems\<close>

text \<open>
  A component whose operations are atomic (each runs under the component's mutex) is a
  transition system: a state, an event per operation and a total step function. What
  every operation keeps, every run keeps.
\<close>

fun run :: "('s \<Rightarrow> 'e \<Rightarrow> 's) \<Rightarrow> 's \<Rightarrow> 'e list \<Rightarrow> 's" where
  "run step s [] = s"
| "run step s (e # es) = run step (step s e) es"

lemma run_append: "run step s (es @ fs) = run step (run step s es) fs"
  by (induction es arbitrary: s) auto

locale invariant_system =
  fixes step :: "'s \<Rightarrow> 'e \<Rightarrow> 's" and inv :: "'s \<Rightarrow> bool"
  assumes step_inv: "inv s \<Longrightarrow> inv (step s e)"
begin

lemma run_inv: "inv s \<Longrightarrow> inv (run step s es)"
  by (induction es arbitrary: s) (auto intro: step_inv)

end

text \<open>
  A step function with a measure that never goes down: the measure is a clock, and a
  state reached later has a clock at least as large.
\<close>

locale monotone_system = invariant_system step inv
  for step :: "'s \<Rightarrow> 'e \<Rightarrow> 's" and inv :: "'s \<Rightarrow> bool" +
  fixes clock :: "'s \<Rightarrow> nat"
  assumes step_clock: "inv s \<Longrightarrow> clock s \<le> clock (step s e)"
begin

lemma run_clock: "inv s \<Longrightarrow> clock s \<le> clock (run step s es)"
proof (induction es arbitrary: s)
  case Nil
  then show ?case by simp
next
  case (Cons e es)
  then have "clock (step s e) \<le> clock (run step (step s e) es)"
    by (auto intro: step_inv)
  with step_clock [OF Cons.prems, of e] show ?case by simp
qed

end

text \<open>
  Handing out identifiers from a counter: the identifiers in use are at most the last one
  issued, and an operation only adds identifiers above it. An identifier that has left use
  then never comes back.
\<close>

locale id_pool = monotone_system step inv issued
  for step :: "'s \<Rightarrow> 'e \<Rightarrow> 's" and inv :: "'s \<Rightarrow> bool" and issued :: "'s \<Rightarrow> nat" +
  fixes live :: "'s \<Rightarrow> u64 set"
  assumes live_issued: "inv s \<Longrightarrow> i \<in> live s \<Longrightarrow> 0 < unat i \<and> unat i \<le> issued s"
    and live_fresh: "inv s \<Longrightarrow> i \<in> live (step s e) \<Longrightarrow> i \<in> live s \<or> issued s < unat i"
begin

lemma retired:
  assumes "inv s" "i \<notin> live s" "unat i \<le> issued s"
  shows "i \<notin> live (run step s es)"
  using assms
proof (induction es arbitrary: s)
  case Nil
  then show ?case by simp
next
  case (Cons e es)
  have "i \<notin> live (step s e)" using live_fresh [OF Cons.prems(1)] Cons.prems(2,3) by (meson leD)
  moreover have "unat i \<le> issued (step s e)" using step_clock [OF Cons.prems(1)] Cons.prems(3) by (meson le_trans)
  ultimately show ?case using Cons.IH [OF step_inv [OF Cons.prems(1)]] by simp
qed

end

end
