(* ===== verification/Core_String.thy ===== *)
theory Core_String
  imports Prelude
begin

text \<open>
  The text utilities of \<open>common/core/string.cxx\<close>: splitting, hexadecimal, line
  endings, and the conversions between UCS-4, UTF-8, UTF-16, Latin-1 and ASCII that the
  clipboard code of both ends rests on.

  A pointer argument is the list of the units that can be read from it up to the end of
  its allocation; reading past that list is the undefined behaviour of the C++ code and
  is the value \<open>None\<close>. The length arguments are \<open>size_t\<close>, and \<open>in_len -= len\<close>
  wraps (\<^const>\<open>size_sub\<close>). A \<open>wchar_t\<close> is a 16-bit UTF-16 code unit. The
  functions that make two passes only reserve the capacity of the result in the first.
\<close>

unbundle bit_operations_syntax

subsection \<open>Splitting\<close>

function split_loop :: "'c list \<Rightarrow> 'c \<Rightarrow> 'c list list" where
  "split_loop start d =
     (case str_find d start of
        None \<Rightarrow> [start]
      | Some stop \<Rightarrow> take stop start # split_loop (drop (Suc stop) start) d)"
  by pat_completeness auto
termination
  by (relation "measure (\<lambda>(s, d). length s)") (auto dest: str_find_SomeD(1))

declare split_loop.simps [simp del]

definition split :: "'c list \<Rightarrow> 'c \<Rightarrow> 'c list list" where
  "split src d = (if src = [] then [] else split_loop src d)"

subsection \<open>Hexadecimal\<close>

definition intToHex :: "byte \<Rightarrow> byte" where
  "intToHex i = (if i \<le> 9 then 0x30 + i else if 10 \<le> i \<and> i \<le> 15 then 0x61 + (i - 10) else 0)"

fun binToHex_loop :: "byte list \<Rightarrow> byte list" where
  "binToHex_loop [] = []"
| "binToHex_loop (b # ins) =
     intToHex (drop_bit 4 b AND 15) # intToHex (b AND 15) # binToHex_loop ins"

text \<open>The buffer form writes over the start of \<open>out\<close> and leaves the rest as it was.\<close>

definition binToHex_buf :: "byte list \<Rightarrow> byte list \<Rightarrow> byte list" where
  "binToHex_buf ins out =
     (let inlen = (if length ins > length out div 2 then length out div 2 else length ins)
      in binToHex_loop (take inlen ins) @ drop (2 * inlen) out)"

definition binToHex :: "byte list \<Rightarrow> byte list" where
  "binToHex ins = takeWhile (\<lambda>c. c \<noteq> 0) (binToHex_buf ins (replicate (2 * length ins) 0))"

definition tolower :: "byte \<Rightarrow> byte" where
  "tolower c = (if 0x41 \<le> c \<and> c \<le> 0x5a then c + 0x20 else c)"

definition readHexAndShift :: "byte \<Rightarrow> byte \<Rightarrow> byte option" where
  "readHexAndShift ch v =
     (let c = tolower ch in
      if 0x30 \<le> c \<and> c \<le> 0x39 then Some (push_bit 4 v + (c - 0x30))
      else if 0x61 \<le> c \<and> c \<le> 0x66 then Some (push_bit 4 v + (c - 0x61 + 10))
      else None)"

fun hexToBin_loop :: "byte list \<Rightarrow> byte list \<Rightarrow> bool \<times> byte list" where
  "hexToBin_loop (a # b # ins) (q # out) =
     (case readHexAndShift a 0 of
        None \<Rightarrow> (False, q # out)
      | Some v \<Rightarrow>
          (case readHexAndShift b v of
             None \<Rightarrow> (False, q # out)
           | Some byte \<Rightarrow> (let (r, out') = hexToBin_loop ins out in (r, byte # out'))))"
| "hexToBin_loop _ out = (True, out)"

definition hexToBin_buf :: "byte list \<Rightarrow> byte list \<Rightarrow> bool \<times> byte list" where
  "hexToBin_buf ins out =
     (if odd (length ins) then (False, out)
      else hexToBin_loop (take (2 * length out) ins) out)"

definition hexToBin :: "byte list \<Rightarrow> byte list" where
  "hexToBin ins =
     (let (ok, out) = hexToBin_buf ins (replicate (length ins div 2) 0) in if ok then out else [])"

subsection \<open>Line endings\<close>

abbreviation CR :: byte where "CR \<equiv> 13"
abbreviation LF :: byte where "LF \<equiv> 10"

fun convertLF :: "byte list \<Rightarrow> nat \<Rightarrow> byte list option" where
  "convertLF [] n = (if n = 0 then Some [] else None)"
| "convertLF (c # cs) n =
     (if n = 0 \<or> c = 0 then Some []
      else if c \<noteq> CR then map_option ((#) c) (convertLF cs (n - 1))
      else if n < 2 then map_option ((#) LF) (convertLF cs (n - 1))
      else (case cs of
              [] \<Rightarrow> None
            | d # _ \<Rightarrow> if d \<noteq> LF then map_option ((#) LF) (convertLF cs (n - 1))
                      else convertLF cs (n - 1)))"

text \<open>
  \<open>prev\<close> is the character at \<open>in - 1\<close>, absent at the start of the buffer.
\<close>

fun convertCRLF_loop :: "byte option \<Rightarrow> byte list \<Rightarrow> nat \<Rightarrow> byte list option" where
  "convertCRLF_loop prev [] n = (if n = 0 then Some [] else None)"
| "convertCRLF_loop prev (c # cs) n =
     (if n = 0 \<or> c = 0 then Some []
      else let pre = (if c = LF \<and> prev \<noteq> Some CR then [CR] else []);
               rest = convertCRLF_loop (Some c) cs (n - 1)
           in if c = CR
              then if n < 2 then map_option (\<lambda>r. pre @ [c, LF] @ r) rest
                   else (case cs of
                           [] \<Rightarrow> None
                         | d # _ \<Rightarrow> if d \<noteq> LF then map_option (\<lambda>r. pre @ [c, LF] @ r) rest
                                   else map_option (\<lambda>r. pre @ [c] @ r) rest)
              else map_option (\<lambda>r. pre @ [c] @ r) rest)"

definition convertCRLF :: "byte list \<Rightarrow> nat \<Rightarrow> byte list option" where
  "convertCRLF src bytes = convertCRLF_loop None src bytes"

subsection \<open>One character: UCS-4, UTF-8 and UTF-16\<close>

text \<open>The bytes written before the terminating zero; their number is the value returned.\<close>

definition ucs4ToUTF8 :: "u32 \<Rightarrow> byte list" where
  "ucs4ToUTF8 src =
     (let src = (if (0xd800 \<le> src \<and> src < 0xe000) \<or> 0x110000 \<le> src then 0xfffd else src) in
      if src < 0x80 then [ucast src]
      else if src < 0x800 then
        [ucast (0xc0 OR drop_bit 6 src), ucast (0x80 OR (src AND 0x3f))]
      else if src < 0x10000 then
        [ucast (0xe0 OR drop_bit 12 src), ucast (0x80 OR (drop_bit 6 src AND 0x3f)),
         ucast (0x80 OR (src AND 0x3f))]
      else
        [ucast (0xf0 OR drop_bit 18 src), ucast (0x80 OR (drop_bit 12 src AND 0x3f)),
         ucast (0x80 OR (drop_bit 6 src AND 0x3f)), ucast (0x80 OR (src AND 0x3f))])"

fun utf8_skip :: "byte list \<Rightarrow> nat \<Rightarrow> nat \<Rightarrow> (nat \<times> u32) option" where
  "utf8_skip [] avail consumed = (if avail = 0 then Some (consumed, 0xfffd) else None)"
| "utf8_skip (b # src) avail consumed =
     (if avail = 0 then Some (consumed, 0xfffd)
      else if b AND 0xc0 = 0x80 then utf8_skip src (avail - 1) (consumed + 1)
      else Some (consumed, 0xfffd))"

fun utf8_tail :: "nat \<Rightarrow> byte list \<Rightarrow> nat \<Rightarrow> nat \<Rightarrow> u32 \<Rightarrow> (nat \<times> u32) option" where
  "utf8_tail 0 src avail consumed dst =
     Some (consumed, if 0xd800 \<le> dst \<and> dst < 0xe000 then 0xfffd else dst)"
| "utf8_tail (Suc count) src avail consumed dst =
     (if avail = 0 then Some (consumed + 1, 0xfffd)
      else (case src of
              [] \<Rightarrow> None
            | b # src' \<Rightarrow>
                if b AND 0xc0 \<noteq> 0x80 then Some (consumed + 1, 0xfffd)
                else utf8_tail count src' (avail - 1) (consumed + 1)
                       (push_bit 6 dst OR ucast (b AND 0x3f))))"

definition utf8ToUCS4 :: "byte list \<Rightarrow> nat \<Rightarrow> (nat \<times> u32) option" where
  "utf8ToUCS4 src avail =
     (if avail = 0 then Some (0, 0xfffd)
      else (case src of
              [] \<Rightarrow> None
            | b # src' \<Rightarrow>
                if b AND 0x80 = 0 then utf8_tail 0 src' (avail - 1) 1 (ucast b)
                else if b AND 0xe0 = 0xc0 then utf8_tail 1 src' (avail - 1) 1 (ucast (b AND 0x1f))
                else if b AND 0xf0 = 0xe0 then utf8_tail 2 src' (avail - 1) 1 (ucast (b AND 0x0f))
                else if b AND 0xf8 = 0xf0 then utf8_tail 3 src' (avail - 1) 1 (ucast (b AND 0x07))
                else utf8_skip src' (avail - 1) 1))"

definition ucs4ToUTF16 :: "u32 \<Rightarrow> u16 list" where
  "ucs4ToUTF16 src =
     (let src = (if (0xd800 \<le> src \<and> src < 0xe000) \<or> 0x110000 \<le> src then 0xfffd else src) in
      if src < 0x10000 then [ucast src]
      else let s = src - 0x10000
           in [ucast (0xd800 OR (drop_bit 10 s AND 0x03ff)), ucast (0xdc00 OR (s AND 0x03ff))])"

fun utf16_skip :: "u16 list \<Rightarrow> nat \<Rightarrow> nat \<Rightarrow> (nat \<times> u32) option" where
  "utf16_skip [] avail consumed = (if avail = 0 then Some (consumed, 0xfffd) else None)"
| "utf16_skip (u # src) avail consumed =
     (if avail = 0 then Some (consumed, 0xfffd)
      else if u AND 0x0400 \<noteq> 0 then utf16_skip src (avail - 1) (consumed + 1)
      else Some (consumed, 0xfffd))"

definition utf16ToUCS4 :: "u16 list \<Rightarrow> nat \<Rightarrow> (nat \<times> u32) option" where
  "utf16ToUCS4 src avail =
     (if avail = 0 then Some (0, 0xfffd)
      else (case src of
              [] \<Rightarrow> None
            | u # src' \<Rightarrow>
                if u < 0xd800 \<or> 0xe000 \<le> u then Some (1, ucast u)
                else if u AND 0x0400 \<noteq> 0 then utf16_skip src avail 0
                else if avail - 1 = 0 then Some (1, 0xfffd)
                else (case src' of
                        [] \<Rightarrow> None
                      | v # _ \<Rightarrow>
                          if v AND 0xfc00 \<noteq> 0xdc00 then Some (1, 0xfffd)
                          else Some (2, (0x10000 + push_bit 10 (ucast u AND 0x03ff))
                                          OR (ucast v AND 0x3ff)))))"

subsection \<open>Whole strings\<close>

text \<open>
  The loop all the conversions share: decode one character, advance by what was
  consumed, append what \<open>emit\<close> gives for it. A decoder that consumed nothing would
  never leave the loop; the functions below never pass one.
\<close>

function conv_loop ::
    "('u::zero list \<Rightarrow> nat \<Rightarrow> (nat \<times> u32) option) \<Rightarrow> (u32 \<Rightarrow> 'o list) \<Rightarrow> 'u list \<Rightarrow> nat \<Rightarrow> 'o list option" where
  "conv_loop dec emit ins in_len =
     (if in_len = 0 then Some []
      else (case ins of
              [] \<Rightarrow> None
            | u # _ \<Rightarrow>
                if u = 0 then Some []
                else (case dec ins in_len of
                        None \<Rightarrow> None
                      | Some (len, ucs) \<Rightarrow>
                          if len = 0 then None
                          else map_option ((@) (emit ucs))
                                 (conv_loop dec emit (drop len ins) (size_sub in_len len)))))"
  by pat_completeness auto
termination
  by (relation "measure (\<lambda>(dec, emit, ins, n). length ins)") auto

declare conv_loop.simps [simp del]

text \<open>\<open>out += buf\<close> appends the zero-terminated contents of \<open>buf\<close>.\<close>

definition append_buf :: "'u::zero list \<Rightarrow> 'u list" where
  "append_buf buf = takeWhile (\<lambda>u. u \<noteq> 0) buf"

definition latin1_char :: "byte list \<Rightarrow> nat \<Rightarrow> (nat \<times> u32) option" where
  "latin1_char ins in_len = (case ins of [] \<Rightarrow> None | b # _ \<Rightarrow> Some (1, ucast b))"

definition latin1ToUTF8 :: "byte list \<Rightarrow> nat \<Rightarrow> byte list option" where
  "latin1ToUTF8 = conv_loop latin1_char (\<lambda>ucs. append_buf (ucs4ToUTF8 ucs))"

definition utf8ToLatin1 :: "byte list \<Rightarrow> nat \<Rightarrow> byte list option" where
  "utf8ToLatin1 = conv_loop utf8ToUCS4 (\<lambda>ucs. if ucs > 0xff then [0x3f] else [ucast ucs])"

definition utf16ToUTF8 :: "u16 list \<Rightarrow> nat \<Rightarrow> byte list option" where
  "utf16ToUTF8 = conv_loop utf16ToUCS4 (\<lambda>ucs. append_buf (ucs4ToUTF8 ucs))"

definition utf8ToUTF16 :: "byte list \<Rightarrow> nat \<Rightarrow> u16 list option" where
  "utf8ToUTF16 = conv_loop utf8ToUCS4 (\<lambda>ucs. append_buf (ucs4ToUTF16 ucs))"

definition utf8ToAscii :: "byte list \<Rightarrow> nat \<Rightarrow> byte list option" where
  "utf8ToAscii = conv_loop utf8ToUCS4 (\<lambda>ucs. if ucs \<le> 0x7f then [ucast ucs] else [0x3f])"

function valid_loop :: "('u::zero list \<Rightarrow> nat \<Rightarrow> (nat \<times> u32) option) \<Rightarrow> 'u list \<Rightarrow> nat \<Rightarrow> bool option" where
  "valid_loop dec str n =
     (if n = 0 then Some True
      else (case str of
              [] \<Rightarrow> None
            | u # _ \<Rightarrow>
                if u = 0 then Some True
                else (case dec str n of
                        None \<Rightarrow> None
                      | Some (len, ucs) \<Rightarrow>
                          if ucs = 0xfffd then Some False
                          else if len = 0 then None
                          else valid_loop dec (drop len str) (size_sub n len))))"
  by pat_completeness auto
termination
  by (relation "measure (\<lambda>(dec, str, n). length str)") auto

declare valid_loop.simps [simp del]

definition isValidUTF8 :: "byte list \<Rightarrow> nat \<Rightarrow> bool option" where
  "isValidUTF8 = valid_loop utf8ToUCS4"

definition isValidUTF16 :: "u16 list \<Rightarrow> nat \<Rightarrow> bool option" where
  "isValidUTF16 = valid_loop utf16ToUCS4"

text \<open>The loop of \<open>isValidAscii\<close> advances \<open>str\<close> and never decrements \<open>bytes\<close>.\<close>

fun isValidAscii :: "byte list \<Rightarrow> nat \<Rightarrow> bool option" where
  "isValidAscii [] bytes = (if bytes = 0 then Some True else None)"
| "isValidAscii (c # str) bytes =
     (if bytes = 0 \<or> c = 0 then Some True
      else if 0x80 \<le> c then Some False
      else isValidAscii str bytes)"

subsection \<open>Codecs of code units\<close>

text \<open>
  What the whole-string loops need of a one-character decoder: it inverts an encoder on
  the characters of a class, and the encoder gives a non-empty sequence of non-zero units.
\<close>

locale unit_codec =
  fixes dec :: "'u::zero list \<Rightarrow> nat \<Rightarrow> (nat \<times> u32) option" and enc :: "u32 \<Rightarrow> 'u list"
    and good :: "u32 \<Rightarrow> bool"
  assumes dec_enc: "good c \<Longrightarrow> length (enc c) \<le> n \<Longrightarrow> dec (enc c @ r) n = Some (length (enc c), c)"
    and enc_nonempty: "good c \<Longrightarrow> enc c \<noteq> []"
    and enc_no_zero: "good c \<Longrightarrow> c \<noteq> 0 \<Longrightarrow> 0 \<notin> set (enc c)"
begin

lemma first_unit:
  assumes "good c" "c \<noteq> 0" "length (enc c) \<le> n"
  obtains u us where "enc c = u # us" "u \<noteq> 0" "\<And>r. dec (u # us @ r) n = Some (length (enc c), c)"
proof -
  from enc_nonempty [OF assms(1)] obtain u us where u: "enc c = u # us" by (cases "enc c") auto
  moreover have "u \<noteq> 0" using enc_no_zero [OF assms(1,2)] u by auto
  moreover have "dec (u # us @ r) n = Some (length (enc c), c)" for r
    using dec_enc [OF assms(1,3), of r] u by simp
  ultimately show ?thesis using that by blast
qed

lemma conv_enc_append:
  assumes "\<forall>c\<in>set cs. good c \<and> c \<noteq> 0" and "length (concat (map enc cs)) \<le> n"
  shows "conv_loop dec emit (concat (map enc cs) @ r) n =
    map_option ((@) (concat (map emit cs))) (conv_loop dec emit r (n - length (concat (map enc cs))))"
  using assms
proof (induction cs arbitrary: n)
  case Nil
  then show ?case by (simp add: option.map_ident)
next
  case (Cons c cs)
  then have c: "good c" "c \<noteq> 0" "length (enc c) \<le> n" by auto
  from c obtain u us where u: "enc c = u # us" "u \<noteq> 0"
    "\<And>r. dec (u # us @ r) n = Some (length (enc c), c)" by (rule first_unit) blast
  with Cons show ?case
    by (subst conv_loop.simps) (auto simp: map_option_case diff_diff_left split: option.split)
qed

lemma conv_enc:
  assumes "\<forall>c\<in>set cs. good c \<and> c \<noteq> 0" and "length (concat (map enc cs)) \<le> n"
    and "n = length (concat (map enc cs)) \<or> (\<exists>r'. r = 0 # r')"
  shows "conv_loop dec emit (concat (map enc cs) @ r) n = Some (concat (map emit cs))"
proof -
  have "conv_loop dec emit r (n - length (concat (map enc cs))) = Some []"
    using assms(3) by (subst conv_loop.simps) auto
  then show ?thesis by (simp only: conv_enc_append [OF assms(1,2)]) simp
qed

lemma valid_enc:
  assumes "\<forall>c\<in>set cs. good c \<and> c \<noteq> 0 \<and> c \<noteq> 0xfffd" and "length (concat (map enc cs)) \<le> n"
    and "n = length (concat (map enc cs)) \<or> (\<exists>r'. r = 0 # r')"
  shows "valid_loop dec (concat (map enc cs) @ r) n = Some True"
  using assms
proof (induction cs arbitrary: n)
  case Nil
  then show ?case by (auto simp: valid_loop.simps)
next
  case (Cons c cs)
  then have c: "good c" "c \<noteq> 0" "length (enc c) \<le> n" "c \<noteq> 0xfffd" by auto
  from c(1-3) obtain u us where u: "enc c = u # us" "u \<noteq> 0"
    "\<And>r. dec (u # us @ r) n = Some (length (enc c), c)" by (rule first_unit) blast
  moreover have "valid_loop dec (concat (map enc cs) @ r) (n - length (enc c)) = Some True"
    using Cons.prems by (intro Cons.IH) auto
  ultimately show ?case using c(3,4) by (subst valid_loop.simps) simp
qed

end

subsection \<open>One-character round trips\<close>

text \<open>A Unicode scalar value: a code point that is not a surrogate.\<close>

definition scalar :: "u32 \<Rightarrow> bool" where
  "scalar c \<longleftrightarrow> c < 0x110000 \<and> \<not> (0xd800 \<le> c \<and> c < 0xe000)"

lemma two_lead:
  fixes y :: u32
  assumes "y < 0x20"
  shows "(ucast (0xc0 OR y) :: byte) AND 0x80 \<noteq> 0 \<and> (ucast (0xc0 OR y) :: byte) AND 0xe0 = 0xc0
    \<and> ucast ((ucast (0xc0 OR y) :: byte) AND 0x1f) = y"
  using word_enum [OF assms [unfolded word_less_nat_alt]] by (auto simp: upt_rec)

lemma cont_tag: "(ucast (0x80 OR ((x::u32) AND 0x3f)) :: byte) AND 0xc0 = 0x80"
proof (rule bit_word_eqI)
  fix n assume n: "n < LENGTH(8)"
  then show "bit ((ucast (0x80 OR (x AND 0x3f)) :: byte) AND 0xc0) n = bit (0x80::byte) n"
    by (auto simp: bit_simps numeral_eq_Suc less_Suc_eq)
qed

lemma cont_payload: "ucast ((ucast (0x80 OR ((x::u32) AND 0x3f)) :: byte) AND 0x3f) = take_bit 6 x"
proof (rule bit_word_eqI)
  fix n assume n: "n < LENGTH(32)"
  show "bit (ucast ((ucast (0x80 OR (x AND 0x3f)) :: byte) AND 0x3f) :: u32) n = bit (take_bit 6 x) n"
    by (cases "n < 6") (auto simp: bit_simps numeral_eq_Suc less_Suc_eq)
qed

lemma two_payload_bound: "(x::u32) < 0x800 \<Longrightarrow> drop_bit 6 x < 0x20"
  by (simp add: word_less_nat_alt unat_shiftr less_mult_imp_div_less)

lemma three_lead:
  fixes y :: u32
  assumes "y < 0x10"
  shows "(ucast (0xe0 OR y) :: byte) AND 0x80 \<noteq> 0 \<and> (ucast (0xe0 OR y) :: byte) AND 0xe0 \<noteq> 0xc0
    \<and> (ucast (0xe0 OR y) :: byte) AND 0xf0 = 0xe0
    \<and> ucast ((ucast (0xe0 OR y) :: byte) AND 0x0f) = y"
  using word_enum [OF assms [unfolded word_less_nat_alt]] by (auto simp: upt_rec)
lemma four_lead:
  fixes y :: u32
  assumes "y < 8"
  shows "(ucast (0xf0 OR y) :: byte) AND 0x80 \<noteq> 0 \<and> (ucast (0xf0 OR y) :: byte) AND 0xe0 \<noteq> 0xc0
    \<and> (ucast (0xf0 OR y) :: byte) AND 0xf0 \<noteq> 0xe0 \<and> (ucast (0xf0 OR y) :: byte) AND 0xf8 = 0xf0
    \<and> ucast ((ucast (0xf0 OR y) :: byte) AND 0x07) = y"
  using word_enum [OF assms [unfolded word_less_nat_alt]] by (auto simp: upt_rec)

lemma glue_six: "push_bit 6 (drop_bit (6 + k) (x::u32)) OR take_bit 6 (drop_bit k x) = drop_bit k x"
  using glue [of 6 "drop_bit k x"] by (simp add: add.commute)

lemma ascii_lead: "(x::u32) < 0x80 \<Longrightarrow> (ucast x :: byte) AND 0x80 = 0 \<and> ucast (ucast x :: byte) = x"
  using word_enum [where y = x and k = "0x80"] by (auto simp: upt_rec word_less_nat_alt)

lemma utf8_decode_encode:
  assumes "scalar c" "length (ucs4ToUTF8 c) \<le> n"
  shows "utf8ToUCS4 (ucs4ToUTF8 c @ r) n = Some (length (ucs4ToUTF8 c), c)"
proof -
  have c: "(if (0xd800 \<le> c \<and> c < 0xe000) \<or> 0x110000 \<le> c then 0xfffd else c) = c"
    using assms(1) by (auto simp: scalar_def)
  have sur: "(if 0xd800 \<le> c \<and> c < 0xe000 then 0xfffd else c) = c"
    using assms(1) by (auto simp: scalar_def)
  consider (one) "c < 0x80" | (two) "\<not> c < 0x80" "c < 0x800" | (three) "\<not> c < 0x800" "c < 0x10000"
    | (four) "\<not> c < 0x10000" "c < 0x110000" using assms(1) by (auto simp: scalar_def)
  then show ?thesis
  proof cases
    case one
    then have l: "ucs4ToUTF8 c = [ucast c]" unfolding ucs4ToUTF8_def Let_def c by simp
    show ?thesis using ascii_lead [OF one] assms(2) sur unfolding l by (simp add: utf8ToUCS4_def)
  next
    case two
    then have l: "ucs4ToUTF8 c = [ucast (0xc0 OR drop_bit 6 c), ucast (0x80 OR (c AND 0x3f))]"
      unfolding ucs4ToUTF8_def Let_def c by simp
    have "drop_bit 6 c < 0x20" using two(2) by (rule two_payload_bound)
    note b = two_lead [OF this]
    show ?thesis using b assms(2) sur unfolding l
      by (simp add: utf8ToUCS4_def cont_tag cont_payload glue)
  next
    case three
    then have l: "ucs4ToUTF8 c = [ucast (0xe0 OR drop_bit 12 c), ucast (0x80 OR (drop_bit 6 c AND 0x3f)), ucast (0x80 OR (c AND 0x3f))]"
      unfolding ucs4ToUTF8_def Let_def c by (simp add: word_less_nat_alt)
    have "drop_bit 12 c < 0x10" using three(2)
      by (simp add: word_less_nat_alt unat_shiftr less_mult_imp_div_less)
    note b = three_lead [OF this]
    show ?thesis using b assms(2) sur glue_six [of 6 c] unfolding l
      by (simp add: utf8ToUCS4_def cont_tag cont_payload glue numeral_2_eq_2)
  next
    case four
    then have l: "ucs4ToUTF8 c = [ucast (0xf0 OR drop_bit 18 c), ucast (0x80 OR (drop_bit 12 c AND 0x3f)),
        ucast (0x80 OR (drop_bit 6 c AND 0x3f)), ucast (0x80 OR (c AND 0x3f))]"
      unfolding ucs4ToUTF8_def Let_def c by (simp add: word_less_nat_alt)
    have "drop_bit 18 c < 8" using four(2)
      by (simp add: word_less_nat_alt unat_shiftr less_mult_imp_div_less)
    note b = four_lead [OF this]
    show ?thesis using b assms(2) sur glue_six [of 6 c] glue_six [of 12 c] unfolding l
      by (simp add: utf8ToUCS4_def cont_tag cont_payload glue numeral_3_eq_3)
  qed
qed

lemma and_mask10: "x AND 0x3ff = take_bit 10 x" for x :: u32
  by (simp add: take_bit_eq_mask mask_eq_exp_minus_1)

lemma ucast_or: "(ucast (k OR z) :: u16) = ucast (k::u32) OR ucast z" for k z :: u32
  by (rule bit_word_eqI) (auto simp: bit_simps)

lemma ucast_take: "(ucast (take_bit 10 y) :: u16) = take_bit 10 (ucast (y::u32))"
  by (rule bit_word_eqI) (auto simp: bit_simps)

lemma seam_take: "take_bit 10 (ucast (push_bit 10 a OR take_bit 10 y) :: u32) = take_bit 10 (ucast y)" for a y :: u16
  by (rule bit_word_eqI) (auto simp: bit_simps)

lemma ucast_pass: "take_bit 10 (ucast (ucast x :: u16)) = take_bit 10 (x :: u32)"
  by (rule bit_word_eqI) (auto simp: bit_simps)

lemma high_ten:
  fixes y :: u32
  shows "(ucast (0xd800 OR (y AND 0x3ff)) :: u16) = 0xd800 OR take_bit 10 (ucast y)"
    and "(ucast (0xdc00 OR (y AND 0x3ff)) :: u16) = 0xdc00 OR take_bit 10 (ucast y)"
  by (simp_all add: and_mask10 ucast_or ucast_take)

lemma take_bit_lt: "unat (take_bit 10 (y :: u16)) < 0x400"
  using take_bit_nat_less_exp [of 10 "unat y"] by (simp add: unsigned_take_bit_eq)

lemma sur_props:
  fixes y :: u16
  defines "u \<equiv> 0xd800 OR take_bit 10 y" and "v \<equiv> 0xdc00 OR take_bit 10 y"
  shows "\<not> u < 0xd800" "\<not> 0xe000 \<le> u" "u AND 0x400 = 0" "v AND 0xfc00 = 0xdc00"
    "ucast u AND 0x3ff = (take_bit 10 (ucast y) :: u32)" "ucast v AND 0x3ff = (take_bit 10 (ucast y) :: u32)"
proof -
  have u: "u = push_bit 10 0x36 OR take_bit 10 y" and v: "v = push_bit 10 0x37 OR take_bit 10 y"
    by (simp_all add: u_def v_def)
  show "\<not> u < 0xd800" "\<not> 0xe000 \<le> u"
    using take_bit_lt [of y] unfolding u seam_add [symmetric]
    by (auto simp: word_le_nat_alt word_less_nat_alt unat_word_ariths)
  show "u AND 0x400 = 0" using seam_and [of 10 "0x36" y 1] by (simp add: u)
  show "v AND 0xfc00 = 0xdc00" using seam_and [of 10 "0x37" y "0x3f"] by (simp add: v)
  show "ucast u AND 0x3ff = (take_bit 10 (ucast y) :: u32)"
    unfolding and_mask10 u by (rule seam_take)
  show "ucast v AND 0x3ff = (take_bit 10 (ucast y) :: u32)"
    unfolding and_mask10 v by (rule seam_take)
qed

lemma scalar_id: "scalar c \<Longrightarrow> (if (0xd800 \<le> c \<and> c < 0xe000) \<or> 0x110000 \<le> c then 0xfffd else c) = c"
  by (auto simp: scalar_def)

lemma bmp_unit: "c < 0x10000 \<Longrightarrow> unat (ucast c :: u16) = unat c" for c :: u32
  by (simp add: word_less_nat_alt unsigned_ucast_eq take_bit_nat_eq_self)

lemma bmp_back: "c < 0x10000 \<Longrightarrow> ucast (ucast c :: u16) = c" for c :: u32
proof -
  assume "c < 0x10000"
  then have "take_bit 16 c = c" by (intro take_bit_small) (simp add: word_less_nat_alt)
  moreover have "ucast (ucast c :: u16) = take_bit 16 c"
    by (rule bit_word_eqI) (auto simp: bit_simps)
  ultimately show ?thesis by simp
qed

lemma ucs4ToUTF16_bmp: "scalar c \<Longrightarrow> c < 0x10000 \<Longrightarrow> ucs4ToUTF16 c = [ucast c]"
  by (simp add: ucs4ToUTF16_def scalar_id)

lemma ucs4ToUTF16_pair:
  assumes "scalar c" "\<not> c < 0x10000"
  shows "ucs4ToUTF16 c = [0xd800 OR take_bit 10 (ucast (drop_bit 10 (c - 0x10000))),
    0xdc00 OR take_bit 10 (ucast (c - 0x10000))]"
  using assms(2) unfolding ucs4ToUTF16_def Let_def scalar_id [OF assms(1)] high_ten by simp

lemma pair_value:
  fixes c :: u32
  shows "(0x10000 + push_bit 10 (drop_bit 10 (c - 0x10000))) OR take_bit 10 (c - 0x10000) = c"
proof -
  let ?s = "c - 0x10000"
  have e: "0x10000 + push_bit 10 (drop_bit 10 ?s) = push_bit 10 (0x40 + drop_bit 10 ?s)"
    unfolding push_bit_eq_mult by (simp add: algebra_simps)
  have "(0x10000 + push_bit 10 (drop_bit 10 ?s)) OR take_bit 10 ?s
      = (0x10000 + push_bit 10 (drop_bit 10 ?s)) + take_bit 10 ?s"
    unfolding e seam_add ..
  also have "\<dots> = 0x10000 + (push_bit 10 (drop_bit 10 ?s) + take_bit 10 ?s)"
    by (rule add.assoc)
  also have "\<dots> = 0x10000 + ?s" unfolding seam_add glue ..
  finally show ?thesis by simp
qed

lemma utf16_decode_encode:
  assumes "scalar c" "length (ucs4ToUTF16 c) \<le> n"
  shows "utf16ToUCS4 (ucs4ToUTF16 c @ r) n = Some (length (ucs4ToUTF16 c), c)"
proof (cases "c < 0x10000")
  case True
  moreover have "(ucast c :: u16) < 0xd800 \<or> 0xe000 \<le> (ucast c :: u16)"
    using assms(1) bmp_unit [OF True] by (auto simp: scalar_def word_less_nat_alt word_le_nat_alt)
  ultimately show ?thesis
    using assms by (simp add: utf16ToUCS4_def ucs4ToUTF16_bmp bmp_back)
next
  case False
  let ?s = "c - 0x10000"
  note l = ucs4ToUTF16_pair [OF assms(1) False]
  have "unat ?s = unat c - 0x10000" using False by (simp add: unat_sub)
  moreover have "unat c < 0x110000" using assms(1) by (simp add: scalar_def word_less_nat_alt)
  ultimately have "unat (drop_bit 10 ?s) < 2 ^ 10"
    by (simp add: unat_shiftr less_mult_imp_div_less)
  then have hi: "take_bit 10 (drop_bit 10 ?s) = drop_bit 10 ?s"
    by (rule take_bit_small)
  show ?thesis
    using assms(2) pair_value [of c] unfolding l
    by (simp add: utf16ToUCS4_def sur_props ucast_pass hi)
qed

lemma utf8_no_zero: "scalar c \<Longrightarrow> c \<noteq> 0 \<Longrightarrow> 0 \<notin> set (ucs4ToUTF8 c)"
proof -
  assume s: "scalar c" "c \<noteq> 0"
  have nz: "(ucast (k OR y) :: byte) \<noteq> 0" if "bit k 7" for k y :: u32
  proof
    assume "(ucast (k OR y) :: byte) = 0"
    then have "bit (ucast (k OR y) :: byte) 7 = bit (0::byte) 7" by simp
    then show False using that by (simp add: bit_simps)
  qed
  have "c < 0x80 \<Longrightarrow> (ucast c :: byte) \<noteq> 0"
    using ascii_lead [of c] s(2) by (metis unsigned_0)
  moreover have "(ucast (0xc0 OR y) :: byte) \<noteq> 0" "(ucast (0xe0 OR y) :: byte) \<noteq> 0"
    "(ucast (0xf0 OR y) :: byte) \<noteq> 0" "(ucast (0x80 OR y) :: byte) \<noteq> 0" for y :: u32
    by (rule nz; simp)+
  ultimately show ?thesis using s(1) by (auto simp: ucs4ToUTF8_def Let_def scalar_def)
qed

lemma utf16_no_zero:
  assumes "scalar c" "c \<noteq> 0"
  shows "0 \<notin> set (ucs4ToUTF16 c)"
proof (cases "c < 0x10000")
  case True
  then have "(ucast c :: u16) \<noteq> 0" using bmp_back [OF True] assms(2) by (metis unsigned_0)
  with True assms(1) show ?thesis by (simp add: ucs4ToUTF16_bmp)
next
  case False
  have "0xd800 OR take_bit 10 y \<noteq> 0" "0xdc00 OR take_bit 10 y \<noteq> 0" for y :: u16
    using sur_props(1) [of y] sur_props(4) [of y] by auto
  then show ?thesis by (simp add: ucs4ToUTF16_pair [OF assms(1) False])
qed

interpretation utf8: unit_codec utf8ToUCS4 ucs4ToUTF8 scalar
proof
  show "ucs4ToUTF8 c \<noteq> []" for c by (simp add: ucs4ToUTF8_def Let_def)
qed (use utf8_decode_encode utf8_no_zero in auto)

interpretation utf16: unit_codec utf16ToUCS4 ucs4ToUTF16 scalar
proof
  show "ucs4ToUTF16 c \<noteq> []" for c by (simp add: ucs4ToUTF16_def Let_def)
qed (use utf16_decode_encode utf16_no_zero in auto)


text \<open>Latin-1 is a codec too: a byte is its own code point.\<close>

interpretation latin1: unit_codec latin1_char "\<lambda>c. [ucast c]" "\<lambda>c. c < 0x100"
proof
  have low: "ucast (ucast c :: byte) = c" if "c < 0x100" for c :: u32
  proof -
    have "take_bit 8 c = c" using that by (intro take_bit_small) (simp add: word_less_nat_alt)
    moreover have "ucast (ucast c :: byte) = take_bit 8 c"
      by (rule bit_word_eqI) (auto simp: bit_simps)
    ultimately show ?thesis by simp
  qed
  show "latin1_char ([ucast c] @ r) n = Some (length [ucast c :: byte], c)"
    if "c < 0x100" for c r n
    using low [OF that] by (simp add: latin1_char_def)
  show "0 \<notin> set [ucast c :: byte]" if "c < 0x100" "c \<noteq> 0" for c :: u32
    using low [OF that(1)] that(2) by (auto dest: arg_cong [of _ _ "ucast :: byte \<Rightarrow> u32"])
qed auto

subsection \<open>Memory safety of the validators\<close>

lemma utf8_skip_bounds:
  "n \<le> length src \<Longrightarrow> \<exists>len. utf8_skip src n k = Some (len, 0xfffd)"
  by (induction src n k rule: utf8_skip.induct) (auto simp: Let_def)

lemma utf8_tail_bounds:
  "n \<le> length src \<Longrightarrow>
    \<exists>len ucs. utf8_tail count src n k d = Some (len, ucs) \<and> k \<le> len \<and> (ucs = 0xfffd \<or> len \<le> n + k)"
proof (induction count src n k d rule: utf8_tail.induct)
  case (1 src n k d)
  then show ?case by simp
next
  case (2 count src n k d)
  show ?case
  proof (cases "n = 0")
    case True
    then show ?thesis by simp
  next
    case False
    with 2(2) obtain b src' where src: "src = b # src'" by (cases src) auto
    show ?thesis
    proof (cases "b AND 0xc0 = 0x80")
      case True
      have "n - 1 \<le> length src'" using 2(2) src by simp
      from 2(1) [OF False src _ this] True obtain len ucs where
        "utf8_tail count src' (n - 1) (k + 1) (push_bit 6 d OR ucast (b AND 0x3f)) = Some (len, ucs)"
        "k + 1 \<le> len" "ucs = 0xfffd \<or> len \<le> n - 1 + (k + 1)" by auto
      with False src True show ?thesis by auto
    qed (use False src in simp)
  qed
qed

lemma utf8ToUCS4_bounds:
  assumes "0 < n" "n \<le> length src"
  shows "\<exists>len ucs. utf8ToUCS4 src n = Some (len, ucs) \<and> (ucs = 0xfffd \<or> 0 < len \<and> len \<le> n)"
proof -
  from assms obtain b src' where src: "src = b # src'" by (cases src) auto
  have le: "n - 1 \<le> length src'" using assms src by simp
  have t: "\<exists>len ucs. utf8_tail k src' (n - 1) 1 d = Some (len, ucs) \<and> (ucs = 0xfffd \<or> 0 < len \<and> len \<le> n)" for k d
    using utf8_tail_bounds [OF le, of k 1 d] assms(1) by auto
  show ?thesis
    using utf8_skip_bounds [OF le, of 1] t assms(1) unfolding utf8ToUCS4_def src
    by (auto simp del: utf8_tail.simps)
qed

lemma valid_loop_safe:
  assumes dec: "\<And>src n. 0 < n \<Longrightarrow> n \<le> length src \<Longrightarrow>
      \<exists>len ucs. dec src n = Some (len, ucs) \<and> (ucs = 0xfffd \<or> 0 < len \<and> len \<le> n)"
    and "n \<le> length str"
  shows "\<exists>v. valid_loop dec str n = Some v"
  using assms(2)
proof (induction str arbitrary: n rule: measure_induct_rule [of length])
  case (less str)
  show ?case
  proof (cases "n = 0 \<or> (\<exists>r. str = 0 # r)")
    case True
    then show ?thesis by (subst valid_loop.simps) auto
  next
    case False
    then obtain u r where str: "str = u # r" "u \<noteq> 0" "0 < n" using less.prems by (cases str) auto
    from dec [OF str(3) less.prems] obtain len ucs where d: "dec str n = Some (len, ucs)"
      "ucs = 0xfffd \<or> 0 < len \<and> len \<le> n" by blast
    show ?thesis
    proof (cases "ucs = 0xfffd")
      case True
      with d str show ?thesis by (subst valid_loop.simps) auto
    next
      case False
      then have len: "0 < len" "len \<le> n" using d(2) by auto
      have "\<exists>v. valid_loop dec (drop len str) (n - len) = Some v"
        using len str less.prems by (intro less.IH) auto
      with len d(1) str False show ?thesis by (subst valid_loop.simps) simp
    qed
  qed
qed

subsection \<open>Properties\<close>

text \<open>
  C33: Converting UTF-8 text to UTF-16 and back gives the text again: for every sequence of
  non-zero Unicode scalar values, \<open>utf8ToUTF16\<close> turns the UTF-8 spelling into the
  UTF-16 spelling and \<open>utf16ToUTF8\<close> turns that back, for buffers passed with their
  exact length or zero-terminated with any larger length.
\<close>

theorem utf8_utf16_round_trip:
  assumes "\<forall>c\<in>set cs. scalar c \<and> c \<noteq> 0"
    and "length (concat (map ucs4ToUTF8 cs)) \<le> n" and "length (concat (map ucs4ToUTF16 cs)) \<le> m"
  shows "utf8ToUTF16 (concat (map ucs4ToUTF8 cs) @ 0 # r) n = Some (concat (map ucs4ToUTF16 cs)) \<and>
    utf16ToUTF8 (concat (map ucs4ToUTF16 cs) @ 0 # r') m = Some (concat (map ucs4ToUTF8 cs))"
proof -
  let ?s8 = "concat (map ucs4ToUTF8 cs)" and ?s16 = "concat (map ucs4ToUTF16 cs)"
  have buf8: "append_buf (ucs4ToUTF8 c) = ucs4ToUTF8 c" and buf16: "append_buf (ucs4ToUTF16 c) = ucs4ToUTF16 c"
    if "c \<in> set cs" for c
    using utf8_no_zero [of c] utf16_no_zero [of c] assms(1) that
    by (auto simp: append_buf_def takeWhile_eq_all_conv)
  have "utf8ToUTF16 (?s8 @ 0 # r) n = Some (concat (map (\<lambda>c. append_buf (ucs4ToUTF16 c)) cs))"
    unfolding utf8ToUTF16_def using assms(1,2) by (intro utf8.conv_enc) auto
  moreover have "utf16ToUTF8 (?s16 @ 0 # r') m = Some (concat (map (\<lambda>c. append_buf (ucs4ToUTF8 c)) cs))"
    unfolding utf16ToUTF8_def using assms(1,3) by (intro utf16.conv_enc) auto
  moreover have "map (\<lambda>c. append_buf (ucs4ToUTF16 c)) cs = map ucs4ToUTF16 cs"
    "map (\<lambda>c. append_buf (ucs4ToUTF8 c)) cs = map ucs4ToUTF8 cs"
    using buf8 buf16 by auto
  ultimately show ?thesis by simp
qed

text \<open>
  C34: \<open>isValidUTF8\<close> never reads outside the buffer it is given, whatever bytes it
  holds: with a length that does not exceed the allocation it always returns an answer.
\<close>

theorem isValidUTF8_in_bounds:
  assumes "n \<le> length str"
  shows "\<exists>v. isValidUTF8 str n = Some v"
  using valid_loop_safe [OF utf8ToUCS4_bounds assms] by (simp add: isValidUTF8_def)

theorem isValidUTF8_in_bounds_witness:
  "2 \<le> length [0xc3, 0xa5 :: byte] \<and> (\<exists>v. isValidUTF8 [0xc3, 0xa5] 2 = Some v)"
  using isValidUTF8_in_bounds [of 2 "[0xc3, 0xa5]"] by simp

text \<open>
  C40: The converters do read outside it. After any well-formed text, a lead byte with no
  continuation byte left makes \<open>utf8ToUCS4\<close> report two bytes consumed where one was
  available; \<open>utf8ToLatin1\<close> then steps over the terminating zero and reads past the
  end of the allocation, both with the exact length and with the default length.
\<close>

theorem utf8ToLatin1_truncated_overread:
  assumes "\<forall>c\<in>set cs. scalar c \<and> c \<noteq> 0" and "b AND 0xe0 = 0xc0"
    and "n = length (concat (map ucs4ToUTF8 cs)) + 1 \<or> length (concat (map ucs4ToUTF8 cs)) + 2 < n"
    and "n < 2 ^ 64"
  shows "utf8ToLatin1 (concat (map ucs4ToUTF8 cs) @ [b, 0]) n = None"
proof -
  let ?t = "concat (map ucs4ToUTF8 cs)" and ?emit = "\<lambda>ucs. if ucs > 0xff then [0x3f] else [ucast ucs :: byte]"
  have "b AND 0x80 = (b AND 0xe0) AND 0x80" by (simp add: and.assoc)
  then have b: "b \<noteq> 0" "b AND 0x80 \<noteq> 0" using assms(2) by auto
  from b have "conv_loop utf8ToUCS4 ?emit [b, 0] (n - length ?t) = None"
    using assms(3,4) by (subst conv_loop.simps, subst conv_loop.simps) (auto simp: utf8ToUCS4_def assms(2) size_sub_def)
  moreover have "length ?t \<le> n" using assms(3) by auto
  ultimately show ?thesis
    unfolding utf8ToLatin1_def using utf8.conv_enc_append [OF assms(1), of n ?emit "[b, 0]"] by simp
qed


theorem utf8ToLatin1_truncated_overread_witness:
  "utf8ToLatin1 (concat (map ucs4ToUTF8 [0x61]) @ [0xc3, 0]) 2 = None \<and>
   utf8ToLatin1 (concat (map ucs4ToUTF8 [0x61]) @ [0xc3, 0]) (2 ^ 64 - 1) = None"
  using utf8ToLatin1_truncated_overread [of "[0x61]" "0xc3" 2]
    utf8ToLatin1_truncated_overread [of "[0x61]" "0xc3" "2 ^ 64 - 1"]
  by (simp add: scalar_def ucs4ToUTF8_def)

theorem utf8_utf16_round_trip_witness:
  "utf8ToUTF16 (concat (map ucs4ToUTF8 [0x61, 0x1f638]) @ [0]) 5 = Some [0x61, 0xd83d, 0xde38] \<and>
   utf16ToUTF8 ([0x61, 0xd83d, 0xde38, 0]) 3 = Some (concat (map ucs4ToUTF8 [0x61, 0x1f638]))"
  using utf8_utf16_round_trip [of "[0x61, 0x1f638]" 5 3 "[]" "[]"]
  by (simp add: scalar_def ucs4ToUTF8_def ucs4ToUTF16_def)

lemma isValidAscii_run:
  assumes "\<forall>c\<in>set s. c \<noteq> 0 \<and> c < 0x80" and "n \<noteq> 0"
  shows "isValidAscii (s @ r) n = isValidAscii r n"
  using assms by (induction s) (auto simp: not_le)

text \<open>
  \<open>isValidAscii\<close> ignores its length argument once it is not zero: on a buffer of
  ASCII characters with no terminating zero it reads past the end, and a byte after the
  buffer decides the answer.
\<close>

theorem isValidAscii_ignores_length:
  assumes "\<forall>c\<in>set s. c \<noteq> 0 \<and> c < 0x80" and "s \<noteq> []"
  shows "isValidAscii s (length s) = None \<and> isValidAscii (s @ [0x80]) (length s) = Some False \<and>
    isValidAscii (s @ [0]) (length s) = Some True"
  using isValidAscii_run [OF assms(1), of "length s" "[]"] isValidAscii_run [OF assms(1), of "length s" "[0x80]"]
    isValidAscii_run [OF assms(1), of "length s" "[0]"] assms(2)
  by simp

theorem isValidAscii_ignores_length_witness:
  "isValidAscii [0x61] 1 = None \<and> isValidAscii [0x61, 0x80] 1 = Some False"
  using isValidAscii_ignores_length [of "[0x61]"] by simp

subsection \<open>Hexadecimal round trip\<close>

lemma nibbles: "push_bit 4 (drop_bit 4 b AND 15) + (b AND 15) = b" for b :: byte
proof -
  have m: "x AND 15 = take_bit 4 x" for x :: byte by (simp add: take_bit_eq_mask mask_eq_exp_minus_1)
  have "take_bit 4 (drop_bit 4 b) = drop_bit 4 b"
    by (rule bit_word_eqI) (auto simp: bit_simps dest: bit_imp_le_length)
  then show ?thesis unfolding m seam_add by (simp add: glue)
qed

lemma read_intToHex: "i \<le> 15 \<Longrightarrow> readHexAndShift (intToHex i) v = Some (push_bit 4 v + i)"
  using word_enum [where y = i and k = 16]
  by (auto simp: upt_rec word_le_nat_alt readHexAndShift_def intToHex_def tolower_def less_Suc_eq_le)

lemma intToHex_nonzero: "i \<le> 15 \<Longrightarrow> intToHex i \<noteq> 0"
  using word_enum [where y = i and k = 16] by (auto simp: upt_rec word_le_nat_alt intToHex_def less_Suc_eq_le)

lemma nibble_le: "b AND 15 \<le> 15" for b :: byte
  by (rule word_and_le1)

lemma hexToBin_binToHex_loop:
  "length out = length ins \<Longrightarrow> hexToBin_loop (binToHex_loop ins) out = (True, ins)"
proof (induction ins arbitrary: out)
  case Nil
  then show ?case by simp
next
  case (Cons b ins)
  then obtain q out' where out: "out = q # out'" "length out' = length ins" by (cases out) auto
  show ?case using Cons.IH [OF out(2)] out(1)
    by (simp add: read_intToHex nibble_le nibbles [simplified])
qed

lemma length_binToHex_loop [simp]: "length (binToHex_loop ins) = 2 * length ins"
  by (induction ins) auto

lemma binToHex_eq: "binToHex ins = binToHex_loop ins"
proof -
  have "0 \<notin> set (binToHex_loop ins)"
    by (induction ins) (auto simp: intToHex_nonzero nibble_le dest: sym)
  then show ?thesis by (auto simp: binToHex_def binToHex_buf_def Let_def takeWhile_eq_all_conv)
qed

text \<open>Hexadecimal text decodes to the bytes it was made from.\<close>

theorem hex_round_trip: "hexToBin (binToHex ins) = ins"
  by (simp add: hexToBin_def hexToBin_buf_def binToHex_eq hexToBin_binToHex_loop)


subsection \<open>Line endings\<close>

text \<open>
  What the two conversions mean on a whole text: a line break is CR LF, a lone CR or a
  lone LF, and each becomes LF (or CR LF).
\<close>

fun lf_text :: "byte list \<Rightarrow> byte list" where
  "lf_text [] = []"
| "lf_text (c # cs) =
     (if c = CR then (case cs of d # ds \<Rightarrow> if d = LF then LF # lf_text ds else LF # lf_text cs | [] \<Rightarrow> [LF])
      else c # lf_text cs)"

fun crlf_text :: "byte list \<Rightarrow> byte list" where
  "crlf_text [] = []"
| "crlf_text (c # cs) =
     (if c = CR then (case cs of d # ds \<Rightarrow> if d = LF then CR # LF # crlf_text ds else CR # LF # crlf_text cs
                      | [] \<Rightarrow> [CR, LF])
      else if c = LF then CR # LF # crlf_text cs
      else c # crlf_text cs)"

lemma convert_nothing [simp]: "convertLF r 0 = Some []" "convertCRLF_loop prev r 0 = Some []"
  by (cases r; simp)+

lemma convertLF_text:
  assumes "0 \<notin> set s" and "n = length s \<or> length s < n \<and> (\<exists>r'. r = 0 # r')"
  shows "convertLF (s @ r) n = Some (lf_text s)"
  using assms
proof (induction s arbitrary: n rule: lf_text.induct)
  case 1
  then show ?case by (cases r) auto
next
  case (2 c cs)
  have p: "0 \<notin> set cs" "n - 1 = length cs \<or> length cs < n - 1 \<and> (\<exists>r'. r = 0 # r')" "c \<noteq> 0" "n \<noteq> 0"
    using 2(4,5) by auto
  show ?case
  proof (cases "c = CR")
    case False
    then show ?thesis using 2(3) [OF False p(1,2)] p by auto
  next
    case True
    then show ?thesis
    proof (cases cs)
      case Nil
      with True p show ?thesis by (cases r) auto
    next
      case (Cons d ds)
      have q: "0 \<notin> set ds" "n - 1 - 1 = length ds \<or> length ds < n - 1 - 1 \<and> (\<exists>r'. r = 0 # r')" "n - 1 \<noteq> 0"
        using p Cons by auto
      show ?thesis
        using 2(2) [OF True Cons _ p(1,2)] 2(1) [OF True Cons _ q(1,2)] True Cons p q(3)
        by (cases "d = LF") auto
    qed
  qed
qed

lemma convertCRLF_text:
  assumes "0 \<notin> set s" and "n = length s \<or> length s < n \<and> (\<exists>r'. r = 0 # r')"
    and "prev = Some CR \<Longrightarrow> s = [] \<or> hd s \<noteq> LF"
  shows "convertCRLF_loop prev (s @ r) n = Some (crlf_text s)"
  using assms
proof (induction s arbitrary: n prev rule: crlf_text.induct)
  case 1
  then show ?case by (cases r) auto
next
  case (2 c cs)
  let ?rest = "convertCRLF_loop (Some c) (cs @ r) (n - 1)"
  have p: "0 \<notin> set cs" "n - 1 = length cs \<or> length cs < n - 1 \<and> (\<exists>r'. r = 0 # r')" "c \<noteq> 0" "n \<noteq> 0"
    using 2(5,6) by auto
  show ?case
  proof (cases "c = CR")
    case False
    then have "?rest = Some (crlf_text cs)"
      using 2(3) [OF False _ p(1,2), of "Some c"] 2(4) [OF False _ p(1,2), of "Some c"] by (cases "c = LF") auto
    with False p 2(7) show ?thesis by (auto simp: Let_def)
  next
    case True
    then show ?thesis
    proof (cases cs)
      case Nil
      with True p show ?thesis by (cases r) (auto simp: Let_def)
    next
      case (Cons d ds)
      show ?thesis
      proof (cases "d = LF")
        case False
        then have "?rest = Some (crlf_text cs)"
          using 2(2) [OF True Cons False p(1,2), of "Some c"] Cons by auto
        with True Cons False p show ?thesis by (auto simp: Let_def)
      next
        case lf: True
        have q: "0 \<notin> set ds" "n - 1 - 1 = length ds \<or> length ds < n - 1 - 1 \<and> (\<exists>r'. r = 0 # r')" "n - 1 \<noteq> 0"
          using p Cons by auto
        have "convertCRLF_loop (Some LF) (ds @ r) (n - 1 - 1) = Some (crlf_text ds)"
          using 2(1) [OF True Cons lf q(1,2), of "Some LF"] by auto
        then have "?rest = Some (LF # crlf_text ds)"
          using True Cons lf q(3) by (auto simp: Let_def)
        with True Cons lf p q(3) show ?thesis by (auto simp: Let_def)
      qed
    qed
  qed
qed


lemma lf_text_no_CR: "CR \<notin> set (lf_text s)"
  by (induction s rule: lf_text.induct) (auto split: list.splits)

lemma lf_text_id: "CR \<notin> set s \<Longrightarrow> lf_text s = s"
  by (induction s rule: lf_text.induct) auto

lemma lf_crlf_text: "lf_text (crlf_text s) = lf_text s"
  by (induction s rule: crlf_text.induct) (auto split: list.splits)

lemma set_lf_text: "set (lf_text s) \<subseteq> insert LF (set s)"
proof (induction s rule: lf_text.induct)
  case (2 c cs)
  then show ?case by (cases "c = CR"; cases cs) auto
qed simp

lemma set_crlf_text: "set (crlf_text s) \<subseteq> insert CR (insert LF (set s))"
proof (induction s rule: crlf_text.induct)
  case (2 c cs)
  then show ?case by (cases "c = CR"; cases cs) auto
qed simp

lemma lf_text_no_zero: "0 \<notin> set s \<Longrightarrow> 0 \<notin> set (lf_text s)"
  using set_lf_text [of s] by auto

lemma crlf_text_no_zero: "0 \<notin> set s \<Longrightarrow> 0 \<notin> set (crlf_text s)"
  using set_crlf_text [of s] by auto

text \<open>
  Normalising line endings: \<open>convertLF\<close> of a zero-terminated text leaves no
  carriage return, converting the result again changes nothing, and going through
  \<open>convertCRLF\<close> first gives the same text.
\<close>

theorem convertLF_normalises:
  assumes "0 \<notin> set s" and "length s < n"
  shows "\<exists>t u. convertLF (s @ [0]) n = Some t \<and> convertCRLF (s @ [0]) n = Some u \<and> CR \<notin> set t \<and>
    (\<forall>m > length t. convertLF (t @ [0]) m = Some t) \<and> (\<forall>m > length u. convertLF (u @ [0]) m = Some t)"
proof (intro exI conjI allI impI)
  show "convertLF (s @ [0]) n = Some (lf_text s)" using assms by (intro convertLF_text) auto
  show "convertCRLF (s @ [0]) n = Some (crlf_text s)"
    unfolding convertCRLF_def using assms by (intro convertCRLF_text) auto
  show "CR \<notin> set (lf_text s)" by (rule lf_text_no_CR)
next
  fix m
  assume "length (lf_text s) < m"
  then have "convertLF (lf_text s @ [0]) m = Some (lf_text (lf_text s))"
    using assms lf_text_no_zero by (intro convertLF_text) auto
  then show "convertLF (lf_text s @ [0]) m = Some (lf_text s)"
    by (simp add: lf_text_id lf_text_no_CR)
next
  fix m
  assume "length (crlf_text s) < m"
  then have "convertLF (crlf_text s @ [0]) m = Some (lf_text (crlf_text s))"
    using assms crlf_text_no_zero by (intro convertLF_text) auto
  then show "convertLF (crlf_text s @ [0]) m = Some (lf_text s)"
    by (simp add: lf_crlf_text)
qed

theorem convertLF_normalises_witness:
  "convertLF ([0x61, CR, LF, 0x62, CR] @ [0]) 9 = Some [0x61, LF, 0x62, LF] \<and>
   convertLF ([0x61, LF, 0x62, LF] @ [0]) 5 = Some [0x61, LF, 0x62, LF]"
  using convertLF_normalises [of "[0x61, CR, LF, 0x62, CR]" 9] by simp

end
