(* ===== verification/Input_Queue.thy ===== *)
theory Input_Queue
  imports Prelude
begin

text \<open>
  The mailbox between the user interface and the session worker,
  \<open>viewer/core/InputQueue.cxx\<close>. Every public method runs under the mailbox's mutex,
  so each is one atomic operation on the state. An operation that throws throws before it
  changes anything; the model gives \<open>Inl\<close> and no new state. Whether
  \<open>queue.push_back\<close> finds memory is an argument of the operations that push.
\<close>

unbundle bit_operations_syntax

subsection \<open>State\<close>

datatype input_result = Accepted | Coalesced | StaleGeneration | NotConnected
  | ViewOnly | Unfocused | Overflow | Invalid

datatype input_error = RoutingRevisionExhausted | InvalidCapacity

record input_status =
  generation :: u64
  overflows :: u64
  routingRevision :: u64
  queued :: nat
  is_connected :: bool
  focused :: bool
  viewOnly :: bool
  releasePending :: bool
  emulateMiddle :: bool

datatype command_kind = Key | Pointer | ReleaseAll

record command =
  kind :: command_kind
  keyId :: u32
  keySym :: u32
  keyCode :: u32
  cx :: int
  cy :: int
  buttons :: u16
  down :: bool
  transition :: bool
  cmd_emulateMiddle :: bool
  cmd_routingRevision :: u64

definition default_command :: command where
  "default_command =
     \<lparr>kind = ReleaseAll, keyId = 0, keySym = 0, keyCode = 0, cx = 0, cy = 0, buttons = 0,
      down = False, transition = False, cmd_emulateMiddle = False, cmd_routingRevision = 0\<rparr>"

definition default_status :: input_status where
  "default_status =
     \<lparr>generation = 1, overflows = 0, routingRevision = 1, queued = 0, is_connected = False,
      focused = True, viewOnly = False, releasePending = False, emulateMiddle = False\<rparr>"

record input_queue =
  capacity :: nat
  iq_status :: input_status
  iq_buttons :: u16
  iq_queue :: "command list"

subsection \<open>Operations\<close>

definition new_queue :: "nat \<Rightarrow> input_error + input_queue" where
  "new_queue cap =
     (if cap = 0 \<or> cap > 65536 then Inl InvalidCapacity
      else Inr \<lparr>capacity = cap, iq_status = default_status, iq_buttons = 0, iq_queue = []\<rparr>)"

definition check :: "input_queue \<Rightarrow> u64 \<Rightarrow> input_result" where
  "check q gen =
     (if gen \<noteq> generation (iq_status q) then StaleGeneration
      else if \<not> is_connected (iq_status q) then NotConnected
      else if viewOnly (iq_status q) then ViewOnly
      else if \<not> focused (iq_status q) then Unfocused
      else Accepted)"

definition release :: "input_queue \<Rightarrow> input_queue" where
  "release q = q\<lparr>iq_queue := [], iq_buttons := 0,
     iq_status := (iq_status q)\<lparr>releasePending := is_connected (iq_status q)\<rparr>\<rparr>"

definition reroute :: "input_queue \<Rightarrow> input_error + input_queue" where
  "reroute q =
     (if routingRevision (iq_status q) = - 1 then Inl RoutingRevisionExhausted
      else Inr (q\<lparr>iq_status := (iq_status q)\<lparr>routingRevision := routingRevision (iq_status q) + 1\<rparr>\<rparr>))"

definition policy :: "input_queue \<Rightarrow> bool \<Rightarrow> bool \<Rightarrow> input_error + input_queue" where
  "policy q view middle =
     (let middleChanged = emulateMiddle (iq_status q) \<noteq> middle in
      ebind (if viewOnly (iq_status q) \<noteq> view \<or> middleChanged then reroute q else Inr q) (\<lambda>q.
      let q = q\<lparr>iq_status := (iq_status q)\<lparr>viewOnly := view, emulateMiddle := middle\<rparr>\<rparr> in
      Inr (if view \<or> middleChanged then release q else q)))"

definition overflow :: "input_queue \<Rightarrow> input_error + input_queue" where
  "overflow q =
     ebind (reroute q) (\<lambda>q.
     let q = release q in
     Inr (q\<lparr>iq_status := (iq_status q)\<lparr>focused := False, overflows := overflows (iq_status q) + 1\<rparr>\<rparr>))"

definition push :: "bool \<Rightarrow> input_queue \<Rightarrow> command \<Rightarrow> input_error + (input_result \<times> input_queue)" where
  "push alloc q cmd =
     (if length (iq_queue q) = capacity q \<or> \<not> alloc
      then ebind (overflow q) (\<lambda>q. Inr (Overflow, q))
      else Inr (Accepted, q\<lparr>iq_queue := iq_queue q @ [cmd]\<rparr>))"

definition key :: "bool \<Rightarrow> input_queue \<Rightarrow> u64 \<Rightarrow> u32 \<Rightarrow> u32 \<Rightarrow> u32 \<Rightarrow> bool \<Rightarrow>
    input_error + (input_result \<times> input_queue)" where
  "key alloc q gen kid symbol code pressed =
     (let result = check q gen in
      if result \<noteq> Accepted then Inr (result, q)
      else if pressed \<and> symbol = 0 \<and> code = 0 then Inr (Invalid, q)
      else push alloc q (default_command\<lparr>kind := Key, keyId := kid, keySym := symbol, keyCode := code,
             down := pressed\<rparr>))"

definition pointer :: "bool \<Rightarrow> input_queue \<Rightarrow> u64 \<Rightarrow> int \<Rightarrow> int \<Rightarrow> u16 \<Rightarrow>
    input_error + (input_result \<times> input_queue)" where
  "pointer alloc q gen x y btns =
     (let result = check q gen in
      if result \<noteq> Accepted then Inr (result, q)
      else if btns AND NOT 0x1ff \<noteq> 0 then Inr (Invalid, q)
      else
        let trans = (btns \<noteq> iq_buttons q);
            cmd = default_command\<lparr>kind := Pointer, cx := x, cy := y, buttons := btns, transition := trans\<rparr>
        in if \<not> trans \<and> iq_queue q \<noteq> [] \<and> kind (last (iq_queue q)) = Pointer \<and> \<not> transition (last (iq_queue q))
           then Inr (Coalesced, q\<lparr>iq_queue := butlast (iq_queue q) @ [cmd]\<rparr>)
           else ebind (push alloc q cmd) (\<lambda>(result, q).
                  Inr (result, if result = Accepted then q\<lparr>iq_buttons := btns\<rparr> else q)))"

definition setFocused :: "input_queue \<Rightarrow> u64 \<Rightarrow> bool \<Rightarrow> input_error + (input_result \<times> input_queue)" where
  "setFocused q gen f =
     (if gen \<noteq> generation (iq_status q) then Inr (StaleGeneration, q)
      else ebind (if focused (iq_status q) \<noteq> f then reroute q else Inr q) (\<lambda>q.
        let q = q\<lparr>iq_status := (iq_status q)\<lparr>focused := f\<rparr>\<rparr> in
        Inr (Accepted, if \<not> f then release q else q)))"

definition releaseAll :: "input_queue \<Rightarrow> u64 \<Rightarrow> input_error + (input_result \<times> input_queue)" where
  "releaseAll q gen =
     (if gen \<noteq> generation (iq_status q) then Inr (StaleGeneration, q)
      else if \<not> is_connected (iq_status q) then Inr (NotConnected, q)
      else ebind (reroute q) (\<lambda>q. Inr (Accepted, release q)))"

definition setViewOnly :: "input_queue \<Rightarrow> bool \<Rightarrow> input_error + input_queue" where
  "setViewOnly q enabled = policy q enabled (emulateMiddle (iq_status q))"

definition setPolicy :: "input_queue \<Rightarrow> bool \<Rightarrow> bool \<Rightarrow> input_error + input_queue" where
  "setPolicy q view middle = policy q view middle"

definition status :: "input_queue \<Rightarrow> input_status" where
  "status q = (iq_status q)\<lparr>queued := length (iq_queue q)\<rparr>"

definition begin_attempt :: "input_queue \<Rightarrow> u64 \<Rightarrow> input_queue" where
  "begin_attempt q gen = q\<lparr>iq_queue := [], iq_buttons := 0,
     iq_status := (iq_status q)\<lparr>generation := gen, is_connected := False, releasePending := False\<rparr>\<rparr>"

definition connected :: "input_queue \<Rightarrow> input_queue" where
  "connected q = q\<lparr>iq_status := (iq_status q)\<lparr>is_connected := True\<rparr>\<rparr>"

definition end_attempt :: "input_queue \<Rightarrow> u64 \<Rightarrow> input_queue" where
  "end_attempt q gen = begin_attempt q gen"

definition take_command :: "input_queue \<Rightarrow> command option \<times> input_queue" where
  "take_command q =
     (let stamp = (\<lambda>c. c\<lparr>cmd_routingRevision := routingRevision (iq_status q),
                         cmd_emulateMiddle := emulateMiddle (iq_status q)\<rparr>) in
      if \<not> is_connected (iq_status q) then (None, q)
      else if releasePending (iq_status q)
      then (Some (stamp default_command), q\<lparr>iq_status := (iq_status q)\<lparr>releasePending := False\<rparr>\<rparr>)
      else (case iq_queue q of
              [] \<Rightarrow> (None, q)
            | c # rest \<Rightarrow> (Some (stamp c), q\<lparr>iq_queue := rest\<rparr>)))"

subsection \<open>The mailbox as a transition system\<close>

datatype input_event =
    EvKey bool u64 u32 u32 u32 bool
  | EvPointer bool u64 int int u16
  | EvFocus u64 bool
  | EvReleaseAll u64
  | EvViewOnly bool
  | EvPolicy bool bool
  | EvBegin u64
  | EvConnected
  | EvEnd u64
  | EvTake
  | EvOverflow

definition keep :: "input_queue \<Rightarrow> input_error + input_queue \<Rightarrow> input_queue" where
  "keep q r = (case r of Inl _ \<Rightarrow> q | Inr q' \<Rightarrow> q')"

definition keep_snd :: "input_queue \<Rightarrow> input_error + (input_result \<times> input_queue) \<Rightarrow> input_queue" where
  "keep_snd q r = (case r of Inl _ \<Rightarrow> q | Inr (_, q') \<Rightarrow> q')"

fun input_step :: "input_queue \<Rightarrow> input_event \<Rightarrow> input_queue" where
  "input_step q (EvKey alloc gen kid symbol code pressed) = keep_snd q (key alloc q gen kid symbol code pressed)"
| "input_step q (EvPointer alloc gen x y btns) = keep_snd q (pointer alloc q gen x y btns)"
| "input_step q (EvFocus gen f) = keep_snd q (setFocused q gen f)"
| "input_step q (EvReleaseAll gen) = keep_snd q (releaseAll q gen)"
| "input_step q (EvViewOnly v) = keep q (setViewOnly q v)"
| "input_step q (EvPolicy v m) = keep q (setPolicy q v m)"
| "input_step q (EvBegin gen) = begin_attempt q gen"
| "input_step q EvConnected = connected q"
| "input_step q (EvEnd gen) = end_attempt q gen"
| "input_step q EvTake = snd (take_command q)"
| "input_step q EvOverflow = keep q (overflow q)"

subsection \<open>Invariant\<close>

text \<open>
  The queue stays within its capacity; a mailbox that does not route input (not
  connected, view-only or unfocused) holds none; a release is only pending while
  connected; and the buttons remembered for the next transition are those of the last
  pointer command still queued.
\<close>

definition pointer_cmds :: "command list \<Rightarrow> command list" where
  "pointer_cmds cs = filter (\<lambda>c. kind c = Pointer) cs"

definition input_inv :: "input_queue \<Rightarrow> bool" where
  "input_inv q \<longleftrightarrow>
     0 < capacity q \<and> length (iq_queue q) \<le> capacity q \<and>
     (\<not> is_connected (iq_status q) \<or> viewOnly (iq_status q) \<or> \<not> focused (iq_status q) \<longrightarrow> iq_queue q = []) \<and>
     (releasePending (iq_status q) \<longrightarrow> is_connected (iq_status q)) \<and>
     (pointer_cmds (iq_queue q) \<noteq> [] \<longrightarrow> buttons (last (pointer_cmds (iq_queue q))) = iq_buttons q) \<and>
     iq_buttons q AND NOT 0x1ff = 0 \<and>
     (\<forall>c\<in>set (iq_queue q). kind c \<noteq> ReleaseAll \<and> buttons c AND NOT 0x1ff = 0)"

lemmas input_defs = check_def release_def reroute_def policy_def overflow_def push_def key_def
  pointer_def setFocused_def releaseAll_def setViewOnly_def setPolicy_def begin_attempt_def
  connected_def end_attempt_def take_command_def keep_def keep_snd_def default_command_def

lemma new_queue_inv: "new_queue cap = Inr q \<Longrightarrow> input_inv q"
  by (auto simp: new_queue_def input_inv_def pointer_cmds_def default_status_def split: if_splits)


text \<open>Operations that only empty the mailbox or move its status keep the invariant.\<close>

definition quiet :: "input_queue \<Rightarrow> input_queue \<Rightarrow> bool" where
  "quiet q q' \<longleftrightarrow> capacity q' = capacity q \<and> iq_queue q' = [] \<and> iq_buttons q' = 0 \<and>
     (releasePending (iq_status q') \<longrightarrow> is_connected (iq_status q'))"

lemma quiet_inv: "input_inv q \<Longrightarrow> quiet q q' \<Longrightarrow> input_inv q'"
  by (simp add: input_inv_def quiet_def pointer_cmds_def)

lemma release_quiet: "quiet q (release q)"
  by (simp add: quiet_def release_def)

lemma reroute_props:
  assumes "reroute q = Inr q'"
  shows "capacity q' = capacity q" "iq_queue q' = iq_queue q" "iq_buttons q' = iq_buttons q"
    "unat (routingRevision (iq_status q')) = unat (routingRevision (iq_status q)) + 1"
    "iq_status q' = (iq_status q)\<lparr>routingRevision := routingRevision (iq_status q')\<rparr>"
proof -
  from assms have r: "routingRevision (iq_status q) \<noteq> - 1"
    and q': "q' = q\<lparr>iq_status := (iq_status q)\<lparr>routingRevision := routingRevision (iq_status q) + 1\<rparr>\<rparr>"
    by (auto simp: reroute_def split: if_splits)
  show "capacity q' = capacity q" "iq_queue q' = iq_queue q" "iq_buttons q' = iq_buttons q"
    "iq_status q' = (iq_status q)\<lparr>routingRevision := routingRevision (iq_status q')\<rparr>"
    by (simp_all add: q')
  have "1 + routingRevision (iq_status q) \<noteq> 0" using r by (metis add.inverse_unique)
  then show "unat (routingRevision (iq_status q')) = unat (routingRevision (iq_status q)) + 1"
    using unatSuc [of "routingRevision (iq_status q)"] by (simp add: q' add.commute)
qed

lemma reroute_inv: "input_inv q \<Longrightarrow> reroute q = Inr q' \<Longrightarrow> input_inv q'"
  by (auto simp: input_inv_def reroute_def split: if_splits)

lemma overflow_inv: "input_inv q \<Longrightarrow> overflow q = Inr q' \<Longrightarrow> input_inv q'"
  by (rule quiet_inv) (auto simp: overflow_def quiet_def release_def ebind_eq_Inr dest: reroute_props)

lemma policy_inv: "input_inv q \<Longrightarrow> policy q v m = Inr q' \<Longrightarrow> input_inv q'"
proof -
  assume inv: "input_inv q" and r: "policy q v m = Inr q'"
  show "input_inv q'"
  proof (cases "v \<or> emulateMiddle (iq_status q) \<noteq> m")
    case True
    then have "quiet q q'" using r
      by (auto simp: policy_def quiet_def release_def Let_def ebind_eq_Inr dest: reroute_props split: if_splits)
    then show ?thesis by (rule quiet_inv [OF inv])
  next
    case False
    with inv r show ?thesis
      by (auto simp: policy_def Let_def ebind_eq_Inr reroute_def input_inv_def split: if_splits)
  qed
qed

lemma setFocused_inv: "input_inv q \<Longrightarrow> setFocused q g f = Inr (r, q') \<Longrightarrow> input_inv q'"
proof -
  assume inv: "input_inv q" and r: "setFocused q g f = Inr (r, q')"
  show "input_inv q'"
  proof (cases "f \<or> g \<noteq> generation (iq_status q)")
    case True
    with inv r show ?thesis
      by (auto simp: setFocused_def Let_def ebind_eq_Inr reroute_def input_inv_def split: if_splits)
  next
    case False
    then have "quiet q q'" using r
      by (auto simp: setFocused_def quiet_def release_def Let_def ebind_eq_Inr dest: reroute_props split: if_splits)
    then show ?thesis by (rule quiet_inv [OF inv])
  qed
qed

lemma releaseAll_inv: "input_inv q \<Longrightarrow> releaseAll q g = Inr (r, q') \<Longrightarrow> input_inv q'"
  by (auto simp: releaseAll_def ebind_eq_Inr split: if_splits
      intro: quiet_inv [OF _ release_quiet] reroute_inv)

lemma begin_attempt_inv: "input_inv q \<Longrightarrow> input_inv (begin_attempt q g)"
  by (rule quiet_inv) (auto simp: quiet_def begin_attempt_def)

lemma connected_inv: "input_inv q \<Longrightarrow> input_inv (connected q)"
  by (auto simp: input_inv_def connected_def)

lemma check_Accepted:
  "check q g = Accepted \<longleftrightarrow> g = generation (iq_status q) \<and> is_connected (iq_status q) \<and>
     \<not> viewOnly (iq_status q) \<and> focused (iq_status q)"
  by (simp add: check_def)

lemma push_cases:
  assumes "push alloc q c = Inr (r, q')"
  obtains (accepted) "r = Accepted" "q' = q\<lparr>iq_queue := iq_queue q @ [c]\<rparr>" "length (iq_queue q) \<noteq> capacity q"
  | (overflowed) "r = Overflow" "overflow q = Inr q'"
  using assms by (auto simp: push_def ebind_eq_Inr split: if_splits)

lemma push_inv:
  assumes "input_inv q" "check q g = Accepted" "push alloc q c = Inr (r, q')"
    and "kind c = Key" "buttons c = 0"
  shows "input_inv q'"
  using assms(3)
proof (cases rule: push_cases)
  case accepted
  with assms show ?thesis by (auto simp: input_inv_def check_Accepted pointer_cmds_def)
next
  case overflowed
  with assms(1) show ?thesis by (auto intro: overflow_inv)
qed

lemma key_cases:
  assumes "key alloc q g i s k d = Inr (r, q')"
  obtains (refused) "q' = q"
  | (pushed) "check q g = Accepted"
      "push alloc q (default_command\<lparr>kind := Key, keyId := i, keySym := s, keyCode := k, down := d\<rparr>) = Inr (r, q')"
  using assms by (auto simp: key_def Let_def split: if_splits)

lemma key_inv: "input_inv q \<Longrightarrow> key alloc q g i s k d = Inr (r, q') \<Longrightarrow> input_inv q'"
  by (erule key_cases) (auto elim: push_inv simp: default_command_def)

text \<open>The four outcomes of \<open>pointer\<close>: refused, coalesced, queued, overflowed.\<close>

abbreviation pointer_cmd :: "input_queue \<Rightarrow> int \<Rightarrow> int \<Rightarrow> u16 \<Rightarrow> command" where
  "pointer_cmd q x y b \<equiv>
     default_command\<lparr>kind := Pointer, cx := x, cy := y, buttons := b, transition := b \<noteq> iq_buttons q\<rparr>"

abbreviation can_coalesce :: "input_queue \<Rightarrow> u16 \<Rightarrow> bool" where
  "can_coalesce q b \<equiv> b = iq_buttons q \<and> iq_queue q \<noteq> [] \<and> kind (last (iq_queue q)) = Pointer \<and>
     \<not> transition (last (iq_queue q))"

lemma pointer_cases:
  assumes "pointer alloc q g x y b = Inr (r, q')"
  obtains (refused) "q' = q" "r \<noteq> Accepted" "r \<noteq> Coalesced" "r \<noteq> Overflow"
    | (coalesced) "r = Coalesced" "check q g = Accepted" "b AND NOT 0x1ff = 0" "can_coalesce q b"
        "q' = q\<lparr>iq_queue := butlast (iq_queue q) @ [pointer_cmd q x y b]\<rparr>"
    | (queued) "r = Accepted" "check q g = Accepted" "b AND NOT 0x1ff = 0" "\<not> can_coalesce q b"
        "length (iq_queue q) \<noteq> capacity q"
        "q' = q\<lparr>iq_queue := iq_queue q @ [pointer_cmd q x y b], iq_buttons := b\<rparr>"
    | (overflowed) "r = Overflow" "overflow q = Inr q'"
proof (cases "check q g = Accepted \<and> b AND NOT 0x1ff = 0")
  case False
  with assms have "q' = q \<and> (r = check q g \<and> r \<noteq> Accepted \<or> r = Invalid)"
    by (auto simp: pointer_def Let_def split: if_splits)
  then show ?thesis by (intro refused) (auto simp: check_def split: if_splits)
next
  case ok: True
  show ?thesis
  proof (cases "can_coalesce q b")
    case True
    with ok assms show ?thesis by (intro coalesced) (simp_all add: pointer_def Let_def)
  next
    case False
    with ok assms obtain r1 q1 where p: "push alloc q (pointer_cmd q x y b) = Inr (r1, q1)"
      and r: "r = r1" "q' = (if r1 = Accepted then q1\<lparr>iq_buttons := b\<rparr> else q1)"
      unfolding pointer_def Let_def by (simp add: ebind_eq_Inr) blast
    from p show ?thesis
    proof (cases rule: push_cases)
      case accepted
      with ok False r show ?thesis by (intro queued) simp_all
    next
      case ov: overflowed
      with r show ?thesis by (intro overflowed) simp_all
    qed
  qed
qed

lemma pointer_inv:
  assumes "input_inv q" "pointer alloc q g x y b = Inr (r, q')"
  shows "input_inv q'"
  using assms(2)
proof (cases rule: pointer_cases)
  case refused
  with assms(1) show ?thesis by simp
next
  case coalesced
  obtain xs l where q: "iq_queue q = xs @ [l]"
    using coalesced(4) by (metis append_butlast_last_id)
  with coalesced assms(1) show ?thesis
    by (simp add: input_inv_def check_Accepted pointer_cmds_def default_command_def)
next
  case queued
  with assms(1) show ?thesis
    by (simp add: input_inv_def check_Accepted pointer_cmds_def default_command_def)
next
  case overflowed
  with assms(1) show ?thesis by (auto intro: overflow_inv)
qed

lemma take_command_inv: "input_inv q \<Longrightarrow> input_inv (snd (take_command q))"
  by (auto simp: take_command_def Let_def input_inv_def pointer_cmds_def split: list.splits if_splits)

lemma input_step_inv: "input_inv q \<Longrightarrow> input_inv (input_step q e)"
  by (cases e) (auto simp: keep_def keep_snd_def setViewOnly_def setPolicy_def end_attempt_def
      split: sum.splits intro: key_inv pointer_inv setFocused_inv releaseAll_inv policy_inv overflow_inv
        begin_attempt_inv connected_inv take_command_inv)


subsection \<open>The routing revision as a clock\<close>

abbreviation revision_clock :: "input_queue \<Rightarrow> nat" where
  "revision_clock q \<equiv> unat (routingRevision (iq_status q))"

lemma release_clock [simp]: "revision_clock (release q) = revision_clock q"
  by (simp add: release_def)

lemma overflow_clock: "overflow q = Inr q' \<Longrightarrow> revision_clock q < revision_clock q'"
  by (auto simp: overflow_def Let_def ebind_eq_Inr dest: reroute_props(4))

lemma policy_clock: "policy q v m = Inr q' \<Longrightarrow> revision_clock q \<le> revision_clock q'"
  by (auto simp: policy_def Let_def ebind_eq_Inr dest: reroute_props(4) split: if_splits)

lemma setFocused_clock:
  assumes "setFocused q g f = Inr (r, q')"
  shows "revision_clock q \<le> revision_clock q'"
proof (cases "g = generation (iq_status q)")
  case True
  let ?set = "\<lambda>q1. q1\<lparr>iq_status := (iq_status q1)\<lparr>focused := f\<rparr>\<rparr>"
  from True assms have "ebind (if focused (iq_status q) \<noteq> f then reroute q else Inr q)
      (\<lambda>q1. Inr (Accepted, if \<not> f then release (?set q1) else ?set q1)) = Inr (r, q')"
    by (simp add: setFocused_def Let_def)
  then obtain q1 where q1: "(if focused (iq_status q) \<noteq> f then reroute q else Inr q) = Inr q1"
    and "q' = (if \<not> f then release (?set q1) else ?set q1)"
    unfolding ebind_eq_Inr by blast
  then have "revision_clock q' = revision_clock q1" by simp
  moreover have "revision_clock q \<le> revision_clock q1"
    using q1 by (cases "focused (iq_status q) = f") (auto dest: reroute_props(4))
  ultimately show ?thesis by simp
next
  case False
  with assms show ?thesis by (simp add: setFocused_def)
qed

lemma releaseAll_clock: "releaseAll q g = Inr (r, q') \<Longrightarrow> revision_clock q \<le> revision_clock q'"
  by (auto simp: releaseAll_def Let_def ebind_eq_Inr dest: reroute_props(4) split: if_splits)

lemma push_clock: "push alloc q c = Inr (r, q') \<Longrightarrow> revision_clock q \<le> revision_clock q'"
  by (erule push_cases) (auto dest: overflow_clock)

lemma key_clock: "key alloc q g i s k d = Inr (r, q') \<Longrightarrow> revision_clock q \<le> revision_clock q'"
  by (erule key_cases) (auto dest: push_clock)

lemma pointer_clock: "pointer alloc q g x y b = Inr (r, q') \<Longrightarrow> revision_clock q \<le> revision_clock q'"
  by (erule pointer_cases) (auto dest: overflow_clock)

lemma take_command_clock: "revision_clock (snd (take_command q)) = revision_clock q"
  by (simp add: take_command_def Let_def split: list.splits)

lemma input_step_clock: "revision_clock q \<le> revision_clock (input_step q e)"
  by (cases e) (auto simp: keep_def keep_snd_def setViewOnly_def setPolicy_def end_attempt_def
      begin_attempt_def connected_def take_command_clock split: sum.splits
      dest: key_clock pointer_clock setFocused_clock releaseAll_clock policy_clock overflow_clock)

interpretation input: monotone_system input_step input_inv revision_clock
  by unfold_locales (auto intro: input_step_inv input_step_clock)

subsection \<open>Properties\<close>

text \<open>
  C1: Whatever sequence of calls is made on a fresh mailbox, it never holds more than its
  capacity, holds nothing while it is disconnected, view-only or unfocused, and a release
  is pending only while connected.
\<close>

theorem input_queue_bounded:
  assumes "new_queue cap = Inr q0"
  shows "let q = run input_step q0 es in
    length (iq_queue q) \<le> cap \<and> cap \<le> 65536 \<and>
    (\<not> is_connected (iq_status q) \<or> viewOnly (iq_status q) \<or> \<not> focused (iq_status q) \<longrightarrow> iq_queue q = []) \<and>
    (releasePending (iq_status q) \<longrightarrow> is_connected (iq_status q))"
proof -
  have cap_step: "capacity (input_step q e) = capacity q" for q e
    by (cases e) (auto simp: input_defs Let_def ebind_split split: sum.splits if_splits list.splits)
  have cap: "capacity (run input_step q es) = capacity q" for q
    by (induction es arbitrary: q) (auto simp: cap_step)
  have "input_inv (run input_step q0 es)"
    by (rule input.run_inv) (rule new_queue_inv [OF assms])
  moreover have "capacity q0 = cap" "cap \<le> 65536"
    using assms by (auto simp: new_queue_def split: if_splits)
  ultimately show ?thesis by (simp add: input_inv_def cap Let_def)
qed

theorem input_queue_bounded_witness:
  "\<exists>q0. new_queue 1 = Inr q0 \<and>
     length (iq_queue (run input_step q0 [EvConnected, EvKey True 1 7 65 0 True, EvKey True 1 8 66 0 True])) \<le> 1"
proof -
  obtain q0 where q0: "new_queue 1 = Inr q0" by (simp add: new_queue_def)
  show ?thesis
    using q0 input_queue_bounded [OF q0, of "[EvConnected, EvKey True 1 7 65 0 True, EvKey True 1 8 66 0 True]"]
    unfolding Let_def by blast
qed

text \<open>
  The commands whose order and position matter to the server: keys, and pointer commands
  that press or release a button.
\<close>

definition ordered :: "command list \<Rightarrow> command list" where
  "ordered cs = filter (\<lambda>c. kind c \<noteq> Pointer \<or> transition c) cs"

text \<open>
  C2: Coalescing pointer motion loses nothing that matters: whenever \<open>pointer\<close> takes the
  event in, the keys and button transitions already queued keep their order and
  coordinates, the event itself is the last command of the queue with its coordinates, and
  it is merged into a predecessor only if neither changes a button.
\<close>

theorem pointer_keeps_order:
  assumes "pointer alloc q g x y b = Inr (r, q')" and "r = Accepted \<or> r = Coalesced"
  shows "ordered (iq_queue q') = ordered (iq_queue q) @ (if b = iq_buttons q then [] else [pointer_cmd q x y b]) \<and>
    last (iq_queue q') = pointer_cmd q x y b \<and> iq_buttons q' = b \<and>
    length (iq_queue q') = (if r = Accepted then Suc (length (iq_queue q)) else length (iq_queue q))"
  using assms(1)
proof (cases rule: pointer_cases)
  case refused
  with assms(2) show ?thesis by auto
next
  case coalesced
  then obtain xs l where q: "iq_queue q = xs @ [l]" by (metis append_butlast_last_id)
  with coalesced show ?thesis by (simp add: ordered_def default_command_def)
next
  case queued
  then show ?thesis by (simp add: ordered_def default_command_def)
next
  case overflowed
  with assms(2) show ?thesis by auto
qed

theorem pointer_keeps_order_witness:
  "\<exists>q0 q'. new_queue 4 = Inr q0 \<and> pointer True (connected q0) 1 3 4 1 = Inr (Accepted, q') \<and>
     map buttons (ordered (iq_queue q')) = [1]"
proof -
  obtain q0 where q0: "new_queue 4 = Inr q0"
    "q0 = \<lparr>capacity = 4, iq_status = default_status, iq_buttons = 0, iq_queue = []\<rparr>"
    by (simp add: new_queue_def)
  obtain q' where q': "pointer True (connected q0) 1 3 4 1 = Inr (Accepted, q')"
    by (simp add: q0(2) pointer_def push_def check_def connected_def default_status_def Let_def)
  have o: "ordered (iq_queue q') = [pointer_cmd (connected q0) 3 4 1]"
    using pointer_keeps_order [OF q'] by (simp add: q0(2) connected_def ordered_def)
  show ?thesis
  proof (intro exI conjI)
    show "new_queue 4 = Inr q0" by (rule q0(1))
    show "pointer True (connected q0) 1 3 4 1 = Inr (Accepted, q')" by (rule q')
    show "map buttons (ordered (iq_queue q')) = [1]" unfolding o by (simp add: default_command_def)
  qed
qed



text \<open>
  C8: Once the routing revision has moved past the one a route was issued under, no later
  sequence of calls brings it back: the stale route never becomes current again.
\<close>

theorem routing_revision_never_returns:
  assumes "input_inv q" and "stale < routingRevision (iq_status q)"
  shows "routingRevision (iq_status (run input_step q es)) \<noteq> stale"
  using input.run_clock [OF assms(1), of es] assms(2) by (auto simp: word_less_nat_alt)

theorem routing_revision_never_returns_witness:
  "\<exists>q0. new_queue 2 = Inr q0 \<and>
     routingRevision (iq_status (run input_step (input_step q0 (EvFocus 1 False)) [EvFocus 1 True, EvBegin 2])) \<noteq> 1"
proof -
  obtain q0 where q0: "new_queue 2 = Inr q0"
    "q0 = \<lparr>capacity = 2, iq_status = default_status, iq_buttons = 0, iq_queue = []\<rparr>"
    by (simp add: new_queue_def)
  let ?q = "input_step q0 (EvFocus 1 False)"
  have "input_inv ?q" by (rule input_step_inv) (rule new_queue_inv [OF q0(1)])
  moreover have "1 < routingRevision (iq_status ?q)"
    by (simp add: q0(2) keep_snd_def setFocused_def reroute_def release_def default_status_def Let_def)
  ultimately show ?thesis
    using routing_revision_never_returns [of ?q 1 "[EvFocus 1 True, EvBegin 2]"] q0(1) by blast
qed

end
