(* ===== verification/Clipboard_Channel.thy ===== *)
theory Clipboard_Channel
  imports Core_String Input_Queue
begin

text \<open>
  The clipboard mailbox of a session, \<open>viewer/core/ClipboardChannel.cxx\<close>. Text leases
  are shared objects: \<open>ch_live\<close> holds the objects that exist, \<open>ch_held\<close> the references
  owned outside the channel, \<open>latest.text\<close> the reference owned by the mailbox, and an object
  is destroyed, giving its bytes back to the budget, when its last reference goes.
  \<open>InputQueue::status\<close> is read without the channel's mutex, so each reading is an argument
  of its own: the operations that read it twice may see two different states.
\<close>

subsection \<open>State\<close>

record clip_policy =
  send :: bool
  receive_allowed :: bool

record clip_route =
  rt_generation :: u64
  rt_focus :: u64
  rt_policy :: u64

definition no_route :: clip_route where
  "no_route = \<lparr>rt_generation = 0, rt_focus = 0, rt_policy = 0\<rparr>"

datatype clip_result = ClAccepted | ClStale | ClNotConnected | ClUnfocused | ClViewOnly | ClDisabled
  | ClEcho | ClTooLarge | ClInvalidText | ClBackpressure

datatype clip_error = InvalidClipboardLimits | SequenceExhausted | PolicyRevisionExhausted
  | BadAlloc | OverRead

record clip_text =
  text_value :: "byte list"
  remote :: bool
  routing :: clip_route
  budget :: nat

datatype clip_kind = Offered | Text | Unavailable | Invalidated | Rejected

record clip_update =
  up_sequence :: u64
  up_route :: clip_route
  up_kind :: clip_kind
  up_result :: clip_result
  up_text :: "nat option"

record clip_channel =
  ch_limit :: nat
  ch_budget :: nat
  maximum :: nat
  used :: nat
  ch_live :: "(nat \<times> clip_text) list"
  ch_held :: "nat list"
  ch_next :: nat
  ch_policy :: clip_policy
  revision :: u64
  sequence :: u64
  changed :: bool
  latest :: clip_update

definition new_channel :: "nat \<Rightarrow> nat \<Rightarrow> nat \<Rightarrow> clip_policy \<Rightarrow> clip_error + clip_channel" where
  "new_channel bid lim retained pol =
     (if lim = 0 \<or> lim > 16 * 1024 * 1024 \<or> retained < lim \<or> retained > 64 * 1024 * 1024
      then Inl InvalidClipboardLimits
      else Inr \<lparr>ch_limit = lim, ch_budget = bid, maximum = retained, used = 0, ch_live = [], ch_held = [],
             ch_next = 0, ch_policy = pol, revision = 1, sequence = 0, changed = False,
             latest = \<lparr>up_sequence = 0, up_route = no_route, up_kind = Invalidated,
                       up_result = ClAccepted, up_text = None\<rparr>\<rparr>)"

subsection \<open>Leases\<close>

definition use_count :: "clip_channel \<Rightarrow> nat \<Rightarrow> nat" where
  "use_count c i = count_list (ch_held c) i + (if up_text (latest c) = Some i then 1 else 0)"

text \<open>\<open>~ClipboardText\<close>, run by the last \<open>shared_ptr\<close> that lets go.\<close>

definition destroy :: "clip_channel \<Rightarrow> nat \<Rightarrow> clip_channel" where
  "destroy c i = (case map_of (ch_live c) i of
       None \<Rightarrow> c
     | Some t \<Rightarrow> c\<lparr>ch_live := filter (\<lambda>p. fst p \<noteq> i) (ch_live c), used := size_sub (used c) (length (text_value t))\<rparr>)"

definition unref :: "clip_channel \<Rightarrow> nat \<Rightarrow> clip_channel" where
  "unref c i = (if use_count c i = 0 then destroy c i else c)"

definition set_latest_text :: "clip_channel \<Rightarrow> nat option \<Rightarrow> clip_channel" where
  "set_latest_text c t =
     (let old = up_text (latest c); c = c\<lparr>latest := (latest c)\<lparr>up_text := t\<rparr>\<rparr>
      in case old of None \<Rightarrow> c | Some i \<Rightarrow> unref c i)"

definition hold :: "clip_channel \<Rightarrow> nat \<Rightarrow> clip_channel" where
  "hold c i = c\<lparr>ch_held := i # ch_held c\<rparr>"

definition let_go :: "clip_channel \<Rightarrow> nat \<Rightarrow> clip_channel" where
  "let_go c i = (if i \<in> set (ch_held c) then unref (c\<lparr>ch_held := remove1 i (ch_held c)\<rparr>) i else c)"

text \<open>A reference moved from a caller into the mailbox.\<close>

definition move_to_latest :: "clip_channel \<Rightarrow> nat option \<Rightarrow> clip_channel" where
  "move_to_latest c t =
     (let c = set_latest_text c t in case t of None \<Rightarrow> c | Some i \<Rightarrow> let_go c i)"

subsection \<open>Operations\<close>

definition publish :: "clip_channel \<Rightarrow> clip_kind \<Rightarrow> clip_route \<Rightarrow> clip_result \<Rightarrow> nat option \<Rightarrow>
    clip_error option \<times> clip_channel" where
  "publish c k r res t =
     (if sequence c = - 1
      then (Some SequenceExhausted, case t of None \<Rightarrow> c | Some i \<Rightarrow> let_go c i)
      else (None,
        let c = c\<lparr>sequence := sequence c + 1\<rparr>;
            c = c\<lparr>latest := (latest c)\<lparr>up_sequence := sequence c, up_kind := k, up_route := r, up_result := res\<rparr>\<rparr>;
            c = move_to_latest c t
        in c\<lparr>changed := True\<rparr>))"

definition set_policy :: "clip_channel \<Rightarrow> clip_policy \<Rightarrow> clip_error option \<times> clip_channel" where
  "set_policy c p =
     (if send p = send (ch_policy c) \<and> receive_allowed p = receive_allowed (ch_policy c) then (None, c)
      else if revision c = - 1 then (Some PolicyRevisionExhausted, c)
      else publish (c\<lparr>ch_policy := p, revision := revision c + 1\<rparr>) Invalidated no_route ClStale None)"

definition route :: "clip_channel \<Rightarrow> input_status \<Rightarrow> clip_route" where
  "route c st = \<lparr>rt_generation = generation st, rt_focus = routingRevision st, rt_policy = revision c\<rparr>"

definition check_route :: "clip_channel \<Rightarrow> input_status \<Rightarrow> clip_route \<Rightarrow> bool \<Rightarrow> clip_result" where
  "check_route c st r sending =
     (if rt_generation r \<noteq> generation st \<or> rt_focus r \<noteq> routingRevision st \<or> rt_policy r \<noteq> revision c then ClStale
      else if \<not> is_connected st then ClNotConnected
      else if viewOnly st then ClViewOnly
      else if \<not> focused st then ClUnfocused
      else if \<not> (if sending then send (ch_policy c) else receive_allowed (ch_policy c)) then ClDisabled
      else ClAccepted)"

text \<open>
  \<open>std::string::data\<close> ends in a zero byte at \<open>size()\<close>, which the scanning functions may
  read. \<open>alloc\<close> is whether \<open>new ClipboardText\<close> finds memory.
\<close>

definition prepare :: "bool \<Rightarrow> clip_channel \<Rightarrow> byte list \<Rightarrow> bool \<Rightarrow> clip_route \<Rightarrow>
    (clip_error + (clip_result \<times> nat option)) \<times> clip_channel" where
  "prepare alloc c t rem r =
     (if length t > ch_limit c then (Inr (ClTooLarge, None), c)
      else if 0 \<in> set t then (Inr (ClInvalidText, None), c)
      else case isValidUTF8 (t @ [0]) (length t) of
        None \<Rightarrow> (Inl OverRead, c)
      | Some valid \<Rightarrow>
        if \<not> valid then (Inr (ClInvalidText, None), c)
        else case convertLF (t @ [0]) (length t) of
          None \<Rightarrow> (Inl OverRead, c)
        | Some normalized \<Rightarrow>
          if length normalized > size_sub (maximum c) (used c) then (Inr (ClBackpressure, None), c)
          else if \<not> alloc then (Inl BadAlloc, c)
          else let i = ch_next c;
                   t = \<lparr>text_value = normalized, remote = rem, routing = r, budget = ch_budget c\<rparr>
               in (Inr (ClAccepted, Some i),
                   c\<lparr>used := used c + length normalized, ch_next := i + 1,
                     ch_live := (i, t) # ch_live c, ch_held := i # ch_held c\<rparr>))"

definition checkLocal :: "clip_channel \<Rightarrow> input_status \<Rightarrow> clip_text option \<Rightarrow> clip_result" where
  "checkLocal c st text = (case text of
       None \<Rightarrow> ClStale
     | Some t \<Rightarrow> if budget t \<noteq> ch_budget c then ClStale
                else if remote t then ClEcho
                else check_route c st (routing t) True)"

definition prepareLocal :: "bool \<Rightarrow> clip_channel \<Rightarrow> input_status \<Rightarrow> input_status \<Rightarrow> u64 \<Rightarrow> byte list \<Rightarrow>
    clip_text option \<Rightarrow> (clip_error + (clip_result \<times> nat option)) \<times> clip_channel" where
  "prepareLocal alloc c st1 st2 gen t origin =
     (let r = route c st1 in
      if gen \<noteq> rt_generation r then (Inr (ClStale, None), c)
      else let allowed = check_route c st2 r True in
      if allowed \<noteq> ClAccepted then (Inr (allowed, None), c)
      else if (case origin of None \<Rightarrow> False | Some o' \<Rightarrow> remote o') then (Inr (ClEcho, None), c)
      else prepare alloc c t False r)"

definition offerRemote :: "clip_channel \<Rightarrow> input_status \<Rightarrow> input_status \<Rightarrow> bool \<Rightarrow>
    clip_error option \<times> clip_channel" where
  "offerRemote c st1 st2 available =
     (let r = route c st1 in
      if check_route c st2 r False \<noteq> ClAccepted then (None, c)
      else publish c (if available then Offered else Unavailable) r ClAccepted None)"

definition strnlen :: "byte list \<Rightarrow> nat \<Rightarrow> nat" where
  "strnlen t n = length (takeWhile (\<lambda>b. b \<noteq> 0) (take n t))"

definition receive :: "bool \<Rightarrow> clip_channel \<Rightarrow> input_status \<Rightarrow> input_status \<Rightarrow> byte list \<Rightarrow> clip_route \<Rightarrow>
    clip_error option \<times> clip_channel" where
  "receive alloc c st1 st2 t expected =
     (if check_route c st1 expected False \<noteq> ClAccepted then (None, c)
      else
        let c = set_latest_text c None;
            len = strnlen t (ch_limit c + 1)
        in case (if len \<le> ch_limit c then prepare alloc c (take len t) True expected
                 else (Inr (ClTooLarge, None), c)) of
             (Inl e, c) \<Rightarrow> (Some e, c)
           | (Inr (res, lease), c) \<Rightarrow>
               if check_route c st2 expected False \<noteq> ClAccepted
               then (None, case lease of None \<Rightarrow> c | Some i \<Rightarrow> let_go c i)
               else publish c (if res = ClAccepted then Text else Rejected) expected res lease)"

definition invalidate :: "clip_channel \<Rightarrow> clip_error option \<times> clip_channel" where
  "invalidate c = publish c Invalidated no_route ClStale None"

text \<open>The branch of \<open>take\<close> for an update whose route is no longer the current one.\<close>

definition stale_update :: "clip_channel \<Rightarrow> clip_result \<Rightarrow> clip_route \<Rightarrow> bool" where
  "stale_update c allowed r \<longleftrightarrow> allowed \<noteq> ClAccepted \<or>
     rt_generation (up_route (latest c)) \<noteq> rt_generation r \<or>
     rt_focus (up_route (latest c)) \<noteq> rt_focus r \<or> rt_policy (up_route (latest c)) \<noteq> rt_policy r"

definition discard_update :: "clip_channel \<Rightarrow> clip_channel" where
  "discard_update c =
     (let c = set_latest_text (c\<lparr>latest := (latest c)\<lparr>up_kind := Invalidated\<rparr>\<rparr>) None
      in c\<lparr>latest := (latest c)\<lparr>up_result := ClStale\<rparr>\<rparr>)"

definition hand_over :: "clip_channel \<Rightarrow> clip_update \<times> clip_channel" where
  "hand_over c =
     (let update = latest c;
          c = (case up_text update of None \<Rightarrow> c | Some i \<Rightarrow> hold c i)
      in (update, set_latest_text c None))"

definition take_update :: "clip_channel \<Rightarrow> input_status \<Rightarrow> input_status \<Rightarrow> clip_update option \<times> clip_channel" where
  "take_update c st1 st2 =
     (let r = route c st1; allowed = check_route c st2 r False in
      if \<not> changed c then (None, c)
      else
        let c = c\<lparr>changed := False\<rparr>;
            c = (if stale_update c allowed r then discard_update c else c)
        in map_prod Some (\<lambda>c. c) (hand_over c))"

definition bytesInUse :: "clip_channel \<Rightarrow> nat" where
  "bytesInUse c = used c"

subsection \<open>The channel as a transition system\<close>

text \<open>Besides the methods, the owners of leases copy and drop them.\<close>

datatype clip_event =
    ClSetPolicy clip_policy
  | ClPrepareLocal bool input_status input_status u64 "byte list" "clip_text option"
  | ClOffer input_status input_status bool
  | ClReceive bool input_status input_status "byte list" clip_route
  | ClInvalidate
  | ClTake input_status input_status
  | ClCopy nat
  | ClDrop nat

fun clip_step :: "clip_channel \<Rightarrow> clip_event \<Rightarrow> clip_channel" where
  "clip_step c (ClSetPolicy p) = snd (set_policy c p)"
| "clip_step c (ClPrepareLocal alloc st1 st2 gen t origin) = snd (prepareLocal alloc c st1 st2 gen t origin)"
| "clip_step c (ClOffer st1 st2 available) = snd (offerRemote c st1 st2 available)"
| "clip_step c (ClReceive alloc st1 st2 t expected) = snd (receive alloc c st1 st2 t expected)"
| "clip_step c ClInvalidate = snd (invalidate c)"
| "clip_step c (ClTake st1 st2) = snd (take_update c st1 st2)"
| "clip_step c (ClCopy i) = (if i \<in> set (ch_held c) then hold c i else c)"
| "clip_step c (ClDrop i) = let_go c i"

subsection \<open>What the lease operations leave alone\<close>

definition same_config :: "clip_channel \<Rightarrow> clip_channel \<Rightarrow> bool" where
  "same_config c' c \<longleftrightarrow> ch_limit c' = ch_limit c \<and> maximum c' = maximum c \<and> ch_budget c' = ch_budget c \<and>
     ch_policy c' = ch_policy c \<and> revision c' = revision c"

named_theorems config_intros \<open>operations that keep limits, policy and revision\<close>

lemma same_config_refl [config_intros]: "same_config c c"
  by (simp add: same_config_def)

lemma same_config_trans: "same_config c2 c1 \<Longrightarrow> same_config c1 c0 \<Longrightarrow> same_config c2 c0"
  by (simp add: same_config_def)

lemma unref_config: "same_config (unref c i) c"
  by (simp add: same_config_def unref_def destroy_def split: option.split)

lemma set_latest_text_config [config_intros]: "same_config (set_latest_text c t) c"
  using unref_config [of "c\<lparr>latest := (latest c)\<lparr>up_text := t\<rparr>\<rparr>"]
  by (simp add: same_config_def set_latest_text_def Let_def split: option.split)

lemma let_go_config [config_intros]: "same_config (let_go c i) c"
  using unref_config [of "c\<lparr>ch_held := remove1 i (ch_held c)\<rparr>" i]
  by (simp add: same_config_def let_go_def)

lemma move_to_latest_config: "same_config (move_to_latest c t) c"
  by (auto simp: move_to_latest_def Let_def split: option.split intro: same_config_trans config_intros)

lemma publish_config [config_intros]: "same_config (snd (publish c k r res t)) c"
  using move_to_latest_config [of "c\<lparr>sequence := sequence c + 1,
    latest := (latest c)\<lparr>up_sequence := sequence c + 1, up_kind := k, up_route := r, up_result := res\<rparr>\<rparr>" t]
  by (simp add: publish_def Let_def same_config_def let_go_config [unfolded same_config_def] split: option.split)

lemma prepare_config [config_intros]: "same_config (snd (prepare alloc c t rem r)) c"
  by (simp add: prepare_def same_config_def Let_def split: option.split)

lemma check_route_config: "same_config c' c \<Longrightarrow> check_route c' st r sending = check_route c st r sending"
  by (simp add: check_route_def same_config_def)

lemma accepted_route: "check_route c st r sending = ClAccepted \<Longrightarrow> r = route c st"
  by (cases r) (simp add: check_route_def route_def split: if_splits)

subsection \<open>Invariant\<close>

text \<open>
  The budget is exactly the bytes of the objects that exist; references only name objects
  that exist; and, except for the objects in \<open>X\<close> whose last reference is just going,
  every object is referenced.
\<close>

definition live_bytes :: "(nat \<times> clip_text) list \<Rightarrow> nat" where
  "live_bytes l = sum_list (map (\<lambda>p. length (text_value (snd p))) l)"

definition lease_inv :: "nat set \<Rightarrow> clip_channel \<Rightarrow> bool" where
  "lease_inv X c \<longleftrightarrow>
     distinct (map fst (ch_live c)) \<and> (\<forall>i\<in>fst ` set (ch_live c). i < ch_next c) \<and>
     (\<forall>i. 0 < use_count c i \<longrightarrow> i \<in> fst ` set (ch_live c)) \<and>
     (\<forall>i\<in>fst ` set (ch_live c). i \<in> X \<or> 0 < use_count c i) \<and>
     used c = live_bytes (ch_live c) \<and> used c \<le> maximum c \<and>
     (\<forall>p\<in>set (ch_live c). length (text_value (snd p)) \<le> ch_limit c \<and>
        CR \<notin> set (text_value (snd p)) \<and> 0 \<notin> set (text_value (snd p)))"

abbreviation clip_inv :: "clip_channel \<Rightarrow> bool" where
  "clip_inv c \<equiv> lease_inv {} c"

lemma lease_inv_mono: "lease_inv X c \<Longrightarrow> X \<subseteq> Y \<Longrightarrow> lease_inv Y c"
  by (auto simp: lease_inv_def)

text \<open>The parts of the state the invariant reads.\<close>

lemma lease_inv_cong:
  assumes "ch_live c' = ch_live c" "ch_held c' = ch_held c" "ch_next c' = ch_next c" "used c' = used c"
    "maximum c' = maximum c" "ch_limit c' = ch_limit c" "up_text (latest c') = up_text (latest c)"
  shows "lease_inv X c' = lease_inv X c"
  using assms by (simp add: lease_inv_def use_count_def)

lemma live_bytes_remove:
  assumes "distinct (map fst l)" "map_of l i = Some t"
  shows "live_bytes l = live_bytes (filter (\<lambda>p. fst p \<noteq> i) l) + length (text_value t)"
  using assms
proof (induction l)
  case (Cons p l)
  show ?case
  proof (cases "fst p = i")
    case True
    then have "filter (\<lambda>p. fst p \<noteq> i) l = l"
      using Cons.prems(1) by (intro filter_True) (auto simp: image_iff)
    with True Cons.prems show ?thesis by (cases p) (simp add: live_bytes_def)
  next
    case False
    with Cons show ?thesis by (cases p) (simp add: live_bytes_def)
  qed
qed simp

lemma use_count_destroy [simp]: "use_count (destroy c i) j = use_count c j"
  by (simp add: destroy_def use_count_def split: option.splits)

lemma destroy_inv:
  assumes "lease_inv {i} c" "use_count c i = 0"
  shows "clip_inv (destroy c i)"
proof (cases "map_of (ch_live c) i")
  case None
  then have "i \<notin> fst ` set (ch_live c)" by (simp add: map_of_eq_None_iff)
  with assms(1) None show ?thesis by (auto simp: lease_inv_def destroy_def)
next
  case (Some t)
  have d: "distinct (map fst (ch_live c))" using assms(1) by (simp add: lease_inv_def)
  from live_bytes_remove [OF d Some] assms(1)
  have u: "used c = live_bytes (filter (\<lambda>p. fst p \<noteq> i) (ch_live c)) + length (text_value t)"
    by (simp add: lease_inv_def)
  let ?c = "destroy c i"
  have l: "ch_live ?c = filter (\<lambda>p. fst p \<noteq> i) (ch_live c)" "used ?c = live_bytes (ch_live ?c)"
    using u by (simp_all add: destroy_def Some)
  have s: "ch_next ?c = ch_next c" "maximum ?c = maximum c" "ch_limit ?c = ch_limit c"
    by (simp_all add: destroy_def Some)
  have f: "fst ` set (ch_live ?c) = fst ` set (ch_live c) - {i}" by (auto simp: l)
  have "distinct (map fst (ch_live ?c))" using d by (simp add: l distinct_map_filter)
  moreover have "used ?c \<le> maximum ?c" using assms(1) u by (simp add: l s lease_inv_def)
  moreover have "\<forall>j. 0 < use_count c j \<longrightarrow> j \<in> fst ` set (ch_live ?c)"
  proof (intro allI impI)
    fix j assume j: "0 < use_count c j"
    with assms show "j \<in> fst ` set (ch_live ?c)" unfolding f lease_inv_def by auto
  qed
  moreover have "\<forall>j\<in>fst ` set (ch_live ?c). j < ch_next ?c \<and> 0 < use_count c j"
    using assms(1) unfolding f s lease_inv_def by auto
  moreover have "\<forall>p\<in>set (ch_live ?c). length (text_value (snd p)) \<le> ch_limit ?c \<and>
      CR \<notin> set (text_value (snd p)) \<and> 0 \<notin> set (text_value (snd p))"
    using assms(1) unfolding s l(1) lease_inv_def by auto
  ultimately show ?thesis unfolding lease_inv_def using l(2) by simp
qed

lemma lease_inv_close: "lease_inv {i} c \<Longrightarrow> 0 < use_count c i \<Longrightarrow> clip_inv c"
  by (auto simp: lease_inv_def)

lemma unref_inv:
  assumes "lease_inv {i} c"
  shows "clip_inv (unref c i)"
proof (cases "use_count c i = 0")
  case True
  with assms show ?thesis by (simp add: unref_def destroy_inv)
next
  case False
  then have "clip_inv c" using assms by (auto intro: lease_inv_close)
  with False show ?thesis by (simp add: unref_def)
qed

lemma set_latest_text_inv:
  assumes "clip_inv c" "\<And>i. t = Some i \<Longrightarrow> i \<in> fst ` set (ch_live c)"
  shows "clip_inv (set_latest_text c t)"
proof -
  let ?c = "c\<lparr>latest := (latest c)\<lparr>up_text := t\<rparr>\<rparr>"
  have cnt: "use_count c j \<le> use_count ?c j + (if up_text (latest c) = Some j then 1 else 0)" for j
    by (simp add: use_count_def)
  have in_live: "0 < use_count ?c j \<Longrightarrow> j \<in> fst ` set (ch_live c)" for j
    using assms by (auto simp: use_count_def lease_inv_def split: if_splits)
  have "lease_inv (case up_text (latest c) of None \<Rightarrow> {} | Some i \<Rightarrow> {i}) ?c"
  proof -
    have "j \<in> (case up_text (latest c) of None \<Rightarrow> {} | Some i \<Rightarrow> {i}) \<or> 0 < use_count ?c j"
      if "j \<in> fst ` set (ch_live c)" for j
      using that assms(1) cnt [of j] by (auto simp: lease_inv_def split: option.splits if_splits)
    then show ?thesis using assms(1) in_live by (simp add: lease_inv_def)
  qed
  then show ?thesis
    by (cases "up_text (latest c)") (auto simp: set_latest_text_def intro: unref_inv)
qed

lemma let_go_inv: assumes "clip_inv c" shows "clip_inv (let_go c i)"
proof (cases "i \<in> set (ch_held c)")
  case True
  let ?c = "c\<lparr>ch_held := remove1 i (ch_held c)\<rparr>"
  have cnt: "count_list (remove1 i xs) j \<le> count_list xs j" "j \<noteq> i \<Longrightarrow> count_list (remove1 i xs) j = count_list xs j"
    for j and xs :: "nat list" by (induction xs) auto
  have le: "use_count ?c j \<le> use_count c j" and other: "j \<noteq> i \<Longrightarrow> use_count ?c j = use_count c j" for j
    by (simp_all add: use_count_def cnt)
  have named: "0 < use_count c j \<longleftrightarrow> j \<in> fst ` set (ch_live c)" for j
    using assms by (auto simp: lease_inv_def)
  have "\<forall>j. 0 < use_count ?c j \<longrightarrow> j \<in> fst ` set (ch_live c)"
    using le named by (metis less_le_trans)
  moreover have "\<forall>j\<in>fst ` set (ch_live c). j \<in> {i} \<or> 0 < use_count ?c j"
    using other named by (metis insertI1)
  ultimately have "lease_inv {i} ?c"
    using assms unfolding lease_inv_def by simp
  then show ?thesis by (simp add: let_go_def True unref_inv)
next
  case False
  with assms show ?thesis by (simp add: let_go_def)
qed

lemma hold_inv: "clip_inv c \<Longrightarrow> i \<in> fst ` set (ch_live c) \<Longrightarrow> clip_inv (hold c i)"
  by (auto simp: lease_inv_def hold_def use_count_def)

lemma unref_live: "0 < use_count c j \<Longrightarrow> j \<in> fst ` set (ch_live (unref c i)) \<longleftrightarrow> j \<in> fst ` set (ch_live c)"
  by (cases "j = i") (auto simp: unref_def destroy_def split: option.splits)

lemma move_to_latest_inv:
  assumes "clip_inv c" "\<And>i. t = Some i \<Longrightarrow> i \<in> fst ` set (ch_live c)"
  shows "clip_inv (move_to_latest c t)"
  unfolding move_to_latest_def Let_def
  by (cases t) (auto intro!: let_go_inv set_latest_text_inv assms)

lemma publish_inv:
  assumes "clip_inv c" "\<And>i. t = Some i \<Longrightarrow> i \<in> fst ` set (ch_live c)"
  shows "clip_inv (snd (publish c k r res t))"
proof (cases "sequence c = - 1")
  case True
  with assms show ?thesis by (cases t) (auto simp: publish_def intro: let_go_inv)
next
  case False
  define c1 where "c1 = c\<lparr>sequence := sequence c + 1,
    latest := (latest c)\<lparr>up_sequence := sequence c + 1, up_kind := k, up_route := r, up_result := res\<rparr>\<rparr>"
  have live: "ch_live c1 = ch_live c" by (simp add: c1_def)
  have "clip_inv c1" using assms(1) by (subst lease_inv_cong [of _ c]) (simp_all add: c1_def)
  then have "clip_inv (move_to_latest c1 t)"
    by (rule move_to_latest_inv) (simp add: live assms(2))
  moreover have "snd (publish c k r res t) = (move_to_latest c1 t)\<lparr>changed := True\<rparr>"
    by (simp add: publish_def False c1_def Let_def)
  ultimately show ?thesis by (simp add: lease_inv_cong [of "c\<lparr>changed := True\<rparr>" c for c])
qed

lemma text_in_bounds:
  assumes "0 \<notin> set t"
  shows "isValidUTF8 (t @ [0]) (length t) \<noteq> None" "convertLF (t @ [0]) (length t) = Some (lf_text t)"
proof -
  have "\<exists>v. valid_loop utf8ToUCS4 (t @ [0]) (length t) = Some v"
    by (rule valid_loop_safe [OF utf8ToUCS4_bounds]) simp_all
  then show "isValidUTF8 (t @ [0]) (length t) \<noteq> None" by (auto simp: isValidUTF8_def)
  show "convertLF (t @ [0]) (length t) = Some (lf_text t)"
    using assms by (intro convertLF_text) simp_all
qed

lemma length_lf_text: "length (lf_text s) \<le> length s"
  by (induction s rule: lf_text.induct) (auto split: list.splits)

lemma prepare_cases:
  assumes "prepare alloc c t rem r = (res, c')"
  obtains (refused) "c' = c" "\<And>i. res \<noteq> Inr (ClAccepted, i)" "\<And>x i. res \<noteq> Inr (x, Some i)" "res \<noteq> Inl OverRead"
  | (accepted) i where "res = Inr (ClAccepted, Some i)" "i = ch_next c" "length t \<le> ch_limit c" "0 \<notin> set t"
      "isValidUTF8 (t @ [0]) (length t) = Some True"
      "length (lf_text t) \<le> size_sub (maximum c) (used c)" "alloc"
      "c' = c\<lparr>used := used c + length (lf_text t), ch_next := i + 1,
         ch_live := (i, \<lparr>text_value = lf_text t, remote = rem, routing = r, budget = ch_budget c\<rparr>) # ch_live c,
         ch_held := i # ch_held c\<rparr>"
proof (cases "length t \<le> ch_limit c \<and> 0 \<notin> set t \<and> isValidUTF8 (t @ [0]) (length t) = Some True \<and>
     length (lf_text t) \<le> size_sub (maximum c) (used c) \<and> alloc")
  case True
  then show ?thesis using assms
    by (intro accepted [of "ch_next c"]) (auto simp: prepare_def text_in_bounds Let_def)
next
  case False
  have "c' = c \<and> (\<exists>e. res = Inl e \<and> e \<noteq> OverRead \<or> (\<exists>x. res = Inr (x, None) \<and> x \<noteq> ClAccepted))"
  proof (cases "0 \<in> set t")
    case True
    with assms show ?thesis by (auto simp: prepare_def split: if_splits)
  next
    case zero: False
    obtain b where "isValidUTF8 (t @ [0]) (length t) = Some b" using text_in_bounds(1) [OF zero] by auto
    with False zero assms show ?thesis
      by (auto simp: prepare_def text_in_bounds(2) split: if_splits)
  qed
  then show ?thesis by (intro refused) auto
qed

lemma prepare_inv:
  assumes "clip_inv c" "prepare alloc c t rem r = (res, c')"
  shows "clip_inv c'" "res = Inr (x, Some i) \<Longrightarrow> i \<in> fst ` set (ch_live c')"
proof -
  have "clip_inv c' \<and> (res = Inr (x, Some i) \<longrightarrow> i \<in> fst ` set (ch_live c'))"
    using assms(2)
  proof (cases rule: prepare_cases)
    case refused
    with assms(1) show ?thesis by auto
  next
    case (accepted j)
    have m: "used c \<le> maximum c" using assms(1) by (simp add: lease_inv_def)
    have fresh: "ch_next c \<notin> fst ` set (ch_live c)" using assms(1) by (auto simp: lease_inv_def)
    then have "use_count c (ch_next c) = 0" using assms(1) by (auto simp: lease_inv_def)
    moreover have "use_count c' k = use_count c k + (if k = ch_next c then 1 else 0)" for k
      using accepted by (simp add: use_count_def)
    ultimately show ?thesis
      using accepted m fresh assms(1) length_lf_text [of t] lf_text_no_CR [of t] lf_text_no_zero [of t]
      by (simp add: lease_inv_def live_bytes_def) (auto intro: less_SucI)
  qed
  then show "clip_inv c'" "res = Inr (x, Some i) \<Longrightarrow> i \<in> fst ` set (ch_live c')" by auto
qed

lemma publish_None_inv: "clip_inv c \<Longrightarrow> clip_inv (snd (publish c k r res None))"
  by (rule publish_inv) simp_all

lemma set_policy_inv: "clip_inv c \<Longrightarrow> clip_inv (snd (set_policy c p))"
  unfolding set_policy_def
  by (simp add: publish_None_inv lease_inv_cong [of "c\<lparr>ch_policy := p, revision := revision c + 1\<rparr>" c])

lemma prepareLocal_cases:
  obtains (refused) x where "x \<noteq> ClAccepted" "prepareLocal alloc c st1 st2 gen t origin = (Inr (x, None), c)"
    "gen \<noteq> generation st1 \<or> check_route c st2 (route c st1) True \<noteq> ClAccepted \<or> (\<exists>o'. origin = Some o' \<and> remote o')"
  | (prepared) "gen = generation st1" "check_route c st2 (route c st1) True = ClAccepted"
      "\<And>o'. origin = Some o' \<Longrightarrow> \<not> remote o'"
      "prepareLocal alloc c st1 st2 gen t origin = prepare alloc c t False (route c st1)"
proof (cases "gen = generation st1 \<and> check_route c st2 (route c st1) True = ClAccepted \<and>
    \<not> (case origin of None \<Rightarrow> False | Some o' \<Rightarrow> remote o')")
  case True
  then show ?thesis
    by (intro prepared) (auto simp: prepareLocal_def Let_def route_def split: option.splits)
next
  case False
  then show ?thesis
    by (intro refused [where x = "if gen \<noteq> generation st1 then ClStale
          else if check_route c st2 (route c st1) True \<noteq> ClAccepted then check_route c st2 (route c st1) True else ClEcho"])
      (auto simp: prepareLocal_def Let_def route_def split: option.splits)
qed

lemma prepareLocal_inv:
  assumes "clip_inv c"
  shows "clip_inv (snd (prepareLocal alloc c st1 st2 gen t origin))"
proof (cases rule: prepareLocal_cases [of alloc c st1 st2 gen t origin])
  case refused
  with assms show ?thesis by simp
next
  case prepared
  with prepare_inv(1) [OF assms, of alloc t False "route c st1"] show ?thesis
    by (metis surjective_pairing)
qed

lemma offerRemote_inv: "clip_inv c \<Longrightarrow> clip_inv (snd (offerRemote c st1 st2 available))"
  by (auto simp: offerRemote_def Let_def intro: publish_None_inv)

lemma receive_cases:
  obtains (refused) "check_route c st1 expected False \<noteq> ClAccepted" "receive alloc c st1 st2 t expected = (None, c)"
  | (failed) c1 e where "check_route c st1 expected False = ClAccepted"
      "prepare alloc (set_latest_text c None) (take (strnlen t (ch_limit c + 1)) t) True expected = (Inl e, c1)"
      "receive alloc c st1 st2 t expected = (Some e, c1)"
  | (dropped) c1 res lease where "check_route c st1 expected False = ClAccepted" "check_route c1 st2 expected False \<noteq> ClAccepted"
      "prepare alloc (set_latest_text c None) (take (strnlen t (ch_limit c + 1)) t) True expected = (Inr (res, lease), c1)
       \<or> c1 = set_latest_text c None \<and> res = ClTooLarge \<and> lease = None"
      "receive alloc c st1 st2 t expected = (None, case lease of None \<Rightarrow> c1 | Some i \<Rightarrow> let_go c1 i)"
  | (published) c1 res lease where "check_route c st1 expected False = ClAccepted" "check_route c1 st2 expected False = ClAccepted"
      "prepare alloc (set_latest_text c None) (take (strnlen t (ch_limit c + 1)) t) True expected = (Inr (res, lease), c1)
       \<or> c1 = set_latest_text c None \<and> res = ClTooLarge \<and> lease = None"
      "receive alloc c st1 st2 t expected =
         publish c1 (if res = ClAccepted then Text else Rejected) expected res lease"
proof (cases "check_route c st1 expected False = ClAccepted")
  case False
  then show ?thesis by (intro refused) (simp_all add: receive_def)
next
  case True
  let ?c = "set_latest_text c None" and ?n = "strnlen t (ch_limit c + 1)"
  have lim: "ch_limit ?c = ch_limit c"
    using set_latest_text_config [of c None] by (simp add: same_config_def)
  define pr where "pr = (if ?n \<le> ch_limit c then prepare alloc ?c (take ?n t) True expected else (Inr (ClTooLarge, None), ?c))"
  have rec: "receive alloc c st1 st2 t expected = (case pr of
             (Inl e, c) \<Rightarrow> (Some e, c)
           | (Inr (res, lease), c) \<Rightarrow>
               if check_route c st2 expected False \<noteq> ClAccepted
               then (None, case lease of None \<Rightarrow> c | Some i \<Rightarrow> let_go c i)
               else publish c (if res = ClAccepted then Text else Rejected) expected res lease)"
    by (simp add: receive_def Let_def lim True pr_def)
  obtain r c1 where pr: "pr = (r, c1)" by (cases pr)
  show ?thesis
  proof (cases r)
    case (Inl e)
    with pr True show ?thesis
      by (intro failed [where ?c1.0 = c1 and e = e]) (auto simp: rec pr_def split: if_splits)
  next
    case (Inr x)
    obtain res lease where x: "x = (res, lease)" by (cases x)
    have src: "prepare alloc ?c (take ?n t) True expected = (Inr (res, lease), c1)
        \<or> c1 = ?c \<and> res = ClTooLarge \<and> lease = None"
      using pr unfolding Inr x pr_def by (auto split: if_splits)
    show ?thesis
    proof (cases "check_route c1 st2 expected False = ClAccepted")
      case ok: True
      show ?thesis by (rule published [OF True ok src]) (simp add: rec pr Inr x ok)
    next
      case ko: False
      show ?thesis by (rule dropped [OF True ko src]) (simp add: rec pr Inr x ko)
    qed
  qed
qed

lemma receive_inv:
  assumes "clip_inv c"
  shows "clip_inv (snd (receive alloc c st1 st2 t expected))"
proof -
  have i0: "clip_inv (set_latest_text c None)" by (rule set_latest_text_inv [OF assms]) simp
  show ?thesis
  proof (cases rule: receive_cases [of c st1 expected alloc st2 t])
    case refused
    with assms show ?thesis by simp
  next
    case failed
    with prepare_inv(1) [OF i0 failed(2)] show ?thesis by simp
  next
    case (dropped c1 res lease)
    from dropped(3) have "clip_inv c1" by (auto intro: i0 prepare_inv(1) [OF i0])
    with dropped(4) show ?thesis by (cases lease) (auto intro: let_go_inv)
  next
    case (published c1 res lease)
    from published(3) have "clip_inv c1" by (auto intro: i0 prepare_inv(1) [OF i0])
    moreover have "i \<in> fst ` set (ch_live c1)" if "lease = Some i" for i
      using published(3) prepare_inv(2) [OF i0] that by blast
    ultimately show ?thesis unfolding published(4) by (rule publish_inv)
  qed
qed

lemma discard_update_inv:
  assumes "clip_inv c"
  shows "clip_inv (discard_update c)"
proof -
  let ?c = "c\<lparr>latest := (latest c)\<lparr>up_kind := Invalidated\<rparr>\<rparr>"
  have "clip_inv ?c" using assms by (subst lease_inv_cong [of _ c]) simp_all
  then have "clip_inv (set_latest_text ?c None)" by (rule set_latest_text_inv) simp
  then show ?thesis unfolding discard_update_def Let_def
    by (subst lease_inv_cong [of _ "set_latest_text ?c None"]) simp_all
qed

lemma hand_over_inv:
  assumes "clip_inv c"
  shows "clip_inv (snd (hand_over c))"
proof -
  have "i \<in> fst ` set (ch_live c)" if "up_text (latest c) = Some i" for i
    using assms that by (auto simp: lease_inv_def use_count_def)
  then have "clip_inv (case up_text (latest c) of None \<Rightarrow> c | Some i \<Rightarrow> hold c i)"
    using assms by (auto intro: hold_inv split: option.split)
  then have "clip_inv (set_latest_text (case up_text (latest c) of None \<Rightarrow> c | Some i \<Rightarrow> hold c i) None)"
    by (rule set_latest_text_inv) simp
  then show ?thesis by (simp add: hand_over_def Let_def)
qed

lemma take_update_inv:
  assumes "clip_inv c"
  shows "clip_inv (snd (take_update c st1 st2))"
proof -
  have "clip_inv (c\<lparr>changed := False\<rparr>)" using assms by (subst lease_inv_cong [of _ c]) simp_all
  with assms show ?thesis
    by (simp add: take_update_def Let_def hand_over_inv discard_update_inv)
qed

lemma clip_step_inv:
  assumes "clip_inv c"
  shows "clip_inv (clip_step c e)"
proof (cases e)
  case (ClCopy i)
  have "i \<in> fst ` set (ch_live c)" if "i \<in> set (ch_held c)"
    using assms that by (simp add: lease_inv_def use_count_def) (metis add_gr_0 count_list_0_iff gr0I)
  with ClCopy assms show ?thesis by (auto intro: hold_inv)
qed (auto simp: invalidate_def assms set_policy_inv prepareLocal_inv offerRemote_inv receive_inv publish_None_inv
       take_update_inv let_go_inv)

subsection \<open>The policy revision as a clock\<close>

lemma take_update_config: "same_config (snd (take_update c st1 st2)) c"
proof -
  have d: "same_config (discard_update c) c" for c
    using set_latest_text_config [of "c\<lparr>latest := (latest c)\<lparr>up_kind := Invalidated\<rparr>\<rparr>" None]
    by (simp add: discard_update_def Let_def same_config_def)
  have h: "same_config (snd (hand_over c)) c" for c
    using set_latest_text_config [of "case up_text (latest c) of None \<Rightarrow> c | Some i \<Rightarrow> hold c i" None]
    by (simp add: hand_over_def Let_def same_config_def hold_def split: option.splits)
  have "same_config (c\<lparr>changed := False\<rparr>) c" by (simp add: same_config_def)
  then show ?thesis
    using same_config_trans [OF h] same_config_trans [OF same_config_trans [OF h d]]
    by (simp add: take_update_def Let_def same_config_refl)
qed

lemma receive_config: "same_config (snd (receive alloc c st1 st2 t expected)) c"
proof -
  have s: "same_config (set_latest_text c None) c" by (rule set_latest_text_config)
  have pr: "same_config c1 c" if "prepare alloc (set_latest_text c None) u True expected = (x, c1)" for u x c1
    using same_config_trans [OF prepare_config s] that by (metis snd_conv)
  show ?thesis
  proof (cases rule: receive_cases [of c st1 expected alloc st2 t])
    case refused
    then show ?thesis by (simp add: same_config_refl)
  next
    case failed
    with pr show ?thesis by auto
  next
    case (dropped c1 res lease)
    with pr s have "same_config c1 c" by auto
    with dropped show ?thesis by (cases lease) (auto intro: same_config_trans let_go_config)
  next
    case (published c1 res lease)
    with pr s have "same_config c1 c" by auto
    with published show ?thesis by (auto intro: same_config_trans publish_config)
  qed
qed

lemma offerRemote_config: "same_config (snd (offerRemote c st1 st2 available)) c"
  by (simp add: offerRemote_def Let_def config_intros)

lemma prepareLocal_config: "same_config (snd (prepareLocal alloc c st1 st2 gen t origin)) c"
  by (rule prepareLocal_cases [of alloc c st1 st2 gen t origin]) (simp_all add: config_intros)

lemma hold_config: "same_config (hold c i) c"
  by (simp add: hold_def same_config_def)

lemma clip_step_config: "(\<And>p. e \<noteq> ClSetPolicy p) \<Longrightarrow> same_config (clip_step c e) c"
  by (cases e) (auto simp: invalidate_def config_intros take_update_config receive_config offerRemote_config
      prepareLocal_config hold_config)

abbreviation policy_clock_of :: "clip_channel \<Rightarrow> nat" where
  "policy_clock_of c \<equiv> unat (revision c)"

lemma set_policy_limits: "ch_limit (snd (set_policy c p)) = ch_limit c \<and> maximum (snd (set_policy c p)) = maximum c"
  using publish_config [of "c\<lparr>ch_policy := p, revision := revision c + 1\<rparr>" Invalidated no_route ClStale None]
  by (simp add: set_policy_def same_config_def)

lemma set_policy_clock: "policy_clock_of c \<le> policy_clock_of (snd (set_policy c p))"
proof (cases "revision c = - 1")
  case True
  then show ?thesis by (simp add: set_policy_def)
next
  case False
  then have "1 + revision c \<noteq> 0" by (metis add.inverse_unique)
  then have "unat (revision c + 1) = unat (revision c) + 1" by (metis Suc_eq_plus1 add.commute unatSuc)
  with False show ?thesis
    using publish_config [of "c\<lparr>ch_policy := p, revision := revision c + 1\<rparr>" Invalidated no_route ClStale None]
    by (simp add: set_policy_def same_config_def)
qed

lemma clip_step_clock: "policy_clock_of c \<le> policy_clock_of (clip_step c e)"
proof (cases "\<exists>p. e = ClSetPolicy p")
  case True
  then show ?thesis using set_policy_clock by auto
next
  case False
  then show ?thesis using clip_step_config [of e c] by (auto simp: same_config_def)
qed

lemma clip_step_limits: "ch_limit (clip_step c e) = ch_limit c \<and> maximum (clip_step c e) = maximum c"
proof (cases "\<exists>p. e = ClSetPolicy p")
  case True
  then show ?thesis using set_policy_limits by auto
next
  case False
  then show ?thesis using clip_step_config [of e c] by (auto simp: same_config_def)
qed

lemma clip_run_limits: "ch_limit (run clip_step c es) = ch_limit c \<and> maximum (run clip_step c es) = maximum c"
  by (induction es arbitrary: c) (auto simp: clip_step_limits)

interpretation clip: monotone_system clip_step clip_inv policy_clock_of
  by unfold_locales (auto intro: clip_step_inv clip_step_clock)

lemma new_channel_inv: "new_channel bid lim ret pol = Inr c \<Longrightarrow> clip_inv c"
  by (auto simp: new_channel_def lease_inv_def use_count_def live_bytes_def split: if_splits)

subsection \<open>Properties\<close>

text \<open>
  C27: The byte budget is exact and never exceeded. Whatever calls are made on a fresh
  channel and however its leases are copied and dropped, the bytes accounted for are those
  of the texts that exist, they stay within the retained limit, every text is within the
  text limit and free of carriage returns and zero bytes, and once no reference is left
  nothing is accounted for.
\<close>

theorem clipboard_budget:
  assumes "new_channel bid lim ret pol = Inr c0"
  shows "let c = run clip_step c0 es in
    bytesInUse c = live_bytes (ch_live c) \<and> bytesInUse c \<le> ret \<and> ret \<le> 64 * 1024 * 1024 \<and>
    (\<forall>p\<in>set (ch_live c). length (text_value (snd p)) \<le> lim \<and>
       CR \<notin> set (text_value (snd p)) \<and> 0 \<notin> set (text_value (snd p))) \<and>
    (ch_held c = [] \<and> up_text (latest c) = None \<longrightarrow> bytesInUse c = 0)"
proof -
  let ?c = "run clip_step c0 es"
  have inv: "clip_inv ?c" by (rule clip.run_inv) (rule new_channel_inv [OF assms])
  have lim: "ch_limit ?c = lim" "maximum ?c = ret" "ret \<le> 64 * 1024 * 1024"
    using assms by (auto simp: clip_run_limits new_channel_def split: if_splits)
  have "ch_live ?c = []" if "ch_held ?c = []" "up_text (latest ?c) = None"
    using inv that by (cases "ch_live ?c") (auto simp: lease_inv_def use_count_def)
  with inv lim show ?thesis
    unfolding Let_def bytesInUse_def lease_inv_def by (simp add: live_bytes_def)
qed

theorem clipboard_budget_witness:
  "\<exists>c0. new_channel 7 4 6 \<lparr>send = True, receive_allowed = True\<rparr> = Inr c0 \<and>
     bytesInUse (run clip_step c0 [ClInvalidate, ClDrop 0]) \<le> 6"
proof -
  obtain c0 where c0: "new_channel 7 4 6 \<lparr>send = True, receive_allowed = True\<rparr> = Inr c0"
    by (simp add: new_channel_def)
  then show ?thesis
    using clipboard_budget [OF c0, of "[ClInvalidate, ClDrop 0]"] unfolding Let_def by blast
qed

text \<open>
  C31: A consumer never gets an offer or a text for another connection attempt, focus or
  policy: if \<open>take\<close> hands over an update that is not an invalidation, then the update's
  route is the current one, the session is connected, focused and not view-only, and
  receiving is allowed.
\<close>

theorem take_delivers_current:
  assumes "take_update c st1 st2 = (Some u, c')" and "up_kind u \<noteq> Invalidated"
  shows "up_route u = route c st2 \<and> up_route u = route c st1 \<and> is_connected st2 \<and> focused st2 \<and>
    \<not> viewOnly st2 \<and> receive_allowed (ch_policy c) \<and>
    u = latest c \<and> \<not> changed c' \<and> up_text (latest c') = None"
proof -
  let ?r = "route c st1" and ?c = "c\<lparr>changed := False\<rparr>"
  let ?a = "check_route c st2 ?r False"
  have kind: "up_kind (latest (discard_update x)) = Invalidated" for x
    by (simp add: discard_update_def set_latest_text_def unref_def destroy_def Let_def split: option.split)
  have ch: "changed c" and u: "u = latest (if stale_update ?c ?a ?r then discard_update ?c else ?c)"
    and c': "c' = snd (hand_over (if stale_update ?c ?a ?r then discard_update ?c else ?c))"
    using assms(1) by (auto simp: take_update_def Let_def hand_over_def split: if_splits)
  from u assms(2) kind have fresh: "\<not> stale_update ?c ?a ?r" by (auto split: if_splits)
  then have acc: "?a = ClAccepted" and rt: "up_route (latest c) = ?r"
    by (auto simp: stale_update_def intro: clip_route.equality)
  have c'': "c' = set_latest_text (case up_text (latest ?c) of None \<Rightarrow> ?c | Some i \<Rightarrow> hold ?c i) None"
    using c' fresh by (simp add: hand_over_def Let_def)
  have "\<not> changed c'" "up_text (latest c') = None"
    unfolding c'' by (simp_all add: set_latest_text_def unref_def destroy_def hold_def Let_def split: option.split)
  with fresh u acc rt show ?thesis
    by (auto simp: check_route_def route_def split: if_splits)
qed

text \<open>
  C25: A stale route stays stale. Once the input mailbox has moved past the routing revision
  of a route, or the channel past its policy revision, no later sequence of operations on
  either makes \<open>check\<close> accept the route again, in either direction.
\<close>

theorem stale_route_stays_stale:
  assumes "input_inv q" and "clip_inv c"
    and "rt_focus r < routingRevision (status q) \<or> rt_policy r < revision c"
  shows "check_route (run clip_step c fs) (status (run input_step q es)) r sending = ClStale"
proof -
  have "revision_clock q \<le> revision_clock (run input_step q es)"
    by (rule input.run_clock [OF assms(1)])
  moreover have "policy_clock_of c \<le> policy_clock_of (run clip_step c fs)"
    by (rule clip.run_clock [OF assms(2)])
  ultimately show ?thesis
    using assms(3) by (auto simp: check_route_def status_def word_less_nat_alt)
qed

theorem stale_route_stays_stale_witness:
  "\<exists>q c. new_queue 2 = Inr q \<and> new_channel 7 4 6 \<lparr>send = True, receive_allowed = True\<rparr> = Inr c \<and>
     check_route (run clip_step c [ClInvalidate]) (status (run input_step (input_step q (EvFocus 1 False)) [EvFocus 1 True]))
       (route c (status q)) True = ClStale"
proof -
  obtain q where q: "new_queue 2 = Inr q"
    "q = \<lparr>capacity = 2, iq_status = default_status, iq_buttons = 0, iq_queue = []\<rparr>"
    by (simp add: new_queue_def)
  obtain c where c: "new_channel 7 4 6 \<lparr>send = True, receive_allowed = True\<rparr> = Inr c"
    by (simp add: new_channel_def)
  let ?q = "input_step q (EvFocus 1 False)"
  have inv: "input_inv ?q" by (rule input_step_inv) (rule new_queue_inv [OF q(1)])
  have "rt_focus (route c (status q)) < routingRevision (status ?q)"
    by (simp add: q(2) keep_snd_def setFocused_def reroute_def release_def default_status_def route_def status_def Let_def)
  with stale_route_stays_stale [OF inv new_channel_inv [OF c], of "route c (status q)"] q(1) c
  show ?thesis by blast
qed

lemma strnlen_terminated:
  assumes "0 \<notin> set s" "length s \<le> n"
  shows "strnlen (s @ 0 # rest) (n + 1) = length s"
proof -
  have "takeWhile (\<lambda>b. b \<noteq> 0) (s @ 0 # r) = s" for r
    using assms(1) by (induction s) auto
  moreover have "take (n + 1) (s @ 0 # rest) = s @ 0 # take (n - length s) rest"
    using assms(2) by (simp add: Suc_diff_le)
  ultimately show ?thesis by (simp add: strnlen_def)
qed

text \<open>Moving the only reference of a new text into an empty mailbox, and handing it over.\<close>

lemma publish_fresh:
  assumes "sequence c \<noteq> - 1" "up_text (latest c) = None" "ch_held c = i # held"
  shows "publish c k r res (Some i) = (None, c\<lparr>sequence := sequence c + 1, ch_held := held, changed := True,
     latest := \<lparr>up_sequence = sequence c + 1, up_route = r, up_kind = k, up_result = res, up_text = Some i\<rparr>\<rparr>)"
  using assms
  by (simp add: publish_def move_to_latest_def set_latest_text_def let_go_def unref_def use_count_def)

lemma take_update_fresh:
  assumes "changed c" "\<not> stale_update c (check_route c st2 (route c st1) False) (route c st1)"
    "up_text (latest c) = Some i"
  shows "take_update c st1 st2 = (Some (latest c), c\<lparr>changed := False, ch_held := i # ch_held c,
     latest := (latest c)\<lparr>up_text := None\<rparr>\<rparr>)"
  using assms
  by (simp add: take_update_def hand_over_def stale_update_def hold_def set_latest_text_def unref_def use_count_def Let_def)

text \<open>
  C28: Text the server sends arrives. When the expected route is current and receiving is
  allowed, the text is valid UTF-8 within the text limit, and it fits in the budget once the
  mailbox has let go of the text it replaces, then the next \<open>take\<close> hands over a lease on that
  text with its line ends normalised, marked as remote.
\<close>

theorem receive_delivers:
  assumes "clip_inv c" and "check_route c st expected False = ClAccepted" and "sequence c \<noteq> - 1"
    and "0 \<notin> set s" and "length s \<le> ch_limit c" and "isValidUTF8 (s @ [0]) (length s) = Some True"
    and "length (lf_text s) \<le> maximum c - used (set_latest_text c None)"
  shows "\<exists>c1 c2 u i. receive True c st st (s @ 0 # rest) expected = (None, c1) \<and>
    take_update c1 st st = (Some u, c2) \<and> up_kind u = Text \<and> up_text u = Some i \<and> i \<in> set (ch_held c2) \<and>
    map_of (ch_live c2) i = Some \<lparr>text_value = lf_text s, remote = True, routing = expected, budget = ch_budget c\<rparr>"
proof -
  let ?c0 = "set_latest_text c None" and ?t = "s @ 0 # rest" and ?i = "ch_next (set_latest_text c None)"
  let ?x = "\<lparr>text_value = lf_text s, remote = True, routing = expected, budget = ch_budget c\<rparr>"
  let ?c1 = "?c0\<lparr>used := used ?c0 + length (lf_text s), ch_next := ?i + 1, ch_live := (?i, ?x) # ch_live ?c0,
     ch_held := ?i # ch_held ?c0\<rparr>"
  have cfg: "same_config ?c0 c" by (rule set_latest_text_config)
  then have cfg1: "same_config ?c1 c" by (simp add: same_config_def)
  have len: "strnlen ?t (ch_limit c + 1) = length s" "take (length s) ?t = s"
    by (rule strnlen_terminated [OF assms(4,5)]) simp
  have empty: "up_text (latest ?c0) = None" "sequence ?c0 = sequence c"
    by (simp_all add: set_latest_text_def unref_def destroy_def Let_def split: option.split)
  have "clip_inv ?c0" by (rule set_latest_text_inv [OF assms(1)]) simp
  then have "used ?c0 \<le> maximum c" using cfg by (simp add: lease_inv_def same_config_def)
  with assms(4-7) cfg have prep: "prepare True ?c0 s True expected = (Inr (ClAccepted, Some ?i), ?c1)"
    by (simp add: prepare_def text_in_bounds same_config_def Let_def)
  define c1 where "c1 = snd (publish ?c1 Text expected ClAccepted (Some ?i))"
  have pub: "publish ?c1 Text expected ClAccepted (Some ?i) = (None, c1)"
    and c1: "c1 = ?c1\<lparr>sequence := sequence c + 1, ch_held := ch_held ?c0, changed := True,
     latest := \<lparr>up_sequence = sequence c + 1, up_route = expected, up_kind = Text, up_result = ClAccepted, up_text = Some ?i\<rparr>\<rparr>"
    using publish_fresh [of ?c1 ?i "ch_held ?c0"] assms(3) empty by (simp_all add: c1_def)
  have rec: "receive True c st st ?t expected = (None, c1)"
    using assms(2,5) len prep pub cfg check_route_config [OF cfg1, of st expected False]
    by (simp add: receive_def Let_def same_config_def)
  have same1: "same_config c1 c" using cfg by (simp add: c1 same_config_def)
  then have "revision c1 = revision c" by (simp add: same_config_def)
  then have rt: "expected = route c1 st" by (simp add: accepted_route [OF assms(2)] route_def)
  have "\<not> stale_update c1 (check_route c1 st (route c1 st) False) (route c1 st)"
    unfolding rt [symmetric]
    using assms(2) check_route_config [OF same1, of st expected False] c1 by (simp add: stale_update_def)
  from take_update_fresh [OF _ this, of ?i] have
    tk: "take_update c1 st st = (Some (latest c1), c1\<lparr>changed := False, ch_held := ?i # ch_held c1,
       latest := (latest c1)\<lparr>up_text := None\<rparr>\<rparr>)"
    by (simp add: c1)
  show ?thesis by (intro exI conjI, rule rec, rule tk) (simp add: c1)+
qed

text \<open>A channel and a connected session for the witnesses.\<close>

definition demo_channel :: clip_channel where
  "demo_channel = (case new_channel 7 4 6 \<lparr>send = True, receive_allowed = True\<rparr> of Inr c \<Rightarrow> c)"

definition demo_status :: input_status where
  "demo_status = default_status\<lparr>is_connected := True\<rparr>"

lemma demo_inv: "clip_inv demo_channel"
  by (rule new_channel_inv [of 7 4 6 "\<lparr>send = True, receive_allowed = True\<rparr>"])
    (simp add: demo_channel_def new_channel_def)

theorem receive_delivers_witness:
  "\<exists>c1 c2 u i. receive True demo_channel demo_status demo_status [0x41, 0] (route demo_channel demo_status) = (None, c1) \<and>
     take_update c1 demo_status demo_status = (Some u, c2) \<and> up_kind u = Text \<and> up_text u = Some i \<and> i \<in> set (ch_held c2) \<and>
     map_option text_value (map_of (ch_live c2) i) = Some [0x41]"
proof -
  have v: "isValidUTF8 ([0x41] @ [0]) (length [0x41 :: byte]) = Some True" by code_simp
  have a: "check_route demo_channel demo_status (route demo_channel demo_status) False = ClAccepted"
    by (simp add: demo_channel_def demo_status_def new_channel_def route_def check_route_def default_status_def)
  have f: "length [0x41 :: byte] \<le> ch_limit demo_channel" "sequence demo_channel \<noteq> - 1"
    "length (lf_text [0x41 :: byte]) \<le> maximum demo_channel - used (set_latest_text demo_channel None)"
    by (simp_all add: demo_channel_def new_channel_def set_latest_text_def)
  have l: "lf_text [0x41] = [0x41 :: byte]" by simp
  show ?thesis
    using receive_delivers [OF demo_inv a f(2) _ f(1) v f(3), of "[]"] unfolding l by fastforce
qed

theorem take_delivers_current_witness:
  "\<exists>c u c'. offerRemote demo_channel demo_status demo_status True = (None, c) \<and>
     take_update c demo_status demo_status = (Some u, c') \<and> up_kind u = Offered \<and> up_route u = route c demo_status"
proof -
  let ?p = "offerRemote demo_channel demo_status demo_status True"
  obtain c where c: "?p = (None, c)" "c = snd ?p"
    by (simp add: offerRemote_def demo_channel_def demo_status_def new_channel_def route_def check_route_def
        default_status_def publish_def Let_def)
  obtain u c' where u: "take_update c demo_status demo_status = (Some u, c')" "up_kind u = Offered"
    unfolding c(2)
    by (simp add: offerRemote_def demo_channel_def demo_status_def new_channel_def route_def check_route_def
        default_status_def publish_def Let_def take_update_def hand_over_def stale_update_def move_to_latest_def
        set_latest_text_def)
  have "up_route u = route c demo_status" using take_delivers_current [OF u(1)] u(2) by (metis clip_kind.distinct(5))
  with c(1) u show ?thesis by blast
qed

end
