(* ===== verification/Middle_Button.thy ===== *)
theory Middle_Button
  imports Prelude
begin

text \<open>
  Three-button emulation, \<open>viewer/core/MiddleButtonEmulator.cxx\<close>: the transition table, the
  actions that press and release emulated buttons, and the two entry points. A batch is the
  list of the events written to its array; that it never outgrows the array is a theorem.
\<close>

unbundle bit_operations_syntax

subsection \<open>State\<close>

type_synonym point = "int \<times> int"

record pointer_event =
  ev_position :: point
  ev_buttons :: u16

record emulator =
  state :: int
  emulated :: u16
  lastButtons :: u16
  original :: point
  lastPosition :: point

record batch =
  events :: "pointer_event list"
  timerChanged :: bool

definition stateTab :: "(int \<times> int \<times> int) list list" where
  "stateTab =
   [[(0, 0, 0), (0, 0, 1), (0, 0, 2), (2, 0, 3), (0, 0, - 1)],
    [(1, - 1, 0), (0, 0, 1), (1, - 1, 2), (2, 0, 3), (1, 0, 4)],
    [(3, - 3, 0), (3, - 3, 1), (0, 0, 2), (2, 0, 3), (3, 0, 5)],
    [(- 2, 0, 0), (0, 0, 7), (0, 0, 6), (0, 0, 3), (0, 0, - 1)],
    [(- 1, 0, 0), (0, 0, 4), (- 1, 0, 2), (3, 0, 10), (0, 0, - 1)],
    [(- 3, 0, 0), (- 3, 0, 1), (0, 0, 5), (1, 0, 10), (0, 0, - 1)],
    [(- 2, 0, 0), (- 2, 0, 1), (0, 0, 6), (1, 0, 8), (0, 0, - 1)],
    [(- 2, 0, 0), (0, 0, 7), (- 2, 0, 2), (3, 0, 9), (0, 0, - 1)],
    [(- 2, - 1, 0), (- 2, 0, 4), (- 1, 0, 6), (0, 0, 8), (0, 0, - 1)],
    [(- 2, - 3, 0), (- 3, 0, 7), (- 2, 0, 5), (0, 0, 9), (0, 0, - 1)],
    [(- 1, - 3, 0), (- 3, 0, 4), (- 1, 0, 5), (0, 0, 10), (0, 0, - 1)]]"

definition reset :: emulator where
  "reset = \<lparr>state = 0, emulated = 0, lastButtons = 0, original = (0, 0), lastPosition = (0, 0)\<rparr>"

subsection \<open>Operations\<close>

definition pending :: "emulator \<Rightarrow> bool" where
  "pending m \<longleftrightarrow> state m = 1 \<or> state m = 2"

definition mask_buttons :: "emulator \<Rightarrow> u16 \<Rightarrow> u16" where
  "mask_buttons m buttons = (buttons AND NOT 5) OR emulated m"

definition action :: "emulator \<Rightarrow> pointer_event list \<Rightarrow> point \<Rightarrow> u16 \<Rightarrow> int \<Rightarrow> emulator \<times> pointer_event list" where
  "action m evs position buttons v =
     (let m = m\<lparr>emulated := (if v < 0 then emulated m AND NOT (push_bit (nat (- v - 1)) 1)
                            else emulated m OR push_bit (nat (v - 1)) 1)\<rparr>
      in (m, evs @ [\<lparr>ev_position = position, ev_buttons = mask_buttons m buttons\<rparr>]))"

definition pointer :: "emulator \<Rightarrow> point \<Rightarrow> u16 \<Rightarrow> batch \<times> emulator" where
  "pointer m position buttons =
     (let m = m\<lparr>lastPosition := position, lastButtons := buttons\<rparr>;
          event = unat ((buttons AND 1) OR drop_bit 1 (buttons AND 4));
          (t0, t1, t2) = stateTab ! nat (state m) ! event;
          place = (\<lambda>t. if pending m \<and> t > 0 then original m else position);
          (m, evs) = (if t0 \<noteq> 0 then action m [] (place t0) buttons t0 else (m, []));
          (m, evs) = (if t1 \<noteq> 0 then action m evs (place t1) buttons t1 else (m, evs));
          evs = (if t0 = 0 \<and> t1 = 0 \<and> \<not> pending m
                 then evs @ [\<lparr>ev_position = position, ev_buttons = mask_buttons m buttons\<rparr>] else evs);
          timer = (state m \<noteq> t2);
          m = m\<lparr>state := t2\<rparr>;
          m = (if timer \<and> pending m then m\<lparr>original := position\<rparr> else m)
      in (\<lparr>events = evs, timerChanged = timer\<rparr>, m))"

definition expire :: "emulator \<Rightarrow> batch \<times> emulator" where
  "expire m =
     (if \<not> pending m then (\<lparr>events = [], timerChanged = False\<rparr>, m)
      else
        let (t0, t1, t2) = stateTab ! nat (state m) ! 4;
            (m, evs) = (if t0 \<noteq> 0 then action m [] (original m) (lastButtons m) t0 else (m, []));
            (m, evs) = (if t1 \<noteq> 0 then action m evs (original m) (lastButtons m) t1 else (m, evs));
            evs = (if original m \<noteq> lastPosition m
                   then evs @ [\<lparr>ev_position = lastPosition m, ev_buttons = mask_buttons m (lastButtons m)\<rparr>] else evs)
        in (\<lparr>events = evs, timerChanged = True\<rparr>, m\<lparr>state := t2\<rparr>))"

subsection \<open>The emulator and the events it has sent\<close>

datatype emu_event = Motion point u16 | Timeout

definition emu_apply :: "emulator \<Rightarrow> emu_event \<Rightarrow> batch \<times> emulator" where
  "emu_apply m e = (case e of Motion p b \<Rightarrow> pointer m p b | Timeout \<Rightarrow> expire m)"

definition emu_step :: "emulator \<times> pointer_event list \<Rightarrow> emu_event \<Rightarrow> emulator \<times> pointer_event list" where
  "emu_step s e = (let (b, m) = emu_apply (fst s) e in (m, snd s @ events b))"

text \<open>The emulated buttons each state of the machine holds down, as its comment names them.\<close>

definition held_in :: "int \<Rightarrow> u16" where
  "held_in s = [0, 0, 0, 2, 1, 4, 2, 2, 3, 6, 5] ! nat s"

text \<open>
  The machine is in one of its eleven states and has exactly the buttons of that state down;
  while it waits for the timer the server sees neither left nor right, and otherwise the
  last event sent carries the current mask of the last buttons reported.
\<close>

definition emu_inv :: "emulator \<times> pointer_event list \<Rightarrow> bool" where
  "emu_inv s \<longleftrightarrow> (let m = fst s in
     state m \<in> {0..10} \<and> emulated m = held_in (state m) \<and>
     (\<not> pending m \<longrightarrow> (if snd s = [] then m = reset else
        ev_buttons (last (snd s)) = mask_buttons m (lastButtons m))) \<and>
     (snd s \<noteq> [] \<longrightarrow> ev_buttons (last (snd s)) AND 5 = emulated m AND 5))"

subsection \<open>One step\<close>

lemma left_bit: "b AND 1 = (if bit b 0 then 1 else 0)" for b :: u16
  using and_single_bit [of b 0] by simp

lemma right_bit: "b AND 4 = (if bit b 2 then 4 else 0)" for b :: u16
  using and_single_bit [of b 2] by simp

lemma left_right: "b AND 5 = (b AND 1) OR (b AND 4)" for b :: u16
proof -
  have "(5 :: u16) = 1 OR 4" by simp
  then show ?thesis by (simp only: bit.conj_disj_distrib)
qed

abbreviation event_of :: "u16 \<Rightarrow> nat" where
  "event_of b \<equiv> unat ((b AND 1) OR drop_bit 1 (b AND 4))"

lemma event_of_range: "event_of b = 0 \<or> event_of b = 1 \<or> event_of b = 2 \<or> event_of b = 3"
  by (simp add: left_bit right_bit)

lemma event_cases:
  obtains "event_of b = 0" | "event_of b = 1" | "event_of b = 2" | "event_of b = 3"
  by atomize_elim (rule event_of_range)

lemma event_of_none: "event_of b = 0 \<longleftrightarrow> b AND 5 = 0"
  by (simp add: left_right left_bit right_bit)

lemma event_of_both: "event_of b = 3 \<longleftrightarrow> b AND 5 = 5"
  by (simp add: left_right left_bit right_bit)

definition machine_ok :: "emulator \<Rightarrow> bool" where
  "machine_ok m \<longleftrightarrow> state m \<in> {0..10} \<and> emulated m = held_in (state m)"

text \<open>What one call does, whatever the state and the buttons.\<close>

definition step_ok :: "emulator \<Rightarrow> u16 \<Rightarrow> batch \<Rightarrow> emulator \<Rightarrow> bool" where
  "step_ok m b B m' \<longleftrightarrow> machine_ok m' \<and> lastButtons m' = b \<and> length (events B) \<le> 2 \<and>
     (timerChanged B \<longleftrightarrow> state m' \<noteq> state m) \<and>
     (events B = [] \<longrightarrow> pending m' \<and> emulated m' = emulated m) \<and>
     (events B \<noteq> [] \<longrightarrow> ev_buttons (last (events B)) = mask_buttons m' b)"

lemma state_cases:
  assumes "state m \<in> {0..10}"
  obtains "state m = 0" | "state m = 1" | "state m = 2" | "state m = 3" | "state m = 4" | "state m = 5"
    | "state m = 6" | "state m = 7" | "state m = 8" | "state m = 9" | "state m = 10"
proof -
  from assms have "0 \<le> state m" "state m \<le> 10" by simp_all
  then have "state m = 0 \<or> state m = 1 \<or> state m = 2 \<or> state m = 3 \<or> state m = 4 \<or> state m = 5
    \<or> state m = 6 \<or> state m = 7 \<or> state m = 8 \<or> state m = 9 \<or> state m = 10" by presburger
  then show ?thesis using that by blast
qed

lemmas machine_simps = pointer_def expire_def action_def step_ok_def machine_ok_def pending_def mask_buttons_def
  held_in_def stateTab_def Let_def

lemma pointer_step:
  assumes "machine_ok m"
  shows "step_ok m b (fst (pointer m p b)) (snd (pointer m p b))"
proof -
  have s: "state m \<in> {0..10}" and e: "emulated m = held_in (state m)" using assms by (simp_all add: machine_ok_def)
  from s show ?thesis
    by (rule state_cases; cases rule: event_cases [of b]) (simp_all add: machine_simps e)
qed

lemma expire_step:
  assumes "machine_ok m" "pending m"
  shows "step_ok m (lastButtons m) (fst (expire m)) (snd (expire m)) \<and> \<not> pending (snd (expire m))"
proof (cases "original m = lastPosition m")
  case True
  with assms show ?thesis by (auto simp: machine_simps)
next
  case False
  with assms show ?thesis by (auto simp: machine_simps)
qed

subsection \<open>Runs\<close>

lemma mask_low: "mask_buttons m b AND 5 = emulated m AND 5"
  unfolding mask_buttons_def by (rule and_not_or_and)

lemma step_ok_inv:
  assumes "emu_inv (m, sent)" "step_ok m b B m'"
  shows "emu_inv (m', sent @ events B)"
proof (cases "events B = []")
  case True
  with assms show ?thesis by (auto simp: emu_inv_def step_ok_def machine_ok_def Let_def)
next
  case False
  with assms show ?thesis
    by (simp add: emu_inv_def step_ok_def machine_ok_def Let_def mask_low)
qed

lemma emu_step_inv:
  assumes "emu_inv s"
  shows "emu_inv (emu_step s e)"
proof -
  obtain m sent where s: "s = (m, sent)" by (cases s)
  have ok: "machine_ok m" using assms by (simp add: s emu_inv_def machine_ok_def Let_def)
  show ?thesis
  proof (cases e)
    case (Motion p b)
    with step_ok_inv [OF assms [unfolded s] pointer_step [OF ok, of b p]] show ?thesis
      by (simp add: s emu_step_def emu_apply_def Let_def split_beta)
  next
    case Timeout
    show ?thesis
    proof (cases "pending m")
      case True
      have "step_ok m (lastButtons m) (fst (expire m)) (snd (expire m))" using expire_step [OF ok True] ..
      with Timeout step_ok_inv [OF assms [unfolded s] this] show ?thesis
        by (simp add: s emu_step_def emu_apply_def Let_def split_beta)
    next
      case False
      with Timeout assms show ?thesis by (simp add: s emu_step_def emu_apply_def expire_def)
    qed
  qed
qed

interpretation emu: invariant_system emu_step emu_inv
  by unfold_locales (rule emu_step_inv)

lemma reset_inv: "emu_inv (reset, [])"
  by (simp add: emu_inv_def reset_def held_in_def pending_def)

subsection \<open>Properties\<close>

text \<open>
  The table is total for the states it reaches. Whatever buttons and timeouts come in,
  the machine stays in its eleven states, never enters the state -1 of the
  "not applicable" entries, holds down exactly the buttons its state stands for, and
  every batch fits the array of three events.
\<close>

theorem emulator_stays_in_table:
  "let m = fst (run emu_step (reset, []) es) in
     0 \<le> state m \<and> state m \<le> 10 \<and> emulated m = held_in (state m) \<and>
     length (events (fst (emu_apply m e))) \<le> 3"
proof -
  let ?m = "fst (run emu_step (reset, []) es)"
  have "emu_inv (run emu_step (reset, []) es)" by (rule emu.run_inv [OF reset_inv])
  then have ok: "machine_ok ?m" by (simp add: emu_inv_def machine_ok_def Let_def)
  have "length (events (fst (emu_apply ?m e))) \<le> 2"
  proof (cases e)
    case (Motion p b)
    with pointer_step [OF ok, of b p] show ?thesis by (simp add: emu_apply_def step_ok_def)
  next
    case Timeout
    with expire_step [OF ok] show ?thesis
      by (cases "pending ?m") (auto simp: emu_apply_def step_ok_def expire_def)
  qed
  with ok show ?thesis by (simp add: machine_ok_def Let_def)
qed





end
