(* ===== verification/Shortcut_State.thy ===== *)
theory Shortcut_State
  imports Prelude
begin

text \<open>
  The classifier that tells local shortcuts from keys meant for the server,
  \<open>viewer/core/ShortcutState.cxx\<close>. The fixed array and its \<open>count\<close> are the list of the
  keys in use; removing a key moves the last one into its place.
\<close>

unbundle bit_operations_syntax

subsection \<open>State\<close>

datatype key_action = KeyNormal | KeyUnarm | KeyShortcut | KeyIgnore

datatype sc_phase = Idle | Arming | Armed | Rearming | Firing | Wedged

datatype sc_error = InvalidModifierMask | KeyCapacityExceeded

record sc_key =
  code :: int
  symbol :: u32
  fired :: bool

record shortcut =
  modifierMask :: u32
  phase :: sc_phase
  keys :: "sc_key list"

definition sc_capacity :: nat where
  "sc_capacity = 1024"

definition new_shortcut :: shortcut where
  "new_shortcut = \<lparr>modifierMask = 0, phase = Idle, keys = []\<rparr>"

subsection \<open>Operations\<close>

definition keySymToModifier :: "u32 \<Rightarrow> u32" where
  "keySymToModifier keySym =
     (if keySym = 0xffe3 \<or> keySym = 0xffe4 then 1
      else if keySym = 0xffe1 \<or> keySym = 0xffe2 then 2
      else if keySym = 0xffe9 \<or> keySym = 0xffea then 4
      else if keySym = 0xffeb \<or> keySym = 0xffec \<or> keySym = 0xffed \<or> keySym = 0xffee then 8
      else 0)"

definition reset :: "shortcut \<Rightarrow> shortcut" where
  "reset s = s\<lparr>phase := Idle, keys := []\<rparr>"

definition setModifiers :: "shortcut \<Rightarrow> u32 \<Rightarrow> sc_error + shortcut" where
  "setModifiers s m = (if m AND NOT 15 \<noteq> 0 then Inl InvalidModifierMask else Inr (reset (s\<lparr>modifierMask := m\<rparr>)))"

text \<open>The \<open>while\<close> loop that looks a key up: the index of the key, or the number of keys.\<close>

fun key_index :: "int \<Rightarrow> sc_key list \<Rightarrow> nat" where
  "key_index c [] = 0"
| "key_index c (k # ks) = (if code k = c then 0 else Suc (key_index c ks))"

definition pressedMask :: "sc_key list \<Rightarrow> u32" where
  "pressedMask ks = foldl (\<lambda>m k. m OR keySymToModifier (symbol k)) 0 ks"

definition note_press :: "shortcut \<Rightarrow> int \<Rightarrow> u32 \<Rightarrow> sc_error + shortcut" where
  "note_press s keyCode keySym =
     (let i = key_index keyCode (keys s) in
      if i = length (keys s)
      then if length (keys s) = sc_capacity then Inl KeyCapacityExceeded
           else Inr (s\<lparr>keys := keys s @ [\<lparr>code = keyCode, symbol = keySym, fired = False\<rparr>]\<rparr>)
      else Inr (s\<lparr>keys := (keys s)[i := (keys s ! i)\<lparr>symbol := keySym\<rparr>]\<rparr>))"

definition set_fired :: "shortcut \<Rightarrow> nat \<Rightarrow> shortcut" where
  "set_fired s i = s\<lparr>keys := (keys s)[i := (keys s ! i)\<lparr>fired := True\<rparr>]\<rparr>"

definition handleKeyPress :: "shortcut \<Rightarrow> int \<Rightarrow> u32 \<Rightarrow> sc_error + (key_action \<times> shortcut)" where
  "handleKeyPress s keyCode keySym =
     ebind (note_press s keyCode keySym) (\<lambda>s.
       let index = key_index keyCode (keys s);
           modifier = keySymToModifier keySym;
           pressed = pressedMask (keys s);
           in_set = (modifier \<noteq> 0 \<and> modifier AND modifierMask s = modifier)
       in if modifierMask s = 0 then Inr (KeyNormal, s)
          else case phase s of
            Armed \<Rightarrow>
              if in_set then Inr (KeyNormal, s)
              else if modifier \<noteq> 0 then Inr (KeyNormal, s\<lparr>phase := Wedged\<rparr>)
              else Inr (KeyShortcut, set_fired (s\<lparr>phase := Firing\<rparr>) index)
          | Firing \<Rightarrow>
              if modifier \<noteq> 0 then Inr (KeyIgnore, s)
              else Inr (KeyShortcut, set_fired s index)
          | Wedged \<Rightarrow> Inr (KeyNormal, s)
          | _ \<Rightarrow>
              let s = (if pressed = modifierMask s then s\<lparr>phase := Armed\<rparr> else s);
                  s = (if in_set then (if phase s = Idle then s\<lparr>phase := Arming\<rparr> else s)
                       else s\<lparr>phase := Wedged\<rparr>)
              in Inr (KeyNormal, s))"

definition remove_key :: "sc_key list \<Rightarrow> nat \<Rightarrow> sc_key list" where
  "remove_key ks i = (if i < length ks then butlast (ks[i := last ks]) else ks)"

definition handleKeyRelease :: "shortcut \<Rightarrow> int \<Rightarrow> key_action \<times> shortcut" where
  "handleKeyRelease s keyCode =
     (let index = key_index keyCode (keys s);
          firedKey = (index < length (keys s) \<and> fired (keys s ! index));
          s = s\<lparr>keys := remove_key (keys s) index\<rparr>;
          pressed = pressedMask (keys s);
          (act, s) = (case phase s of
              Arming \<Rightarrow> (KeyNormal, s)
            | Armed \<Rightarrow> if keys s = [] then (KeyUnarm, s)
                      else if pressed = modifierMask s then (KeyNormal, s)
                      else (KeyNormal, s\<lparr>phase := Rearming\<rparr>)
            | Rearming \<Rightarrow> if keys s = [] then (KeyUnarm, s) else (KeyNormal, s)
            | Firing \<Rightarrow> if firedKey then (KeyShortcut, s) else (KeyIgnore, s)
            | _ \<Rightarrow> (KeyNormal, s))
      in (act, if keys s = [] then s\<lparr>phase := Idle\<rparr> else s))"

subsection \<open>The classifier as a transition system\<close>

datatype sc_event = Press int u32 | Release int | Reset | SetModifiers u32

fun sc_step :: "shortcut \<Rightarrow> sc_event \<Rightarrow> shortcut" where
  "sc_step s (Press c k) = (case handleKeyPress s c k of Inl _ \<Rightarrow> s | Inr (_, s') \<Rightarrow> s')"
| "sc_step s (Release c) = snd (handleKeyRelease s c)"
| "sc_step s Reset = reset s"
| "sc_step s (SetModifiers m) = (case setModifiers s m of Inl _ \<Rightarrow> s | Inr s' \<Rightarrow> s')"

text \<open>The specification of the press/release pairing: the keys whose press was a shortcut.\<close>

fun fired_step :: "shortcut \<times> int set \<Rightarrow> sc_event \<Rightarrow> shortcut \<times> int set" where
  "fired_step (s, F) (Press c k) = (sc_step s (Press c k),
     case handleKeyPress s c k of Inr (KeyShortcut, _) \<Rightarrow> insert c F | _ \<Rightarrow> F)"
| "fired_step (s, F) (Release c) = (sc_step s (Release c), F - {c})"
| "fired_step (s, F) Reset = (sc_step s Reset, {})"
| "fired_step (s, F) (SetModifiers m) = (sc_step s (SetModifiers m), if m AND NOT 15 \<noteq> 0 then F else {})"

subsection \<open>Invariant\<close>

definition sc_inv :: "shortcut \<Rightarrow> bool" where
  "sc_inv s \<longleftrightarrow> length (keys s) \<le> sc_capacity \<and> distinct (map code (keys s)) \<and>
     (modifierMask s = 0 \<or> keys s = [] \<longrightarrow> phase s = Idle) \<and>
     (modifierMask s \<noteq> 0 \<and> keys s \<noteq> [] \<longrightarrow> phase s \<noteq> Idle) \<and>
     (phase s \<noteq> Firing \<longrightarrow> (\<forall>k\<in>set (keys s). \<not> fired k)) \<and> modifierMask s AND NOT 15 = 0"

definition fired_codes :: "sc_key list \<Rightarrow> int set" where
  "fired_codes ks = set (map code (filter fired ks))"

definition fired_inv :: "shortcut \<times> int set \<Rightarrow> bool" where
  "fired_inv p \<longleftrightarrow> sc_inv (fst p) \<and> snd p = fired_codes (keys (fst p))"

text \<open>
  When every key code always comes with the same symbol, the armed state also means that
  exactly the chosen modifiers are down.
\<close>

definition consistent :: "(int \<Rightarrow> u32) \<Rightarrow> sc_event \<Rightarrow> bool" where
  "consistent symOf e = (case e of Press c k \<Rightarrow> k = symOf c | _ \<Rightarrow> True)"

definition armed_inv :: "(int \<Rightarrow> u32) \<Rightarrow> shortcut \<Rightarrow> bool" where
  "armed_inv symOf s \<longleftrightarrow> sc_inv s \<and> (\<forall>k\<in>set (keys s). symbol k = symOf (code k)) \<and>
     (phase s = Armed \<longrightarrow> pressedMask (keys s) = modifierMask s)"

subsection \<open>The key table\<close>

lemma key_index_found:
  "key_index c ks < length ks \<longleftrightarrow> c \<in> code ` set ks"
  "key_index c ks \<le> length ks"
  "c \<in> code ` set ks \<Longrightarrow> code (ks ! key_index c ks) = c"
  by (induction ks) auto

lemma key_index_append: "c \<notin> code ` set ks \<Longrightarrow> key_index c (ks @ k # r) = (if code k = c then length ks else Suc (length ks) + key_index c r)"
  by (induction ks) auto

lemma key_table_split:
  assumes "c \<in> code ` set ks" "distinct (map code ks)"
  obtains xs k ys where "ks = xs @ k # ys" "key_index c ks = length xs" "code k = c"
    "\<forall>k\<in>set xs. code k \<noteq> c" "\<forall>k\<in>set ys. code k \<noteq> c"
proof -
  let ?i = "key_index c ks"
  have i: "?i < length ks" "code (ks ! ?i) = c" using assms(1) by (simp_all add: key_index_found)
  have ks: "ks = take ?i ks @ ks ! ?i # drop (Suc ?i) ks" using i(1) by (rule id_take_nth_drop)
  have "distinct (map code (take ?i ks @ ks ! ?i # drop (Suc ?i) ks))" using assms(2) ks by metis
  then have "\<forall>k\<in>set (take ?i ks). code k \<noteq> c" "\<forall>k\<in>set (drop (Suc ?i) ks). code k \<noteq> c"
    using i(2) by force+
  with ks i show ?thesis by (intro that [of "take ?i ks" "ks ! ?i" "drop (Suc ?i) ks"]) auto
qed

lemma remove_key_split: "remove_key (xs @ k # ys) (length xs) = xs @ (if ys = [] then [] else last ys # butlast ys)"
  by (cases ys rule: rev_cases) (auto simp: remove_key_def butlast_append)

lemma remove_key_props:
  fixes c :: int
  assumes "distinct (map code ks)"
  defines "r \<equiv> remove_key ks (key_index c ks)"
  shows "set r = {k \<in> set ks. code k \<noteq> c}" "distinct (map code r)" "length r \<le> length ks"
proof -
  have "set r = {k \<in> set ks. code k \<noteq> c} \<and> distinct (map code r) \<and> length r \<le> length ks"
  proof (cases "c \<in> code ` set ks")
    case False
    then have "\<not> key_index c ks < length ks" by (simp add: key_index_found)
    with False assms(1) show ?thesis by (auto simp: r_def remove_key_def)
  next
    case True
    obtain xs k ys where ks: "ks = xs @ k # ys" "key_index c ks = length xs" "code k = c"
      "\<forall>k\<in>set xs. code k \<noteq> c" "\<forall>k\<in>set ys. code k \<noteq> c"
      using key_table_split [OF True assms(1)] by blast
    show ?thesis
      using ks(3-5) assms(1) unfolding r_def ks(2) unfolding ks(1) remove_key_split
      by (cases ys rule: rev_cases) auto
  qed
  then show "set r = {k \<in> set ks. code k \<noteq> c}" "distinct (map code r)" "length r \<le> length ks" by auto
qed

lemma fired_codes_remove:
  assumes "distinct (map code ks)"
  shows "fired_codes (remove_key ks (key_index c ks)) = fired_codes ks - {c}"
  using remove_key_props(1) [OF assms, of c] by (auto simp: fired_codes_def)

text \<open>What noting a press does to the table.\<close>

definition noted :: "shortcut \<Rightarrow> int \<Rightarrow> u32 \<Rightarrow> shortcut \<Rightarrow> bool" where
  "noted s c y s' \<longleftrightarrow> modifierMask s' = modifierMask s \<and> phase s' = phase s \<and> keys s' \<noteq> [] \<and>
     length (keys s') \<le> sc_capacity \<and> distinct (map code (keys s')) \<and> c \<in> code ` set (keys s') \<and>
     fired_codes (keys s') = fired_codes (keys s) \<and>
     (\<forall>k\<in>set (keys s'). if code k = c then symbol k = y else k \<in> set (keys s))"

lemma note_press_noted:
  assumes "note_press s c y = Inr s'" "sc_inv s"
  shows "noted s c y s'"
proof (cases "c \<in> code ` set (keys s)")
  case False
  then have "\<not> key_index c (keys s) < length (keys s)" by (simp add: key_index_found)
  with key_index_found(2) [of c "keys s"] have "key_index c (keys s) = length (keys s)" by simp
  with assms(1) have "s' = s\<lparr>keys := keys s @ [\<lparr>code = c, symbol = y, fired = False\<rparr>]\<rparr>" "length (keys s) \<noteq> sc_capacity"
    by (auto simp: note_press_def split: if_splits)
  with False assms(2) show ?thesis by (auto simp: noted_def sc_inv_def fired_codes_def)
next
  case True
  have d: "distinct (map code (keys s))" "length (keys s) \<le> sc_capacity" using assms(2) by (auto simp: sc_inv_def)
  obtain xs k ys where ks: "keys s = xs @ k # ys" "key_index c (keys s) = length xs" "code k = c"
    "\<forall>k\<in>set xs. code k \<noteq> c" "\<forall>k\<in>set ys. code k \<noteq> c"
    using key_table_split [OF True d(1)] by blast
  then have "s' = s\<lparr>keys := xs @ k\<lparr>symbol := y\<rparr> # ys\<rparr>"
    using assms(1) by (simp add: note_press_def Let_def)
  with ks d show ?thesis by (auto simp: noted_def fired_codes_def)
qed

lemma set_fired_props:
  assumes "distinct (map code (keys s))" "c \<in> code ` set (keys s)"
  defines "s' \<equiv> set_fired s (key_index c (keys s))"
  shows "map code (keys s') = map code (keys s)" "modifierMask s' = modifierMask s" "phase s' = phase s"
    "map symbol (keys s') = map symbol (keys s)"
    "fired_codes (keys s') = insert c (fired_codes (keys s))"
proof -
  obtain xs k ys where ks: "keys s = xs @ k # ys" "key_index c (keys s) = length xs" "code k = c"
    "\<forall>k\<in>set xs. code k \<noteq> c" "\<forall>k\<in>set ys. code k \<noteq> c"
    using key_table_split [OF assms(2,1)] by blast
  have s': "s' = s\<lparr>keys := xs @ k\<lparr>fired := True\<rparr> # ys\<rparr>" by (simp add: s'_def set_fired_def ks(2)) (simp add: ks(1))
  show "map code (keys s') = map code (keys s)" "modifierMask s' = modifierMask s" "phase s' = phase s"
    "map symbol (keys s') = map symbol (keys s)" "fired_codes (keys s') = insert c (fired_codes (keys s))"
    using ks by (auto simp: s' fired_codes_def)
qed

lemma no_fired: "(\<forall>k\<in>set ks. \<not> fired k) \<longleftrightarrow> fired_codes ks = {}"
  by (auto simp: fired_codes_def)

subsection \<open>Presses\<close>

lemma press_cases:
  assumes "handleKeyPress s c y = Inr (a, s')" "sc_inv s"
  obtains (other) s1 ph where "note_press s c y = Inr s1" "a \<noteq> KeyShortcut" "s' = s1\<lparr>phase := ph\<rparr>"
      "modifierMask s = 0 \<Longrightarrow> ph = phase s" "modifierMask s \<noteq> 0 \<Longrightarrow> ph \<noteq> Idle" "ph = Firing \<longleftrightarrow> phase s = Firing"
      "ph = Armed \<Longrightarrow> modifierMask s \<noteq> 0 \<Longrightarrow> phase s = Armed \<and> keySymToModifier y AND modifierMask s = keySymToModifier y
         \<or> pressedMask (keys s1) = modifierMask s"
  | (shortcut) s1 where "note_press s c y = Inr s1" "a = KeyShortcut" "modifierMask s \<noteq> 0" "keySymToModifier y = 0"
      "phase s = Armed \<or> phase s = Firing" "s' = set_fired (s1\<lparr>phase := Firing\<rparr>) (key_index c (keys s1))"
proof -
  obtain s1 where s1: "note_press s c y = Inr s1" using assms(1)
    by (auto simp: handleKeyPress_def ebind_eq_Inr)
  have same: "modifierMask s1 = modifierMask s" "phase s1 = phase s"
    using note_press_noted [OF s1 assms(2)] by (simp_all add: noted_def)
  have self: "s1\<lparr>phase := phase s\<rparr> = s1" using same(2) by simp
  show ?thesis
  proof (cases "modifierMask s = 0")
    case True
    with assms(1) s1 same have "a = KeyNormal" "s' = s1" by (simp_all add: handleKeyPress_def)
    with True s1 self show ?thesis by (intro other [of s1 "phase s"]) auto
  next
    case mask: False
    show ?thesis
    proof (cases "keySymToModifier y = 0 \<and> (phase s = Armed \<or> phase s = Firing)")
      case True
      have id: "s1\<lparr>phase := Firing\<rparr> = s1" if "phase s = Firing" using same(2) that by simp
      show ?thesis
      proof (rule shortcut [OF s1])
        show "s' = set_fired (s1\<lparr>phase := Firing\<rparr>) (key_index c (keys s1))"
        proof (cases "phase s = Firing")
          case firing: True
          with True mask assms(1) s1 same have "s' = set_fired s1 (key_index c (keys s1))"
            by (auto simp: handleKeyPress_def Let_def)
          with id [OF firing] show ?thesis by (simp only:)
        next
          case False
          with True mask assms(1) s1 same show ?thesis by (auto simp: handleKeyPress_def Let_def)
        qed
      qed (use True mask assms(1) s1 same in \<open>auto simp: handleKeyPress_def Let_def\<close>)
    next
      case False
      have eq: "handleKeyPress s c y = (let in_set = (keySymToModifier y \<noteq> 0 \<and> keySymToModifier y AND modifierMask s = keySymToModifier y) in
        case phase s of
          Armed \<Rightarrow> if in_set then Inr (KeyNormal, s1) else Inr (KeyNormal, s1\<lparr>phase := Wedged\<rparr>)
        | Firing \<Rightarrow> Inr (KeyIgnore, s1) | Wedged \<Rightarrow> Inr (KeyNormal, s1)
        | _ \<Rightarrow> Inr (KeyNormal, s1\<lparr>phase := if \<not> in_set then Wedged
              else if pressedMask (keys s1) = modifierMask s then Armed else if phase s = Idle then Arming else phase s\<rparr>))"
        using mask False s1 same by (auto simp: handleKeyPress_def Let_def split: sc_phase.split)
      define ph where "ph = phase s'"
      have "s' = s1\<lparr>phase := ph\<rparr> \<and> a \<noteq> KeyShortcut"
        using assms(1) unfolding eq ph_def by (auto simp: Let_def same split: sc_phase.splits if_splits)
      moreover have "ph \<noteq> Idle \<and> (ph = Firing \<longleftrightarrow> phase s = Firing) \<and>
        (ph = Armed \<longrightarrow> phase s = Armed \<and> keySymToModifier y AND modifierMask s = keySymToModifier y
         \<or> pressedMask (keys s1) = modifierMask s)"
        using assms(1) same(2) unfolding eq ph_def by (auto simp: Let_def split: sc_phase.splits if_splits)
      ultimately show ?thesis using mask by (intro other [OF s1, of ph]) auto
    qed
  qed
qed

lemma press_inv:
  assumes "sc_inv s" "handleKeyPress s c y = Inr (a, s')"
  shows "sc_inv s' \<and> fired_codes (keys s') =
    (if a = KeyShortcut then insert c (fired_codes (keys s)) else fired_codes (keys s))"
  using assms(2,1)
proof (cases rule: press_cases)
  case (other s1 ph)
  have n: "noted s c y s1" by (rule note_press_noted [OF other(1) assms(1)])
  have "fired_codes (keys s) = {}" if "ph \<noteq> Firing"
    using that other(6) assms(1) by (simp add: sc_inv_def no_fired)
  with other n assms(1) show ?thesis by (auto simp: sc_inv_def noted_def no_fired)
next
  case (shortcut s1)
  have n: "noted s c y s1" by (rule note_press_noted [OF shortcut(1) assms(1)])
  let ?s = "s1\<lparr>phase := Firing\<rparr>"
  have d: "distinct (map code (keys ?s))" "c \<in> code ` set (keys ?s)" using n by (simp_all add: noted_def)
  note f = set_fired_props [OF d]
  have s': "s' = set_fired ?s (key_index c (keys ?s))" using shortcut by simp
  have len: "length (keys s') = length (keys s1)" using arg_cong [OF f(1), of length] by (simp add: s')
  then have "keys s' \<noteq> []" using n by (auto simp: noted_def)
  with f(1-3) n assms(1) shortcut(3) len have "sc_inv s'" unfolding s' sc_inv_def noted_def by simp
  with shortcut f(5) n show ?thesis unfolding s' by (simp add: noted_def)
qed

subsection \<open>Releases\<close>

lemma release_summary:
  fixes c :: int
  assumes "sc_inv s"
  defines "r \<equiv> remove_key (keys s) (key_index c (keys s))"
  shows "snd (handleKeyRelease s c) = s\<lparr>keys := r, phase := if r = [] then Idle
      else if phase s = Armed \<and> pressedMask r \<noteq> modifierMask s then Rearming else phase s\<rparr>"
    "fst (handleKeyRelease s c) = KeyShortcut \<longleftrightarrow> c \<in> fired_codes (keys s)"
    "fst (handleKeyRelease s c) = KeyUnarm \<longleftrightarrow> r = [] \<and> (phase s = Armed \<or> phase s = Rearming)"
proof -
  show "snd (handleKeyRelease s c) = s\<lparr>keys := r, phase := if r = [] then Idle
      else if phase s = Armed \<and> pressedMask r \<noteq> modifierMask s then Rearming else phase s\<rparr>"
    by (auto simp: handleKeyRelease_def r_def Let_def split: sc_phase.split)
  show "fst (handleKeyRelease s c) = KeyUnarm \<longleftrightarrow> r = [] \<and> (phase s = Armed \<or> phase s = Rearming)"
    by (auto simp: handleKeyRelease_def r_def Let_def split: sc_phase.split)
  let ?i = "key_index c (keys s)"
  have "c \<in> fired_codes (keys s) \<longleftrightarrow> ?i < length (keys s) \<and> fired (keys s ! ?i)"
  proof (cases "c \<in> code ` set (keys s)")
    case True
    then obtain xs k ys where "keys s = xs @ k # ys" "?i = length xs" "code k = c"
      "\<forall>k\<in>set xs. code k \<noteq> c" "\<forall>k\<in>set ys. code k \<noteq> c"
      using key_table_split [OF True] assms(1) by (auto simp: sc_inv_def)
    then show ?thesis by (auto simp: fired_codes_def)
  next
    case False
    then show ?thesis by (auto simp: fired_codes_def key_index_found)
  qed
  moreover have "fired_codes (keys s) = {}" if "phase s \<noteq> Firing"
    using assms(1) that by (simp add: sc_inv_def no_fired)
  ultimately show "fst (handleKeyRelease s c) = KeyShortcut \<longleftrightarrow> c \<in> fired_codes (keys s)"
    by (auto simp: handleKeyRelease_def Let_def split: sc_phase.split)
qed

lemma release_inv:
  assumes "sc_inv s"
  shows "sc_inv (snd (handleKeyRelease s c)) \<and>
    fired_codes (keys (snd (handleKeyRelease s c))) = fired_codes (keys s) - {c}"
proof -
  let ?r = "remove_key (keys s) (key_index c (keys s))"
  have d: "distinct (map code (keys s))" using assms by (simp add: sc_inv_def)
  note r = remove_key_props [OF d, of c] and f = fired_codes_remove [OF d, of c]
  have "keys s = [] \<Longrightarrow> ?r = []" by (simp add: remove_key_def)
  moreover have "length ?r \<le> sc_capacity" using r(3) assms by (simp add: sc_inv_def)
  moreover have "?r \<noteq> [] \<Longrightarrow> fired_codes ?r \<noteq> {} \<Longrightarrow> phase s = Firing"
    using assms f by (auto simp: sc_inv_def no_fired)
  moreover have "fired_codes [] = {}" by (simp add: fired_codes_def)
  ultimately show ?thesis
    using assms r(2) f unfolding release_summary(1) [OF assms] sc_inv_def no_fired
    by (cases "?r = []") auto
qed

lemma sc_step_inv:
  assumes "sc_inv s"
  shows "sc_inv (sc_step s e)"
proof (cases e)
  case (Press c k)
  then show ?thesis using assms press_inv [OF assms] by (auto split: sum.split)
next
  case (Release c)
  then show ?thesis using release_inv [OF assms] by simp
next
  case Reset
  with assms show ?thesis by (simp add: reset_def sc_inv_def)
next
  case (SetModifiers m)
  with assms show ?thesis by (auto simp: setModifiers_def reset_def sc_inv_def)
qed

lemma fired_step_inv:
  assumes "fired_inv p"
  shows "fired_inv (fired_step p e)"
proof -
  obtain s F where p: "p = (s, F)" by (cases p)
  have s: "sc_inv s" "F = fired_codes (keys s)" using assms by (simp_all add: p fired_inv_def)
  show ?thesis
  proof (cases e)
    case (Press c k)
    show ?thesis
    proof (cases "handleKeyPress s c k")
      case (Inl x)
      with Press s p show ?thesis by (simp add: fired_inv_def)
    next
      case (Inr q)
      obtain a s' where q: "q = (a, s')" by (cases q)
      with press_inv [OF s(1)] Inr have "sc_inv s' \<and> fired_codes (keys s') =
        (if a = KeyShortcut then insert c (fired_codes (keys s)) else fired_codes (keys s))" by blast
      with Press s(2) p Inr q show ?thesis by (cases a) (auto simp: fired_inv_def)
    qed
  next
    case (Release c)
    with release_inv [OF s(1)] s(2) p show ?thesis by (simp add: fired_inv_def)
  next
    case Reset
    with sc_step_inv [OF s(1), of Reset] p show ?thesis by (simp add: fired_inv_def reset_def fired_codes_def)
  next
    case (SetModifiers m)
    with sc_step_inv [OF s(1), of "SetModifiers m"] s p show ?thesis
      by (auto simp: fired_inv_def setModifiers_def reset_def fired_codes_def)
  qed
qed

interpretation sc: invariant_system sc_step sc_inv
  by unfold_locales (rule sc_step_inv)

interpretation sc_fired: invariant_system fired_step fired_inv
  by unfold_locales (rule fired_step_inv)

lemma new_shortcut_inv: "sc_inv new_shortcut"
  by (simp add: new_shortcut_def sc_inv_def sc_capacity_def)

lemma fired_run_fst: "fst (run fired_step (s, F) es) = run sc_step s es"
proof (induction es arbitrary: s F)
  case (Cons e es)
  obtain F' where "fired_step (s, F) e = (sc_step s e, F')" by (cases e) auto
  with Cons show ?case by simp
qed simp

subsection \<open>The armed state\<close>

lemma pressedMask_acc:
  "foldl (\<lambda>m k. m OR keySymToModifier (symbol k)) a ks = a OR pressedMask ks"
  unfolding pressedMask_def
proof (induction ks rule: rev_induct)
  case (snoc k ks)
  then show ?case by (simp only: foldl_append foldl.simps or.assoc)
qed simp

lemma pressedMask_append: "pressedMask (xs @ ys) = pressedMask xs OR pressedMask ys"
proof -
  have "pressedMask (xs @ ys) = foldl (\<lambda>m k. m OR keySymToModifier (symbol k)) (pressedMask xs) ys"
    by (simp only: pressedMask_def foldl_append)
  then show ?thesis by (simp only: pressedMask_acc)
qed

lemma pressedMask_symbols:
  assumes "map symbol ks = map symbol ks'"
  shows "pressedMask ks = pressedMask ks'"
proof -
  have "pressedMask l = foldl (\<lambda>m y. m OR keySymToModifier y) 0 (map symbol l)" for l
    by (simp only: pressedMask_def foldl_map)
  then show ?thesis using assms by (simp only:)
qed

lemma noted_consistent:
  assumes "noted s c (symOf c) s1" "\<forall>k\<in>set (keys s). symbol k = symOf (code k)"
  shows "\<forall>k\<in>set (keys s1). symbol k = symOf (code k)"
proof
  fix k assume "k \<in> set (keys s1)"
  then have "if code k = c then symbol k = symOf c else k \<in> set (keys s)" using assms(1) by (simp add: noted_def)
  then show "symbol k = symOf (code k)" using assms(2) by (cases "code k = c") auto
qed

lemma note_press_mask:
  assumes "note_press s c y = Inr s'" "sc_inv s" "\<forall>k\<in>set (keys s). symbol k = symOf (code k)" "y = symOf c"
  shows "pressedMask (keys s') = pressedMask (keys s) OR keySymToModifier y \<or> pressedMask (keys s') = pressedMask (keys s)"
proof (cases "c \<in> code ` set (keys s)")
  case False
  then have "\<not> key_index c (keys s) < length (keys s)" by (simp add: key_index_found)
  with key_index_found(2) [of c "keys s"] have "key_index c (keys s) = length (keys s)" by simp
  with assms(1) have "keys s' = keys s @ [\<lparr>code = c, symbol = y, fired = False\<rparr>]"
    by (auto simp: note_press_def split: if_splits)
  moreover have "pressedMask [\<lparr>code = c, symbol = y, fired = False\<rparr>] = keySymToModifier y"
    by (simp add: pressedMask_def)
  ultimately have "pressedMask (keys s') = pressedMask (keys s) OR keySymToModifier y"
    by (simp only: pressedMask_append)
  then show ?thesis by (rule disjI1)
next
  case True
  have d: "distinct (map code (keys s))" using assms(2) by (simp add: sc_inv_def)
  obtain xs k ys where ks: "keys s = xs @ k # ys" "key_index c (keys s) = length xs" "code k = c"
    by (rule key_table_split [OF True d])
  then have "keys s' = xs @ k\<lparr>symbol := y\<rparr> # ys" using assms(1) by (auto simp: note_press_def Let_def)
  moreover have "symbol k = y" using assms(3,4) ks by simp
  ultimately have "map symbol (keys s') = map symbol (keys s)" using ks(1) by simp
  then show ?thesis by (metis pressedMask_symbols)
qed

lemma armed_step:
  assumes "armed_inv symOf s" "consistent symOf e"
  shows "armed_inv symOf (sc_step s e)"
proof -
  have s: "sc_inv s" "\<forall>k\<in>set (keys s). symbol k = symOf (code k)"
    "phase s = Armed \<Longrightarrow> pressedMask (keys s) = modifierMask s"
    using assms(1) by (auto simp: armed_inv_def)
  have inv: "sc_inv (sc_step s e)" by (rule sc_step_inv [OF s(1)])
  have "(\<forall>k\<in>set (keys (sc_step s e)). symbol k = symOf (code k)) \<and>
      (phase (sc_step s e) = Armed \<longrightarrow> pressedMask (keys (sc_step s e)) = modifierMask (sc_step s e))"
  proof (cases e)
    case (Press c y)
    have y: "y = symOf c" using assms(2) Press by (simp add: consistent_def)
    show ?thesis
    proof (cases "handleKeyPress s c y")
      case (Inl x)
      with Press s show ?thesis by simp
    next
      case (Inr q)
      obtain a s' where q: "q = (a, s')" by (cases q)
      then have st: "sc_step s e = s'" using Press Inr by simp
      from Inr q have hp: "handleKeyPress s c y = Inr (a, s')" by simp
      from hp s(1) show ?thesis
      proof (cases rule: press_cases)
        case (other s1 ph)
        have n: "noted s c y s1" by (rule note_press_noted [OF other(1) s(1)])
        then have sy: "\<forall>k\<in>set (keys s1). symbol k = symOf (code k)"
          using noted_consistent [of s c symOf s1] s(2) y by simp
        have "pressedMask (keys s1) = modifierMask s" if "ph = Armed"
        proof -
          have m: "modifierMask s \<noteq> 0" using that other(4) s(1) by (auto simp: sc_inv_def)
          from other(7) [OF that m] show ?thesis
          proof
            assume "phase s = Armed \<and> keySymToModifier y AND modifierMask s = keySymToModifier y"
            moreover have "modifierMask s OR keySymToModifier y = modifierMask s"
              if "keySymToModifier y AND modifierMask s = keySymToModifier y"
              using that by (rule or_absorb)
            ultimately show ?thesis using note_press_mask [OF other(1) s(1,2) y] s(3) by argo
          qed
        qed
        with sy n other(3) show ?thesis by (simp add: st noted_def)
      next
        case (shortcut s1)
        have n: "noted s c y s1" by (rule note_press_noted [OF shortcut(1) s(1)])
        let ?s = "s1\<lparr>phase := Firing\<rparr>"
        have d: "distinct (map code (keys ?s))" "c \<in> code ` set (keys ?s)" using n by (simp_all add: noted_def)
        have s': "s' = set_fired ?s (key_index c (keys ?s))" using shortcut by simp
        have sy: "map symbol (keys s1) = map (\<lambda>k. symOf (code k)) (keys s1)"
          using noted_consistent [of s c symOf s1] s(2) y n by simp
        have "map symbol (keys s') = map symOf (map code (keys s'))"
          using sy set_fired_props(1,4) [OF d] by (simp add: s' comp_def)
        then have "\<forall>k\<in>set (keys s'). symbol k = symOf (code k)" by (auto simp: map_eq_conv)
        moreover have "phase s' = Firing" using set_fired_props(3) [OF d] by (simp add: s')
        ultimately show ?thesis by (simp add: st)
      qed
    qed
  next
    case (Release c)
    have d: "distinct (map code (keys s))" using s(1) by (simp add: sc_inv_def)
    show ?thesis using Release s remove_key_props(1) [OF d, of c]
      by (auto simp: release_summary(1) [OF s(1)] split: if_splits)
  next
    case Reset
    then show ?thesis by (simp add: reset_def)
  next
    case (SetModifiers m)
    with s show ?thesis by (auto simp: setModifiers_def reset_def)
  qed
  with inv show ?thesis by (simp add: armed_inv_def)
qed

lemma armed_run:
  assumes "armed_inv symOf s" "\<forall>e\<in>set es. consistent symOf e"
  shows "armed_inv symOf (run sc_step s es)"
  using assms by (induction es arbitrary: s) (auto intro: armed_step)

subsection \<open>Properties\<close>


text \<open>
  C39: A shortcut fires only under its modifiers. If every key code always comes with the
  same symbol, then after any history a press is reported as the first \<open>KeyShortcut\<close> only
  if the modifiers held down are exactly the configured ones, at least one is configured,
  and the key is not a modifier itself.
\<close>

theorem shortcut_needs_modifiers:
  assumes "\<forall>e\<in>set es. consistent symOf e" and "run sc_step new_shortcut es = s"
    and "handleKeyPress s c (symOf c) = Inr (KeyShortcut, s')" and "phase s \<noteq> Firing"
  shows "pressedMask (keys s) = modifierMask s \<and> modifierMask s \<noteq> 0 \<and> keySymToModifier (symOf c) = 0 \<and>
    phase s' = Firing"
proof -
  have "armed_inv symOf new_shortcut"
    using new_shortcut_inv by (simp add: armed_inv_def) (simp add: new_shortcut_def)
  then have inv: "armed_inv symOf s" using armed_run [OF _ assms(1)] assms(2) by blast
  then have s: "sc_inv s" by (simp add: armed_inv_def)
  from assms(3) s show ?thesis
  proof (cases rule: press_cases)
    case other
    then show ?thesis by simp
  next
    case (shortcut s1)
    have "noted s c (symOf c) s1" by (rule note_press_noted [OF shortcut(1) s])
    then have "phase s' = Firing" using shortcut(6) by (simp add: set_fired_def)
    with shortcut inv assms(4) show ?thesis by (auto simp: armed_inv_def)
  qed
qed

text \<open>
  Nothing is left over between strokes. Under any sequence of calls the key table stays
  within its 1024 entries with each key code at most once, and as soon as the last key is
  released the classifier is exactly as after a reset, whatever happened before.
\<close>

theorem shortcut_returns_to_idle:
  "let s = run sc_step new_shortcut es in
     length (keys s) \<le> 1024 \<and> distinct (map code (keys s)) \<and> (keys s = [] \<longrightarrow> s = reset s)"
proof -
  have "sc_inv (run sc_step new_shortcut es)" by (rule sc.run_inv [OF new_shortcut_inv])
  then show ?thesis by (auto simp: sc_inv_def sc_capacity_def reset_def Let_def)
qed

definition demo_symbols :: "int \<Rightarrow> u32" where
  "demo_symbols c = (if c = 1 then 0xffe3 else 0x61)"

theorem shortcut_needs_modifiers_witness:
  "\<exists>s s'. run sc_step new_shortcut [SetModifiers 1, Press 1 0xffe3] = s \<and>
     handleKeyPress s 2 (demo_symbols 2) = Inr (KeyShortcut, s') \<and> phase s = Armed \<and>
     pressedMask (keys s) = modifierMask s \<and> phase s' = Firing"
proof -
  let ?es = "[SetModifiers 1, Press 1 0xffe3]"
  define s where "s = run sc_step new_shortcut ?es"
  have s: "s = \<lparr>modifierMask = 1, phase = Armed, keys = [\<lparr>code = 1, symbol = 0xffe3, fired = False\<rparr>]\<rparr>"
    unfolding s_def by code_simp
  obtain s' where s': "handleKeyPress s 2 (demo_symbols 2) = Inr (KeyShortcut, s')"
    by (simp add: s handleKeyPress_def note_press_def sc_capacity_def demo_symbols_def keySymToModifier_def)
  have c: "\<forall>e\<in>set ?es. consistent demo_symbols e" by (simp add: consistent_def demo_symbols_def)
  have p: "phase s \<noteq> Firing" by (simp add: s)
  from shortcut_needs_modifiers [OF c s_def [symmetric] s' p]
  have "pressedMask (keys s) = modifierMask s \<and> phase s' = Firing" by blast
  then show ?thesis using s' s_def [symmetric] by (intro exI [of _ s] exI [of _ s']) (simp add: s)
qed

theorem shortcut_returns_to_idle_witness:
  "let s = run sc_step new_shortcut [SetModifiers 1, Press 1 0xffe3, Release 1] in
     keys s = [] \<and> s = reset s \<and> modifierMask s = 1"
proof -
  define s where "s = run sc_step new_shortcut [SetModifiers 1, Press 1 0xffe3, Release 1]"
  have k: "keys s = [] \<and> modifierMask s = 1" unfolding s_def by code_simp
  from shortcut_returns_to_idle [of "[SetModifiers 1, Press 1 0xffe3, Release 1]"] k
  have "s = reset s" unfolding s_def [symmetric] Let_def by blast
  with k show ?thesis unfolding s_def [symmetric] Let_def by blast
qed

end
