(* ===== verification/Session_Scheduler.thy ===== *)
theory Session_Scheduler
  imports Prelude "HOL-Library.Multiset"
begin

text \<open>
  The one-shot timers of a session, \<open>viewer/core/SessionScheduler.cxx\<close>. Producers schedule
  and cancel under the mutex; the single executor dequeues due tasks under it and runs their
  callbacks outside. What a callback does to its scheduler is an argument of the model: the
  calls it makes, and whether it throws.
\<close>

subsection \<open>State\<close>

record 'c task =
  tid :: u64
  deadline :: int
  callback :: 'c

record 'c scheduler =
  sch_capacity :: nat
  tasks :: "'c task list"
  nextId :: u64
  stopped :: bool
  dispatching :: bool

datatype sched_error = InvalidTimerCapacity | EmptyCallback | ZeroBudget | ReentrantDispatch | CallbackThrew

definition new_scheduler :: "nat \<Rightarrow> sched_error + 'c scheduler" where
  "new_scheduler cap =
     (if cap = 0 \<or> cap > 4096 then Inl InvalidTimerCapacity
      else Inr \<lparr>sch_capacity = cap, tasks = [], nextId = 0, stopped = False, dispatching = False\<rparr>)"

subsection \<open>Operations\<close>

text \<open>
  \<open>std::min_element\<close>: the loop keeps the index and deadline of the best task so far and
  replaces it only by a strictly smaller one.
\<close>

fun min_loop :: "nat \<Rightarrow> int \<Rightarrow> nat \<Rightarrow> 'c task list \<Rightarrow> nat" where
  "min_loop best d i [] = best"
| "min_loop best d i (t # ts) =
     (if deadline t < d then min_loop i (deadline t) (Suc i) ts else min_loop best d (Suc i) ts)"

definition earliest :: "'c task list \<Rightarrow> nat option" where
  "earliest ts = (case ts of [] \<Rightarrow> None | t # r \<Rightarrow> Some (min_loop 0 (deadline t) 1 r))"

definition remove_at :: "nat \<Rightarrow> 'a list \<Rightarrow> 'a list" where
  "remove_at i xs = take i xs @ drop (Suc i) xs"

text \<open>An empty \<open>std::function\<close> is \<open>None\<close>; the token zero means not accepted.\<close>

definition scheduleAt :: "'c scheduler \<Rightarrow> int \<Rightarrow> 'c option \<Rightarrow> sched_error + (u64 \<times> 'c scheduler)" where
  "scheduleAt s due cb = (case cb of
       None \<Rightarrow> Inl EmptyCallback
     | Some c \<Rightarrow>
         if stopped s \<or> length (tasks s) = sch_capacity s \<or> nextId s = - 1 then Inr (0, s)
         else let i = nextId s + 1
              in Inr (i, s\<lparr>tasks := tasks s @ [\<lparr>tid = i, deadline = due, callback = c\<rparr>], nextId := i\<rparr>))"

fun find_task :: "u64 \<Rightarrow> 'c task list \<Rightarrow> nat option" where
  "find_task i [] = None"
| "find_task i (t # ts) = (if tid t = i then Some 0 else map_option Suc (find_task i ts))"

definition cancel :: "'c scheduler \<Rightarrow> u64 \<Rightarrow> bool \<times> 'c scheduler" where
  "cancel s i = (case find_task i (tasks s) of
       None \<Rightarrow> (False, s)
     | Some n \<Rightarrow> (True, s\<lparr>tasks := remove_at n (tasks s)\<rparr>))"

definition token_pending :: "'c scheduler \<Rightarrow> u64 \<Rightarrow> bool" where
  "token_pending s i = list_ex (\<lambda>t. tid t = i) (tasks s)"

definition nextDeadline :: "'c scheduler \<Rightarrow> int option" where
  "nextDeadline s = map_option (\<lambda>i. deadline (tasks s ! i)) (earliest (tasks s))"

definition pending_count :: "'c scheduler \<Rightarrow> nat" where
  "pending_count s = length (tasks s)"

definition cancelAll :: "'c scheduler \<Rightarrow> 'c scheduler" where
  "cancelAll s = s\<lparr>tasks := []\<rparr>"

definition shutdown :: "'c scheduler \<Rightarrow> 'c scheduler" where
  "shutdown s = (if stopped s then s else s\<lparr>stopped := True, tasks := []\<rparr>)"

text \<open>The calls a producer or a callback can make, one atomic operation each.\<close>

datatype 'c call = Schedule int "'c option" | Cancel u64 | CancelAll | Shutdown

fun sched_call :: "'c scheduler \<Rightarrow> 'c call \<Rightarrow> 'c scheduler" where
  "sched_call s (Schedule due cb) = (case scheduleAt s due cb of Inl _ \<Rightarrow> s | Inr (_, s') \<Rightarrow> s')"
| "sched_call s (Cancel i) = snd (cancel s i)"
| "sched_call s CancelAll = cancelAll s"
| "sched_call s Shutdown = shutdown s"

text \<open>
  \<open>body c s\<close> is what the callback \<open>c\<close>, started in scheduler state \<open>s\<close>, does: its calls,
  and whether it ends by throwing. The list of the tasks run is kept beside the count.
\<close>

fun dispatch_loop :: "('c \<Rightarrow> 'c scheduler \<Rightarrow> 'c call list \<times> bool) \<Rightarrow> int \<Rightarrow> nat \<Rightarrow> 'c scheduler \<Rightarrow>
    bool \<times> 'c task list \<times> 'c scheduler" where
  "dispatch_loop body now 0 s = (False, [], s)"
| "dispatch_loop body now (Suc budget) s =
     (case earliest (tasks s) of
        None \<Rightarrow> (False, [], s)
      | Some i \<Rightarrow>
          if deadline (tasks s ! i) > now then (False, [], s)
          else let t = tasks s ! i;
                   s = s\<lparr>tasks := remove_at i (tasks s)\<rparr>;
                   (calls, threw) = body (callback t) s;
                   s = run sched_call s calls
               in if threw then (True, [t], s)
                  else let (threw, ran, s) = dispatch_loop body now budget s in (threw, t # ran, s))"

definition dispatchDue :: "('c \<Rightarrow> 'c scheduler \<Rightarrow> 'c call list \<times> bool) \<Rightarrow> int \<Rightarrow> nat \<Rightarrow> 'c scheduler \<Rightarrow>
    (sched_error + nat) \<times> 'c task list \<times> 'c scheduler" where
  "dispatchDue body now budget s =
     (if budget = 0 then (Inl ZeroBudget, [], s)
      else if dispatching s then (Inl ReentrantDispatch, [], s)
      else let (threw, ran, s) = dispatch_loop body now budget (s\<lparr>dispatching := True\<rparr>)
           in (if threw then Inl CallbackThrew else Inr (length ran), ran, s\<lparr>dispatching := False\<rparr>))"

subsection \<open>The earliest task\<close>

lemma min_loop_min:
  assumes "best < i" "xs ! best = t0" "deadline t0 = d" "length xs = i"
    and "\<forall>x\<in>set (take best xs). d < deadline x" "\<forall>x\<in>set xs. d \<le> deadline x"
    and "n = min_loop best d i ts"
  shows "n < length (xs @ ts) \<and> (\<forall>x\<in>set (take n (xs @ ts)). deadline ((xs @ ts) ! n) < deadline x) \<and>
    (\<forall>x\<in>set (xs @ ts). deadline ((xs @ ts) ! n) \<le> deadline x)"
  using assms
proof (induction ts arbitrary: best d i xs t0 n)
  case Nil
  then show ?case by simp
next
  case (Cons t ts)
  show ?case
  proof (cases "deadline t < d")
    case True
    have "\<forall>x\<in>set (take i (xs @ [t])). deadline t < deadline x" "\<forall>x\<in>set (xs @ [t]). deadline t \<le> deadline x"
      using True Cons.prems(4,6) by auto
    with Cons.IH [of i "Suc i" "xs @ [t]" t "deadline t" n] Cons.prems(4) True show ?thesis
      unfolding Cons.prems(7) by (simp add: nth_append)
  next
    case False
    have "\<forall>x\<in>set (take best (xs @ [t])). d < deadline x" "\<forall>x\<in>set (xs @ [t]). d \<le> deadline x"
      using False Cons.prems by auto
    with Cons.IH [of best "Suc i" "xs @ [t]" t0 d n] Cons.prems False show ?thesis
      unfolding Cons.prems(7) by (simp add: nth_append)
  qed
qed

lemma earliest_None [simp]: "earliest ts = None \<longleftrightarrow> ts = []"
  by (simp add: earliest_def split: list.split)

lemma earliest_Nil [simp]: "earliest [] = None"
  by simp

text \<open>The earliest task is due first, and among tasks with its deadline it came first.\<close>

lemma earliest_split:
  assumes "earliest ts = Some i"
  obtains xs ys where "ts = xs @ ts ! i # ys" "length xs = i" "remove_at i ts = xs @ ys"
    "\<forall>x\<in>set xs. deadline (ts ! i) < deadline x" "\<forall>y\<in>set ys. deadline (ts ! i) \<le> deadline y"
proof -
  obtain t r where ts: "ts = t # r" "i = min_loop 0 (deadline t) 1 r"
    using assms by (auto simp: earliest_def split: list.splits)
  have *: "i < length ts \<and> (\<forall>x\<in>set (take i ts). deadline (ts ! i) < deadline x) \<and>
     (\<forall>x\<in>set ts. deadline (ts ! i) \<le> deadline x)"
    using min_loop_min [of 0 1 "[t]" t "deadline t" i r] by (simp add: ts)
  have "ts = take i ts @ ts ! i # drop (Suc i) ts" by (rule id_take_nth_drop) (use * in simp)
  with * show ?thesis
    by (intro that [of "take i ts" "drop (Suc i) ts"]) (auto simp: remove_at_def dest: in_set_dropD)
qed

subsection \<open>Invariant\<close>

definition sched_inv :: "'c scheduler \<Rightarrow> bool" where
  "sched_inv s \<longleftrightarrow> length (tasks s) \<le> sch_capacity s \<and> distinct (map tid (tasks s)) \<and>
     (\<forall>t\<in>set (tasks s). 0 < unat (tid t) \<and> unat (tid t) \<le> unat (nextId s)) \<and>
     (stopped s \<longrightarrow> tasks s = [])"

abbreviation issued :: "'c scheduler \<Rightarrow> nat" where
  "issued s \<equiv> unat (nextId s)"

abbreviation live_ids :: "'c scheduler \<Rightarrow> u64 set" where
  "live_ids s \<equiv> tid ` set (tasks s)"

text \<open>What every operation does: it keeps the invariant, moves the counter up, and adds only new ids.\<close>

definition advances :: "'c scheduler \<Rightarrow> 'c scheduler \<Rightarrow> bool" where
  "advances s s' \<longleftrightarrow> sched_inv s' \<and> issued s \<le> issued s' \<and> sch_capacity s' = sch_capacity s \<and>
     (\<forall>i\<in>live_ids s'. i \<in> live_ids s \<or> issued s < unat i)"

lemma advances_refl: "sched_inv s \<Longrightarrow> advances s s"
  by (simp add: advances_def)

lemma advances_trans: "advances s s1 \<Longrightarrow> advances s1 s2 \<Longrightarrow> advances s s2"
  by (auto simp: advances_def image_iff) (metis image_eqI le_trans not_le)+

lemma remove_at_split: "remove_at (length xs) (xs @ t # ys) = xs @ ys"
  by (simp add: remove_at_def)

lemma remove_advances:
  assumes "sched_inv s" "tasks s = xs @ t # ys"
  shows "advances s (s\<lparr>tasks := xs @ ys\<rparr>)"
  using assms by (auto simp: advances_def sched_inv_def)

lemma find_task_split:
  assumes "find_task i ts = Some n"
  obtains xs t ys where "ts = xs @ t # ys" "length xs = n" "tid t = i"
  using assms
proof (induction ts arbitrary: n thesis)
  case (Cons u ts)
  show ?case
  proof (cases "tid u = i")
    case True
    with Cons.prems(2) show ?thesis by (intro Cons.prems(1) [of "[]" u ts]) auto
  next
    case False
    with Cons.prems(2) obtain m where m: "find_task i ts = Some m" "n = Suc m" by auto
    from Cons.IH [OF _ m(1)] obtain xs t ys where "ts = xs @ t # ys" "length xs = m" "tid t = i" by blast
    with m(2) show ?thesis by (intro Cons.prems(1) [of "u # xs" t ys]) auto
  qed
qed simp

lemma find_task_None: "find_task i ts = None \<longleftrightarrow> i \<notin> tid ` set ts"
  by (induction ts) auto

lemma cancel_advances:
  assumes "sched_inv s"
  shows "advances s (snd (cancel s i))"
proof (cases "find_task i (tasks s)")
  case None
  with assms show ?thesis by (simp add: cancel_def advances_refl)
next
  case (Some n)
  obtain xs t ys where "tasks s = xs @ t # ys" "length xs = n" by (rule find_task_split [OF Some])
  with Some remove_advances [OF assms] show ?thesis by (auto simp: cancel_def remove_at_split)
qed

lemma schedule_cases:
  assumes "scheduleAt s due cb = Inr (i, s')"
  obtains (refused) "i = 0" "s' = s"
  | (accepted) c where "cb = Some c" "\<not> stopped s" "length (tasks s) \<noteq> sch_capacity s" "nextId s \<noteq> - 1" "i = nextId s + 1"
      "s' = s\<lparr>tasks := tasks s @ [\<lparr>tid = i, deadline = due, callback = c\<rparr>], nextId := i\<rparr>"
proof -
  obtain c where c: "cb = Some c" using assms by (cases cb) (simp_all add: scheduleAt_def)
  show ?thesis
  proof (cases "stopped s \<or> length (tasks s) = sch_capacity s \<or> nextId s = - 1")
    case True
    with assms c show ?thesis by (intro refused) (simp_all add: scheduleAt_def)
  next
    case False
    let ?i = "nextId s + 1"
    have "Inr (i, s') = scheduleAt s due cb" using assms by (rule sym)
    also have "\<dots> = Inr (?i, s\<lparr>tasks := tasks s @ [\<lparr>tid = ?i, deadline = due, callback = c\<rparr>], nextId := ?i\<rparr>)"
      using False c by (simp add: scheduleAt_def Let_def)
    finally have i: "i = ?i" and s': "s' = s\<lparr>tasks := tasks s @ [\<lparr>tid = ?i, deadline = due, callback = c\<rparr>], nextId := ?i\<rparr>"
      by simp_all
    show ?thesis
    proof (rule accepted [OF c _ _ _ i])
      show "s' = s\<lparr>tasks := tasks s @ [\<lparr>tid = i, deadline = due, callback = c\<rparr>], nextId := i\<rparr>"
        unfolding i by (rule s')
    qed (use False in auto)
  qed
qed

lemma schedule_advances:
  assumes "sched_inv s" "scheduleAt s due cb = Inr (i, s')"
  shows "advances s s'"
  using assms(2)
proof (cases rule: schedule_cases)
  case refused
  with assms(1) show ?thesis by (simp add: advances_refl)
next
  case (accepted c)
  have n: "unat i = issued s + 1" using next_id [OF accepted(4)] accepted(5) by simp
  have "i \<notin> live_ids s" using assms(1) n by (auto simp: sched_inv_def)
  with accepted(2,3,6) n assms(1) show ?thesis by (auto simp: advances_def sched_inv_def)
qed

lemma sched_call_advances:
  assumes "sched_inv s"
  shows "advances s (sched_call s c)"
proof (cases c)
  case (Schedule due cb)
  with schedule_advances [OF assms] assms show ?thesis by (auto simp: advances_refl split: sum.split)
next
  case (Cancel i)
  with cancel_advances [OF assms] show ?thesis by simp
qed (use assms in \<open>auto simp: advances_def sched_inv_def cancelAll_def shutdown_def\<close>)

lemma calls_advance: "sched_inv s \<Longrightarrow> advances s (run sched_call s cs)"
proof (induction cs arbitrary: s)
  case (Cons c cs)
  have "advances s (sched_call s c)" by (rule sched_call_advances [OF Cons.prems])
  moreover from this have "advances (sched_call s c) (run sched_call (sched_call s c) cs)"
    by (intro Cons.IH) (simp add: advances_def)
  ultimately show ?case using advances_trans by fastforce
qed (simp add: advances_refl)

text \<open>One turn of the dispatch loop.\<close>

lemma dispatch_turn:
  assumes "sched_inv s" "earliest (tasks s) = Some i"
  defines "t \<equiv> tasks s ! i"
  defines "s1 \<equiv> s\<lparr>tasks := remove_at i (tasks s)\<rparr>"
  shows "advances s (run sched_call s1 cs)" "t \<in> set (tasks s)" "tid t \<notin> live_ids s1"
proof -
  obtain xs ys where sp: "tasks s = xs @ t # ys" "remove_at i (tasks s) = xs @ ys"
    using earliest_split [OF assms(2)] unfolding t_def by metis
  have a: "advances s s1" using remove_advances [OF assms(1) sp(1)] by (simp add: s1_def sp(2))
  then have "sched_inv s1" by (simp add: advances_def)
  with a show "advances s (run sched_call s1 cs)" by (blast intro: advances_trans calls_advance)
  show "t \<in> set (tasks s)" by (simp add: sp(1))
  have "tasks s1 = xs @ ys" by (simp add: s1_def sp(2))
  then show "tid t \<notin> live_ids s1" using assms(1) sp(1) by (auto simp: sched_inv_def)
qed

subsection \<open>Dispatching\<close>

text \<open>The tasks run are due, had not been cancelled, and leave a scheduler that has only advanced.\<close>

lemma dispatch_loop_advances:
  assumes "sched_inv s" "dispatch_loop body now budget s = (threw, rs, s')"
  shows "advances s s' \<and> length rs \<le> budget \<and> (\<forall>t\<in>set rs. deadline t \<le> now) \<and> distinct (map tid rs) \<and>
    (\<forall>t\<in>set rs. (tid t \<in> live_ids s \<or> issued s < unat (tid t)) \<and> tid t \<notin> live_ids s' \<and> unat (tid t) \<le> issued s')"
  using assms
proof (induction budget arbitrary: s threw rs s')
  case 0
  then show ?case by (simp add: advances_refl)
next
  case (Suc budget)
  show ?case
  proof (cases "\<exists>i. earliest (tasks s) = Some i \<and> deadline (tasks s ! i) \<le> now")
    case False
    with Suc.prems(2) have "s' = s" "rs = []" by (auto split: option.splits if_splits)
    with Suc.prems(1) show ?thesis by (simp add: advances_refl)
  next
    case True
    then obtain i where i: "earliest (tasks s) = Some i" "deadline (tasks s ! i) \<le> now" by blast
    let ?t = "tasks s ! i" and ?s1 = "s\<lparr>tasks := remove_at i (tasks s)\<rparr>"
    obtain calls th where b: "body (callback ?t) ?s1 = (calls, th)" by fastforce
    define s2 where "s2 = run sched_call ?s1 calls"
    have adv: "advances s s2" and t: "?t \<in> set (tasks s)" "tid ?t \<notin> live_ids ?s1"
      using dispatch_turn [OF Suc.prems(1) i(1)] by (simp_all add: s2_def)
    have inv1: "sched_inv ?s1" using dispatch_turn(1) [OF Suc.prems(1) i(1), of "[]"] by (simp add: advances_def)
    have tid: "unat (tid ?t) \<le> issued s" using Suc.prems(1) t(1) by (simp add: sched_inv_def)
    have gone: "tid ?t \<notin> live_ids s2" "unat (tid ?t) \<le> issued s2"
      using calls_advance [OF inv1, of calls] t(2) tid adv by (auto simp: s2_def advances_def)
    obtain th' rs' s3 where rest: "dispatch_loop body now budget s2 = (th', rs', s3)" by (metis prod_cases3)
    have out: "(threw, rs, s') = (if th then (True, [?t], s2) else (th', ?t # rs', s3))"
      using Suc.prems(2) i b rest by (simp add: Let_def s2_def split: if_splits)
    have inv2: "sched_inv s2" using adv by (simp add: advances_def)
    have ih: "advances s2 s3 \<and> length rs' \<le> budget \<and> (\<forall>t\<in>set rs'. deadline t \<le> now) \<and> distinct (map tid rs') \<and>
        (\<forall>t\<in>set rs'. (tid t \<in> live_ids s2 \<or> issued s2 < unat (tid t)) \<and> tid t \<notin> live_ids s3 \<and> unat (tid t) \<le> issued s3)"
      by (rule Suc.IH [OF inv2 rest])
    show ?thesis
    proof (cases th)
      case True
      with out adv i(2) t gone show ?thesis by simp
    next
      case False
      then have o: "rs = ?t # rs'" "s' = s3" using out by simp_all
      have "advances s s3" using adv ih advances_trans by blast
      moreover have "tid ?t \<notin> tid ` set rs'"
      proof
        assume "tid ?t \<in> tid ` set rs'"
        then obtain u where u: "u \<in> set rs'" "tid u = tid ?t" by auto
        with ih gone show False by (metis image_eqI leD)
      qed
      moreover have "tid ?t \<notin> live_ids s3 \<and> unat (tid ?t) \<le> issued s3"
        using ih gone by (meson advances_def leD le_trans)
      moreover have "tid u \<in> live_ids s \<or> issued s < unat (tid u)" if u: "u \<in> set rs'" for u
        using adv ih u by (meson advances_def le_less_trans)
      ultimately show ?thesis using ih i(2) t(1) by (simp add: o)
    qed
  qed
qed

text \<open>The executor's own events beside the calls: a dispatch with some callbacks.\<close>

datatype 'c sched_event = Call "'c call" | Dispatch "'c \<Rightarrow> 'c scheduler \<Rightarrow> 'c call list \<times> bool" int nat

fun sched_step :: "'c scheduler \<Rightarrow> 'c sched_event \<Rightarrow> 'c scheduler" where
  "sched_step s (Call c) = sched_call s c"
| "sched_step s (Dispatch body now budget) = snd (snd (dispatchDue body now budget s))"

lemma dispatchDue_cases:
  assumes "dispatchDue body now budget s = (r, rs, s')"
  obtains (refused) "rs = []" "s' = s" "\<exists>e. r = Inl e"
  | (ran) threw s1 where "dispatch_loop body now budget (s\<lparr>dispatching := True\<rparr>) = (threw, rs, s1)"
      "s' = s1\<lparr>dispatching := False\<rparr>" "r = (if threw then Inl CallbackThrew else Inr (length rs))" "\<not> dispatching s"
proof (cases "budget = 0 \<or> dispatching s")
  case True
  with assms show ?thesis by (intro refused) (auto simp: dispatchDue_def split: if_splits)
next
  case False
  obtain th ts s1 where l: "dispatch_loop body now budget (s\<lparr>dispatching := True\<rparr>) = (th, ts, s1)" by (metis prod_cases3)
  with False assms show ?thesis by (intro ran [of th s1]) (auto simp: dispatchDue_def)
qed

lemma dispatching_advances:
  "advances (s\<lparr>dispatching := a\<rparr>) s' = advances s s'" "advances s (s'\<lparr>dispatching := a\<rparr>) = advances s s'"
  "sched_inv (s\<lparr>dispatching := a\<rparr>) = sched_inv s"
  by (simp_all add: advances_def sched_inv_def)

lemma dispatchDue_advances:
  assumes "sched_inv s" "dispatchDue body now budget s = (r, rs, s')"
  shows "advances s s' \<and> length rs \<le> budget \<and> (\<forall>t\<in>set rs. deadline t \<le> now) \<and> distinct (map tid rs) \<and>
    (\<forall>t\<in>set rs. (tid t \<in> live_ids s \<or> issued s < unat (tid t)) \<and> tid t \<notin> live_ids s' \<and> unat (tid t) \<le> issued s')"
  using assms(2)
proof (cases rule: dispatchDue_cases)
  case refused
  with assms(1) show ?thesis by (simp add: advances_refl)
next
  case (ran threw s1)
  with dispatch_loop_advances [OF _ ran(1)] assms(1) show ?thesis by (simp add: dispatching_advances)
qed

lemma sched_step_advances: "sched_inv s \<Longrightarrow> advances s (sched_step s e)"
proof (cases e)
  case (Dispatch body now budget)
  assume "sched_inv s"
  with Dispatch dispatchDue_advances [of s body now budget] show ?thesis by (metis prod_cases3 sched_step.simps(2) snd_conv)
qed (simp add: sched_call_advances)

interpretation sched: id_pool sched_step sched_inv issued live_ids
proof unfold_locales
  fix s :: "'a scheduler" and e i
  assume s: "sched_inv s"
  then have "advances s (sched_step s e)" by (rule sched_step_advances)
  then show "sched_inv (sched_step s e)" "issued s \<le> issued (sched_step s e)"
    "i \<in> live_ids (sched_step s e) \<Longrightarrow> i \<in> live_ids s \<or> issued s < unat i"
    by (auto simp: advances_def)
  show "i \<in> live_ids s \<Longrightarrow> 0 < unat i \<and> unat i \<le> issued s" using s by (auto simp: sched_inv_def)
qed

lemma token_pending_iff: "token_pending s i \<longleftrightarrow> i \<in> live_ids s"
  by (auto simp: token_pending_def list_ex_iff)

lemma new_scheduler_inv: "new_scheduler cap = Inr s \<Longrightarrow> sched_inv s"
  by (auto simp: new_scheduler_def sched_inv_def split: if_splits)

subsection \<open>Dispatch order\<close>

lemma sort_key_first:
  assumes "\<forall>x\<in>set xs. f t < f x" "\<forall>y\<in>set ys. f t \<le> f y"
  shows "sort_key f (xs @ t # ys) = t # sort_key f (xs @ ys)"
proof (rule properties_for_sort_key)
  show "mset (t # sort_key f (xs @ ys)) = mset (xs @ t # ys)" by simp
  show "sorted (map f (t # sort_key f (xs @ ys)))" using assms by (auto intro: less_imp_le)
  fix k
  have "filter (\<lambda>x. f k = f x) xs = []" if "f k = f t" using assms(1) that by (auto simp: filter_empty_conv)
  moreover have "filter (\<lambda>x. f k = f x) (sort_key f (xs @ ys)) = filter (\<lambda>x. f k = f x) (xs @ ys)"
    by (metis (mono_tags, lifting) sort_key_stable filter_cong)
  ultimately show "filter (\<lambda>x. f k = f x) (t # sort_key f (xs @ ys)) = filter (\<lambda>x. f k = f x) (xs @ t # ys)" by auto
qed

text \<open>Callbacks that leave the scheduler alone.\<close>

abbreviation idle_body :: "'c \<Rightarrow> 'c scheduler \<Rightarrow> 'c call list \<times> bool" where
  "idle_body c s \<equiv> ([], False)"

definition due_order :: "int \<Rightarrow> 'c task list \<Rightarrow> 'c task list" where
  "due_order now ts = sort_key deadline (filter (\<lambda>t. deadline t \<le> now) ts)"

lemma dispatch_loop_order:
  "\<not> fst (dispatch_loop idle_body now budget s) \<and>
   fst (snd (dispatch_loop idle_body now budget s)) = take budget (due_order now (tasks s))"
proof (induction budget arbitrary: s)
  case 0
  then show ?case by simp
next
  case (Suc budget)
  show ?case
  proof (cases "earliest (tasks s)")
    case None
    then show ?thesis by (simp add: due_order_def)
  next
    case (Some i)
    let ?t = "tasks s ! i" and ?s1 = "s\<lparr>tasks := remove_at i (tasks s)\<rparr>"
    obtain xs ys where sp: "tasks s = xs @ ?t # ys" "remove_at i (tasks s) = xs @ ys"
      "\<forall>x\<in>set xs. deadline ?t < deadline x" "\<forall>y\<in>set ys. deadline ?t \<le> deadline y"
      using earliest_split [OF Some] by metis
    show ?thesis
    proof (cases "deadline ?t \<le> now")
      case True
      have "due_order now (tasks s) = ?t # due_order now (xs @ ys)"
        unfolding due_order_def using sp(3,4) True
        by (subst sp(1)) (simp add: sort_key_first)
      with Suc.IH [of ?s1] Some True show ?thesis by (simp add: sp(2) split_beta Let_def)
    next
      case False
      have "filter (\<lambda>t. deadline t \<le> now) (tasks s) = []"
        using False sp(3,4) by (subst sp(1)) (auto simp: filter_empty_conv)
      with Some False show ?thesis by (simp add: due_order_def)
    qed
  qed
qed

subsection \<open>Properties\<close>



text \<open>
  Nothing fires early, twice, or after it was cancelled. Whatever the callbacks do, a
  dispatch runs at most \<open>budget\<close> tasks, all due, no task twice; each was pending when the
  dispatch began or was scheduled by a callback during it, and none is pending afterwards.
\<close>

theorem dispatch_only_due:
  assumes "sched_inv s" and "dispatchDue body now budget s = (r, rs, s')"
  shows "length rs \<le> budget \<and> distinct (map tid rs) \<and> (\<forall>t\<in>set rs. deadline t \<le> now) \<and>
    (\<forall>t\<in>set rs. (token_pending s (tid t) \<or> issued s < unat (tid t)) \<and> \<not> token_pending s' (tid t)) \<and> sched_inv s'"
  using dispatchDue_advances [OF assms]
  by (auto simp: token_pending_iff advances_def)

text \<open>
  C36: A cancelled or fired timer is gone for good: once a token that was issued is no longer
  pending, no later sequence of calls and dispatches makes it pending again, because tokens
  are never reissued.
\<close>

theorem token_never_revived:
  assumes "sched_inv s" and "tok \<le> nextId s" and "\<not> token_pending s tok"
  shows "\<not> token_pending (run sched_step s es) tok"
  using sched.retired [OF assms(1), of tok es] assms(2,3)
  by (simp add: token_pending_iff word_le_nat_alt)

definition demo_scheduler :: "string scheduler" where
  "demo_scheduler = \<lparr>sch_capacity = 4, tasks = [\<lparr>tid = 1, deadline = 7, callback = ''a''\<rparr>, \<lparr>tid = 2, deadline = 3, callback = ''b''\<rparr>],
     nextId = 2, stopped = False, dispatching = False\<rparr>"

lemma demo_scheduler_inv: "sched_inv demo_scheduler"
  by (simp add: demo_scheduler_def sched_inv_def)

theorem dispatch_only_due_witness:
  "\<exists>r rs s'. dispatchDue (\<lambda>c s. ([Cancel 1], False)) 9 5 demo_scheduler = (r, rs, s') \<and> distinct (map tid rs) \<and>
     (\<forall>t\<in>set rs. deadline t \<le> 9)"
proof -
  obtain r rs s' where d: "dispatchDue (\<lambda>c s. ([Cancel 1], False)) 9 5 demo_scheduler = (r, rs, s')" by (metis prod_cases3)
  from dispatch_only_due [OF demo_scheduler_inv d] d show ?thesis by blast
qed

theorem token_never_revived_witness:
  "\<not> token_pending (run sched_step (snd (cancel demo_scheduler 1)) [Call (Schedule 4 (Some ''c''))]) 1"
proof -
  let ?s = "snd (cancel demo_scheduler 1)"
  have "sched_inv ?s" using cancel_advances [OF demo_scheduler_inv] by (simp add: advances_def)
  moreover have "1 \<le> nextId ?s" "\<not> token_pending ?s 1"
    by (simp_all add: cancel_def demo_scheduler_def remove_at_def token_pending_def)
  ultimately show ?thesis by (rule token_never_revived)
qed

end
