(* ===== verification/Session_Events.thy ===== *)
theory Session_Events
  imports Prelude "HOL-Library.Sublist"
begin

text \<open>
  The event queue from a session to its host, \<open>viewer/core/SessionEvents.cxx\<close>: a bounded
  list of events, the operations that still owe a completion, and one overflow event kept
  out of band. Every method runs under the queue's mutex and is one atomic operation. The
  layout and information a snapshot carries are immutable payloads the queue only passes on.
\<close>

subsection \<open>State\<close>

datatype session_state = Idle | Negotiating | Connected | Closed | Failed | Authenticating
  | Disconnecting | Resolving | Connecting

datatype session_end_reason = Cancelled | PeerClosed | PromptTimedOut | AuthenticationRejected
  | TransportFailure | ProtocolFailure | ResourceFailure | InternalFailure | EventOverflow | NoReason
  | ResolutionFailure | ConnectionFailure | ResolutionTimedOut | ConnectionTimedOut
  | UnsupportedEndpoint | InvalidEndpoint

datatype event_kind = Snapshot | State | Desktop | Bell | Statistics | Completion | Overflow

datatype operation_result = OpSucceeded | OpCancelled | OpFailed

datatype operation_failure = NoFailure | TimedOut | ServerRejected

record 'p snapshot =
  sn_generation :: u64
  frames :: u64
  bells :: u64
  sn_width :: u32
  sn_height :: u32
  sn_state :: session_state
  endReason :: session_end_reason
  nativeError :: int
  supportsDesktopResize :: bool
  resizePending :: bool
  payload :: 'p

record 'p session_event =
  se_kind :: event_kind
  se_sequence :: u64
  se_operation :: u64
  se_snapshot :: "'p snapshot"
  se_result :: operation_result
  se_failure :: operation_failure
  se_nativeResult :: u32
  se_origin :: u64

record operation =
  op_id :: u64
  op_generation :: u64
  op_origin :: u64

record 'p session_events =
  ev_capacity :: nat
  current :: "'p snapshot"
  ev_queue :: "'p session_event list"
  operations :: "operation list"
  ev_sequence :: u64
  operationId :: u64
  ev_stopped :: bool
  overflowPending :: bool
  overflowEvent :: "'p session_event"

datatype events_error = InvalidEventCapacity | ReservedEventKind | FinishOperationsFirst

subsection \<open>Operations\<close>

definition append_event :: "'p session_events \<Rightarrow> event_kind \<Rightarrow> 'p snapshot \<Rightarrow> u64 \<Rightarrow> operation_result \<Rightarrow> u64 \<Rightarrow>
    operation_failure \<Rightarrow> u32 \<Rightarrow> 'p session_events" where
  "append_event q k v i res org fail native =
     (let q = q\<lparr>ev_sequence := ev_sequence q + 1\<rparr> in
      q\<lparr>ev_queue := ev_queue q @ [\<lparr>se_kind = k, se_sequence = ev_sequence q, se_operation = i, se_snapshot = v,
          se_result = res, se_failure = fail, se_nativeResult = native, se_origin = org\<rparr>]\<rparr>)"

text \<open>The default \<open>SessionEvent\<close> holds a default snapshot; its payload is null.\<close>

definition default_event :: "'p \<Rightarrow> 'p session_event" where
  "default_event null = \<lparr>se_kind = Snapshot, se_sequence = 0, se_operation = 0,
     se_snapshot = \<lparr>sn_generation = 1, frames = 0, bells = 0, sn_width = 0, sn_height = 0, sn_state = Idle,
       endReason = NoReason, nativeError = 0, supportsDesktopResize = False, resizePending = False, payload = null\<rparr>,
     se_result = OpSucceeded, se_failure = NoFailure, se_nativeResult = 0, se_origin = 0\<rparr>"

definition new_events :: "'p \<Rightarrow> 'p snapshot \<Rightarrow> nat \<Rightarrow> events_error + 'p session_events" where
  "new_events null initial cap =
     (if cap < 2 \<or> cap > 65536 \<or> sn_generation initial = 0 then Inl InvalidEventCapacity
      else Inr (append_event \<lparr>ev_capacity = cap, current = initial, ev_queue = [], operations = [],
             ev_sequence = 0, operationId = 0, ev_stopped = False, overflowPending = False,
             overflowEvent = default_event null\<rparr> Snapshot initial 0 OpSucceeded 0 NoFailure 0))"

definition room :: "'p session_events \<Rightarrow> bool" where
  "room q \<longleftrightarrow> length (ev_queue q) + length (operations q) < ev_capacity q"

definition sequenceExhausted :: "'p session_events \<Rightarrow> bool" where
  "sequenceExhausted q \<longleftrightarrow> ev_sequence q \<ge> - 1 - of_nat (ev_capacity q) - 1"

definition removeStatistics :: "'p session_events \<Rightarrow> 'p session_events" where
  "removeStatistics q = q\<lparr>ev_queue := filter (\<lambda>e. se_kind e \<noteq> Statistics) (ev_queue q)\<rparr>"

definition finishOperations :: "'p session_events \<Rightarrow> operation_result \<Rightarrow> 'p session_events" where
  "finishOperations q res =
     (foldl (\<lambda>q op. append_event q Completion ((current q)\<lparr>sn_generation := op_generation op\<rparr>)
                (op_id op) res (op_origin op) NoFailure 0) q (operations q))\<lparr>operations := []\<rparr>"

definition overflow :: "'p session_events \<Rightarrow> 'p session_events" where
  "overflow q =
     (let q = q\<lparr>ev_stopped := True,
                current := (current q)\<lparr>sn_state := Failed, endReason := EventOverflow, nativeError := 0\<rparr>\<rparr>;
          q = finishOperations q OpFailed;
          q = q\<lparr>ev_sequence := ev_sequence q + 1\<rparr>
      in q\<lparr>overflowEvent := (overflowEvent q)\<lparr>se_kind := Overflow, se_snapshot := current q, se_result := OpFailed,
             se_sequence := ev_sequence q\<rparr>, overflowPending := True\<rparr>)"

definition take_event :: "'p session_events \<Rightarrow> 'p session_event option \<times> 'p session_events" where
  "take_event q = (case ev_queue q of
       e # es \<Rightarrow> (Some e, q\<lparr>ev_queue := es\<rparr>)
     | [] \<Rightarrow> if overflowPending q then (Some (overflowEvent q), q\<lparr>overflowPending := False\<rparr>) else (None, q))"

definition current_snapshot :: "'p session_events \<Rightarrow> 'p snapshot" where
  "current_snapshot q = current q"

definition admit :: "'p session_events \<Rightarrow> u64 \<Rightarrow> u64 \<Rightarrow> u64 \<times> 'p session_events" where
  "admit q gen org =
     (if sequenceExhausted q then (0, overflow q)
      else let q = (if \<not> room q then removeStatistics q else q) in
           if \<not> room q then (0, q)
           else let i = operationId q + 1 in
             (i, q\<lparr>operationId := i,
                   operations := operations q @ [\<lparr>op_id = i, op_generation = gen, op_origin = org\<rparr>]\<rparr>))"

definition reserve :: "'p session_events \<Rightarrow> u64 \<Rightarrow> u64 \<Rightarrow> u64 \<times> 'p session_events" where
  "reserve q gen org =
     (let prepared = (gen > sn_generation (current q) \<and> operations q \<noteq> [] \<and> op_generation (hd (operations q)) = gen)
      in if ev_stopped q \<or> (gen \<noteq> sn_generation (current q) \<and> \<not> prepared) \<or>
            list_ex (\<lambda>op. op_generation op \<noteq> gen) (operations q) \<or> operationId q = - 1
         then (0, q)
         else admit q gen org)"

definition reserveAttempt :: "'p session_events \<Rightarrow> u64 \<Rightarrow> u64 \<times> 'p session_events" where
  "reserveAttempt q gen =
     (if ev_stopped q \<or> gen \<le> sn_generation (current q) \<or> operations q \<noteq> [] \<or> operationId q = - 1
      then (0, q)
      else admit q gen 0)"

fun find_operation :: "u64 \<Rightarrow> operation list \<Rightarrow> (operation \<times> operation list) option" where
  "find_operation i [] = None"
| "find_operation i (op # ops) =
     (if op_id op = i then Some (op, ops) else map_option (\<lambda>(o', r). (o', op # r)) (find_operation i ops))"

definition complete :: "'p session_events \<Rightarrow> u64 \<Rightarrow> operation_result \<Rightarrow> operation_failure \<Rightarrow> u32 \<Rightarrow>
    bool \<times> 'p session_events" where
  "complete q i res fail native = (case find_operation i (operations q) of
       None \<Rightarrow> (False, q)
     | Some (op, rest) \<Rightarrow>
         (True, (append_event q Completion ((current q)\<lparr>sn_generation := op_generation op\<rparr>) i res (op_origin op)
                   fail native)\<lparr>operations := rest\<rparr>))"

definition pending :: "'p session_events \<Rightarrow> u64 \<Rightarrow> u64 \<Rightarrow> bool" where
  "pending q i gen = list_ex (\<lambda>op. op_id op = i \<and> op_generation op = gen) (operations q)"

definition publish :: "'p session_events \<Rightarrow> event_kind \<Rightarrow> 'p snapshot \<Rightarrow> events_error + (bool \<times> 'p session_events)" where
  "publish q k v =
     (if k = Snapshot \<or> k = Completion \<or> k = Overflow then Inl ReservedEventKind
      else if ev_stopped q \<or> sn_generation v < sn_generation (current q) then Inr (False, q)
      else if sequenceExhausted q then Inr (False, overflow q)
      else if sn_generation v > sn_generation (current q) \<and>
              list_ex (\<lambda>op. op_generation op \<noteq> sn_generation v) (operations q) then Inl FinishOperationsFirst
      else
        let q = q\<lparr>current := v\<rparr>;
            q = (if k = Statistics \<or> \<not> room q then removeStatistics q else q)
        in if \<not> room q
           then if k = Statistics then Inr (True, q) else Inr (False, overflow q)
           else Inr (True, append_event q k v 0 OpSucceeded 0 NoFailure 0))"

definition seal :: "'p session_events \<Rightarrow> operation_result \<Rightarrow> 'p session_events" where
  "seal q res = (if ev_stopped q then q else (finishOperations q res)\<lparr>ev_stopped := True\<rparr>)"

definition cancelPending :: "'p session_events \<Rightarrow> operation_result \<Rightarrow> 'p session_events" where
  "cancelPending q res = finishOperations q res"

definition sealed :: "'p session_events \<Rightarrow> bool" where
  "sealed q = ev_stopped q"

subsection \<open>The queue and the events taken from it\<close>

datatype 'p events_call =
    EvReserve u64 u64
  | EvReserveAttempt u64
  | EvComplete u64 operation_result operation_failure u32
  | EvPublish event_kind "'p snapshot"
  | EvSeal operation_result
  | EvCancelPending operation_result
  | EvTake

fun events_step :: "'p session_events \<times> 'p session_event list \<Rightarrow> 'p events_call \<Rightarrow>
    'p session_events \<times> 'p session_event list" where
  "events_step (q, tk) (EvReserve gen org) = (snd (reserve q gen org), tk)"
| "events_step (q, tk) (EvReserveAttempt gen) = (snd (reserveAttempt q gen), tk)"
| "events_step (q, tk) (EvComplete i res fail native) = (snd (complete q i res fail native), tk)"
| "events_step (q, tk) (EvPublish k v) = (case publish q k v of Inl _ \<Rightarrow> (q, tk) | Inr (_, q') \<Rightarrow> (q', tk))"
| "events_step (q, tk) (EvSeal res) = (seal q res, tk)"
| "events_step (q, tk) (EvCancelPending res) = (cancelPending q res, tk)"
| "events_step (q, tk) EvTake = (case take_event q of (None, q') \<Rightarrow> (q', tk) | (Some e, q') \<Rightarrow> (q', tk @ [e]))"

text \<open>Everything delivered so far and still to be delivered, in the order of delivery.\<close>

definition history :: "'p session_events \<times> 'p session_event list \<Rightarrow> 'p session_event list" where
  "history p = snd p @ ev_queue (fst p) @ (if overflowPending (fst p) then [overflowEvent (fst p)] else [])"

definition reliable :: "'p session_event list \<Rightarrow> 'p session_event list" where
  "reliable es = filter (\<lambda>e. se_kind e \<noteq> Statistics) es"

text \<open>The completions of an operation, and whether it is still owed one.\<close>

definition completions :: "u64 \<Rightarrow> 'p session_event list \<Rightarrow> nat" where
  "completions i es = length (filter (\<lambda>e. se_kind e = Completion \<and> se_operation e = i) es)"

definition owed :: "u64 \<Rightarrow> 'p session_events \<Rightarrow> nat" where
  "owed i q = length (filter (\<lambda>op. op_id op = i) (operations q))"

subsection \<open>Invariant\<close>

abbreviation seq_of :: "'p session_event \<Rightarrow> nat" where
  "seq_of e \<equiv> unat (se_sequence e)"

text \<open>
  Room in the queue for every owed completion; sequence numbers left for them and for \<open>r\<close>
  more; strictly increasing sequence numbers; and, for every operation identifier that was
  ever issued, either one completion owed or one completion made.
\<close>

definition good :: "nat \<Rightarrow> 'p session_events \<times> 'p session_event list \<Rightarrow> bool" where
  "good r p \<longleftrightarrow> (let q = fst p in
     2 \<le> ev_capacity q \<and> ev_capacity q \<le> 65536 \<and>
     length (ev_queue q) + length (operations q) \<le> ev_capacity q \<and>
     unat (ev_sequence q) + length (operations q) + r \<le> 2 ^ 64 - 1 \<and>
     sorted_wrt (<) (map seq_of (history p)) \<and> (\<forall>e\<in>set (history p). seq_of e \<le> unat (ev_sequence q)) \<and>
     (\<forall>i. owed i q + completions i (history p) = (if 0 < i \<and> i \<le> operationId q then 1 else 0)))"

definition events_inv :: "'p session_events \<times> 'p session_event list \<Rightarrow> bool" where
  "events_inv p \<longleftrightarrow> good (if ev_stopped (fst p) then 0 else 1) p \<and>
     (ev_stopped (fst p) \<longrightarrow> operations (fst p) = []) \<and> (overflowPending (fst p) \<longrightarrow> ev_stopped (fst p))"

text \<open>What a step does to the events that may not be lost.\<close>

definition keeps :: "'p session_events \<times> 'p session_event list \<Rightarrow> 'p session_events \<times> 'p session_event list \<Rightarrow> bool" where
  "keeps p p' \<longleftrightarrow> prefix (reliable (history p)) (reliable (history p'))"

lemma keeps_refl: "keeps p p"
  by (simp add: keeps_def)

lemma keeps_trans: "keeps p p1 \<Longrightarrow> keeps p1 p2 \<Longrightarrow> keeps p p2"
  unfolding keeps_def by (rule prefix_order.trans)

lemma good_cong:
  assumes "ev_capacity q' = ev_capacity q" "ev_queue q' = ev_queue q" "operations q' = operations q"
    "ev_sequence q' = ev_sequence q" "operationId q' = operationId q" "overflowPending q' = overflowPending q"
    "overflowEvent q' = overflowEvent q"
  shows "good r (q', tk) = good r (q, tk)" "history (q', tk) = history (q, tk)"
  using assms by (simp_all add: good_def history_def owed_def)

text \<open>Appending an event that is not a completion.\<close>

lemma append_good:
  assumes "good (Suc r) (q, tk)" "\<not> overflowPending q" "room q" "k \<noteq> Completion"
  shows "good r (append_event q k v i res org fail native, tk)"
    "keeps (q, tk) (append_event q k v i res org fail native, tk)"
proof -
  let ?q = "append_event q k v i res org fail native"
  let ?e = "\<lparr>se_kind = k, se_sequence = ev_sequence q + 1, se_operation = i, se_snapshot = v, se_result = res,
    se_failure = fail, se_nativeResult = native, se_origin = org\<rparr>"
  have bound: "unat (ev_sequence q) < 2 ^ 64 - 1" using assms(1) by (simp add: good_def Let_def)
  then have "ev_sequence q \<noteq> - 1" by (rule below_max)
  then have s: "unat (ev_sequence q + 1) = unat (ev_sequence q) + 1" by (rule next_id)
  have h: "history (?q, tk) = history (q, tk) @ [?e]" using assms(2) by (simp add: history_def append_event_def Let_def)
  show "keeps (q, tk) (?q, tk)" by (simp add: keeps_def h reliable_def)
  have f: "ev_capacity ?q = ev_capacity q" "ev_queue ?q = ev_queue q @ [?e]" "operations ?q = operations q"
    "ev_sequence ?q = ev_sequence q + 1" "operationId ?q = operationId q"
    by (simp_all add: append_event_def Let_def)
  have "completions j (history (q, tk) @ [?e]) = completions j (history (q, tk))" for j
    using assms(4) by (simp add: completions_def)
  moreover have "owed j ?q = owed j q" for j by (simp add: owed_def f)
  ultimately show "good r (?q, tk)"
    using assms(1,3) unfolding good_def h Let_def fst_conv f s room_def
    by (auto simp: s sorted_wrt_append less_Suc_eq_le intro: le_SucI)
qed

text \<open>Turning an owed completion into an event.\<close>

lemma complete_good:
  assumes "good r (q, tk)" "\<not> overflowPending q" "operations q = xs @ op # ys"
    and q'_def: "q' = (append_event q Completion v (op_id op) res org fail native)\<lparr>operations := xs @ ys\<rparr>"
  shows "good r (q', tk)" "keeps (q, tk) (q', tk)"
proof -
  let ?e = "\<lparr>se_kind = Completion, se_sequence = ev_sequence q + 1, se_operation = op_id op, se_snapshot = v, se_result = res,
    se_failure = fail, se_nativeResult = native, se_origin = org\<rparr>"
  have bound: "unat (ev_sequence q) < 2 ^ 64 - 1" using assms(1,3) by (simp add: good_def Let_def)
  then have "ev_sequence q \<noteq> - 1" by (rule below_max)
  then have s: "unat (ev_sequence q + 1) = unat (ev_sequence q) + 1" by (rule next_id)
  have h: "history (q', tk) = history (q, tk) @ [?e]" using assms(2) by (simp add: history_def q'_def append_event_def Let_def)
  show "keeps (q, tk) (q', tk)" by (simp add: keeps_def h reliable_def)
  have f: "ev_capacity q' = ev_capacity q" "ev_queue q' = ev_queue q @ [?e]" "operations q' = xs @ ys"
    "ev_sequence q' = ev_sequence q + 1" "operationId q' = operationId q"
    by (simp_all add: q'_def append_event_def Let_def)
  have "owed j q' + completions j (history (q, tk) @ [?e]) = owed j q + completions j (history (q, tk))" for j
    using assms(3) by (simp add: owed_def completions_def f)
  then show "good r (q', tk)"
    using assms(1,3) unfolding good_def h Let_def fst_conv f s
    by (auto simp: s sorted_wrt_append less_Suc_eq_le intro: le_SucI)
qed

lemma sorted_filter_middle:
  "sorted_wrt (<) (map f (a @ b @ c)) \<Longrightarrow> sorted_wrt (<) (map f (a @ filter P b @ c))" for f :: "'a \<Rightarrow> nat"
  by (auto simp: sorted_wrt_append sorted_wrt_map sorted_wrt_filter)

lemma removeStatistics_good:
  assumes "good r (q, tk)"
  shows "good r (removeStatistics q, tk)" "keeps (q, tk) (removeStatistics q, tk)"
proof -
  let ?P = "\<lambda>e. se_kind e \<noteq> Statistics"
  let ?o = "if overflowPending q then [overflowEvent q] else []"
  have h: "history (q, tk) = tk @ ev_queue q @ ?o" "history (removeStatistics q, tk) = tk @ filter ?P (ev_queue q) @ ?o"
    by (simp_all add: history_def removeStatistics_def)
  show "keeps (q, tk) (removeStatistics q, tk)" by (simp add: keeps_def h reliable_def)
  have "completions j (tk @ filter ?P (ev_queue q) @ ?o) = completions j (tk @ ev_queue q @ ?o)" for j
    by (simp add: completions_def filter_filter) (rule arg_cong [where f = length], auto intro: filter_cong)
  moreover have "length (filter ?P (ev_queue q)) \<le> length (ev_queue q)" by simp
  moreover have "sorted_wrt (<) (map seq_of (tk @ filter ?P (ev_queue q) @ ?o))"
    using assms by (intro sorted_filter_middle) (simp only: good_def Let_def h)
  moreover have "ev_capacity (removeStatistics q) = ev_capacity q" "ev_queue (removeStatistics q) = filter ?P (ev_queue q)"
    "operations (removeStatistics q) = operations q" "ev_sequence (removeStatistics q) = ev_sequence q"
    "operationId (removeStatistics q) = operationId q" by (simp_all add: removeStatistics_def)
  moreover have "owed j (removeStatistics q) = owed j q" for j by (simp add: owed_def removeStatistics_def)
  moreover have "\<forall>e\<in>set (tk @ filter ?P (ev_queue q) @ ?o). seq_of e \<le> unat (ev_sequence q)"
    using assms by (auto simp: good_def Let_def h)
  ultimately show "good r (removeStatistics q, tk)"
    using assms unfolding good_def h Let_def fst_conv by (simp del: length_filter_le)
qed

abbreviation finish_one :: "operation_result \<Rightarrow> 'p session_events \<Rightarrow> operation \<Rightarrow> 'p session_events" where
  "finish_one res q op \<equiv> append_event q Completion ((current q)\<lparr>sn_generation := op_generation op\<rparr>)
     (op_id op) res (op_origin op) NoFailure 0"

lemma finish_frame:
  "current (foldl (finish_one res) q ops) = current q" "ev_stopped (foldl (finish_one res) q ops) = ev_stopped q"
  "overflowPending (foldl (finish_one res) q ops) = overflowPending q"
  "operationId (foldl (finish_one res) q ops) = operationId q"
  "ev_capacity (foldl (finish_one res) q ops) = ev_capacity q"
  by (induction ops arbitrary: q) (auto simp: append_event_def Let_def)

lemma finish_operations_update:
  "foldl (finish_one res) (q\<lparr>operations := x\<rparr>) ops = (foldl (finish_one res) q ops)\<lparr>operations := x\<rparr>"
proof (induction ops arbitrary: q)
  case (Cons op ops)
  have "finish_one res (q\<lparr>operations := x\<rparr>) op = (finish_one res q op)\<lparr>operations := x\<rparr>"
    by (simp add: append_event_def Let_def)
  with Cons show ?case by simp
qed simp

lemma finish_good_ops:
  assumes "good r (q, tk)" "\<not> overflowPending q" "operations q = ops"
  shows "good r ((foldl (finish_one res) q ops)\<lparr>operations := []\<rparr>, tk) \<and>
    keeps (q, tk) ((foldl (finish_one res) q ops)\<lparr>operations := []\<rparr>, tk)"
  using assms
proof (induction ops arbitrary: q)
  case Nil
  then have id: "q\<lparr>operations := []\<rparr> = q" by simp
  show ?case unfolding foldl.simps id using Nil by (simp add: keeps_refl)
next
  case (Cons op ops)
  let ?q1 = "(finish_one res q op)\<lparr>operations := ops\<rparr>"
  have c: "good r (?q1, tk)" "keeps (q, tk) (?q1, tk)"
    using complete_good [OF Cons.prems(1,2), of "[]" op ops] Cons.prems(3) by simp_all
  have eq: "(foldl (finish_one res) q (op # ops))\<lparr>operations := []\<rparr> = (foldl (finish_one res) ?q1 ops)\<lparr>operations := []\<rparr>"
    by (simp add: finish_operations_update)
  have "\<not> overflowPending ?q1" using Cons.prems(2) by (simp add: append_event_def Let_def)
  from Cons.IH [OF c(1) this] have ih: "good r ((foldl (finish_one res) ?q1 ops)\<lparr>operations := []\<rparr>, tk) \<and>
    keeps (?q1, tk) ((foldl (finish_one res) ?q1 ops)\<lparr>operations := []\<rparr>, tk)" by simp
  show ?case unfolding eq using ih keeps_trans [OF c(2)] by blast
qed

lemma finishOperations_good:
  assumes "good r (q, tk)" "\<not> overflowPending q"
  shows "good r (finishOperations q res, tk)" "keeps (q, tk) (finishOperations q res, tk)"
  using finish_good_ops [OF assms refl] by (simp_all add: finishOperations_def)

lemma finishOperations_frame:
  "operations (finishOperations q res) = []" "ev_stopped (finishOperations q res) = ev_stopped q"
  "overflowPending (finishOperations q res) = overflowPending q" "current (finishOperations q res) = current q"
  "operationId (finishOperations q res) = operationId q" "ev_capacity (finishOperations q res) = ev_capacity q"
  by (simp_all add: finishOperations_def finish_frame)

text \<open>A queue that is not exhausted has two sequence numbers beyond every owed completion.\<close>

lemma exhausted_limit:
  assumes "cap \<le> 65536"
  shows "unat (- 1 - of_nat cap - 1 :: u64) = 2 ^ 64 - 2 - cap"
proof -
  have "of_nat (2 ^ 64 - 2 - cap) + (of_nat cap + 2) = (of_nat (2 ^ 64 - 2 - cap + (cap + 2)) :: u64)" by simp
  also have "2 ^ 64 - 2 - cap + (cap + 2) = (2 ^ 64 :: nat)" using assms by simp
  also have "(of_nat (2 ^ 64) :: u64) = 0" by simp
  finally have "(of_nat (2 ^ 64 - 2 - cap) :: u64) = - (of_nat cap + 2)"
    by (rule eq_neg_iff_add_eq_0 [THEN iffD2])
  then have "(- 1 - of_nat cap - 1 :: u64) = of_nat (2 ^ 64 - 2 - cap)" by simp
  then show ?thesis by (simp only:) (simp add: unat_of_nat take_bit_nat_eq_self)
qed

lemma not_exhausted_good:
  assumes "good r (q, tk)" "\<not> sequenceExhausted q"
  shows "good 2 (q, tk)"
proof -
  have cap: "ev_capacity q \<le> 65536" "length (operations q) \<le> ev_capacity q" using assms(1) by (simp_all add: good_def Let_def)
  have "unat (ev_sequence q) < 2 ^ 64 - 2 - ev_capacity q"
    using assms(2) exhausted_limit [OF cap(1)] by (simp add: sequenceExhausted_def not_le word_less_nat_alt)
  then have "unat (ev_sequence q) + length (operations q) + 2 \<le> 2 ^ 64 - 1" using cap by simp
  with assms(1) show ?thesis by (simp add: good_def Let_def)
qed

lemma events_overflow_inv:
  assumes "good 1 (q, tk)" "\<not> overflowPending q"
  shows "events_inv (overflow q, tk)" "keeps (q, tk) (overflow q, tk)"
proof -
  define q1 where "q1 = q\<lparr>ev_stopped := True,
     current := (current q)\<lparr>sn_state := Failed, endReason := EventOverflow, nativeError := 0\<rparr>\<rparr>"
  define q2 where "q2 = finishOperations q1 OpFailed"
  let ?e = "(overflowEvent q2)\<lparr>se_kind := Overflow, se_snapshot := current q2, se_result := OpFailed,
     se_sequence := ev_sequence q2 + 1\<rparr>"
  have h1: "good 1 (q1, tk)" "history (q1, tk) = history (q, tk)"
    using assms(1) good_cong [of q1 q] by (simp_all add: q1_def)
  have np: "\<not> overflowPending q1" using assms(2) by (simp add: q1_def)
  have g2: "good 1 (q2, tk)" and k2: "keeps (q1, tk) (q2, tk)"
    using finishOperations_good [OF h1(1) np] by (simp_all add: q2_def)
  have f2: "operations q2 = []" "ev_stopped q2" "\<not> overflowPending q2"
    using np by (simp_all add: q2_def finishOperations_frame q1_def)
  have ov: "overflow q = q2\<lparr>ev_sequence := ev_sequence q2 + 1, overflowEvent := ?e, overflowPending := True\<rparr>"
    by (simp add: overflow_def Let_def q1_def [symmetric] q2_def [symmetric])
  have s: "unat (ev_sequence q2 + 1) = unat (ev_sequence q2) + 1"
    using g2 by (intro next_id below_max) (simp add: good_def Let_def)
  have h: "history (overflow q, tk) = history (q2, tk) @ [?e]" using f2 by (simp add: ov history_def)
  have keep: "keeps (q, tk) (q2, tk)" using k2 h1(2) by (simp add: keeps_def)
  then show "keeps (q, tk) (overflow q, tk)"
    by (rule keeps_trans) (simp add: keeps_def h reliable_def)
  have "completions j (history (q2, tk) @ [?e]) = completions j (history (q2, tk))" for j
    by (simp add: completions_def)
  moreover have "owed j (overflow q) = owed j q2" for j by (simp add: owed_def ov)
  ultimately have "good 0 (overflow q, tk)"
    using g2 unfolding good_def h Let_def fst_conv
    by (auto simp: ov s sorted_wrt_append less_Suc_eq_le intro: le_SucI)
  with f2 show "events_inv (overflow q, tk)" by (simp add: events_inv_def ov)
qed

lemma live_good: "events_inv (q, tk) \<Longrightarrow> \<not> ev_stopped q \<Longrightarrow> good 1 (q, tk) \<and> \<not> overflowPending q"
  by (simp add: events_inv_def)

lemma live_inv: "good 1 (q, tk) \<Longrightarrow> \<not> overflowPending q \<Longrightarrow> \<not> ev_stopped q \<Longrightarrow> events_inv (q, tk)"
  by (simp add: events_inv_def)

lemma add_operation_good:
  assumes "good 2 (q, tk)" "room q" "operationId q \<noteq> - 1"
  shows "good 1 (q\<lparr>operationId := operationId q + 1,
     operations := operations q @ [\<lparr>op_id = operationId q + 1, op_generation = gen, op_origin = org\<rparr>]\<rparr>, tk)"
    (is "good 1 (?q, tk)")
proof -
  have h: "history (?q, tk) = history (q, tk)" by (simp add: history_def)
  have n: "unat (operationId q + 1) = unat (operationId q) + 1" by (rule next_id [OF assms(3)])
  have old: "owed j q + completions j (history (q, tk)) = (if 0 < j \<and> j \<le> operationId q then 1 else 0)" for j
    using assms(1) by (simp add: good_def Let_def)
  have "owed j ?q + completions j (history (q, tk)) = (if 0 < j \<and> j \<le> operationId q + 1 then 1 else 0)" for j
  proof (cases "j = operationId q + 1")
    case True
    then have "\<not> j \<le> operationId q" "0 < j" using n by (simp_all add: word_le_nat_alt word_less_nat_alt)
    with old [of j] True show ?thesis by (simp add: owed_def)
  next
    case False
    then have "unat j \<noteq> unat (operationId q + 1)" by (metis unsigned_word_eqI)
    then have "j \<le> operationId q \<longleftrightarrow> j \<le> operationId q + 1" using n by (auto simp: word_le_nat_alt)
    with old [of j] False show ?thesis by (simp add: owed_def)
  qed
  then show ?thesis using assms(1,2) unfolding good_def h Let_def fst_conv room_def by simp
qed

lemma admit_inv:
  assumes "events_inv (q, tk)" "\<not> ev_stopped q" "operationId q \<noteq> - 1"
  shows "events_inv (snd (admit q gen org), tk) \<and> keeps (q, tk) (snd (admit q gen org), tk)"
proof -
  have g: "good 1 (q, tk)" "\<not> overflowPending q" using live_good [OF assms(1,2)] by simp_all
  show ?thesis
  proof (cases "sequenceExhausted q")
    case True
    with events_overflow_inv [OF g] show ?thesis by (simp add: admit_def)
  next
    case False
    define q1 where "q1 = (if \<not> room q then removeStatistics q else q)"
    have g2: "good 2 (q, tk)" by (rule not_exhausted_good [OF g(1) False])
    then have g1: "good 2 (q1, tk)" "good 1 (q1, tk)" "keeps (q, tk) (q1, tk)"
      using g removeStatistics_good by (auto simp: q1_def keeps_refl)
    have f: "\<not> overflowPending q1" "\<not> ev_stopped q1" "operationId q1 = operationId q"
      using g assms(2) by (simp_all add: q1_def removeStatistics_def)
    let ?q2 = "q1\<lparr>operationId := operationId q1 + 1,
      operations := operations q1 @ [\<lparr>op_id = operationId q1 + 1, op_generation = gen, op_origin = org\<rparr>]\<rparr>"
    have s: "snd (admit q gen org) = (if room q1 then ?q2 else q1)"
      using False by (simp add: admit_def Let_def q1_def)
    show ?thesis
    proof (cases "room q1")
      case True
      have "good 1 (?q2, tk)" using add_operation_good [OF g1(1) True] assms(3) f(3) by simp
      moreover have "keeps (q1, tk) (?q2, tk)" by (simp add: keeps_def history_def)
      ultimately show ?thesis using True f keeps_trans [OF g1(3)] by (simp add: s live_inv)
    next
      case False
      with s g1 f show ?thesis by (simp add: live_inv)
    qed
  qed
qed

lemma find_operation_split:
  "find_operation i ops = Some (op, r) \<Longrightarrow> \<exists>xs ys. ops = xs @ op # ys \<and> r = xs @ ys \<and> op_id op = i"
proof (induction ops arbitrary: r)
  case (Cons o' ops)
  show ?case
  proof (cases "op_id o' = i")
    case True
    with Cons.prems show ?thesis by (intro exI [of _ "[]"] exI [of _ ops]) auto
  next
    case False
    with Cons.prems obtain r' where r: "find_operation i ops = Some (op, r')" "r = o' # r'" by auto
    from Cons.IH [OF r(1)] obtain xs ys where "ops = xs @ op # ys \<and> r' = xs @ ys \<and> op_id op = i" by blast
    with r(2) show ?thesis by (intro exI [of _ "o' # xs"] exI [of _ ys]) simp
  qed
qed simp

lemma complete_inv:
  assumes "events_inv (q, tk)"
  shows "events_inv (snd (complete q i res fail native), tk) \<and> keeps (q, tk) (snd (complete q i res fail native), tk)"
proof (cases "find_operation i (operations q)")
  case None
  with assms show ?thesis by (simp add: complete_def keeps_refl)
next
  case (Some p)
  obtain op r where p: "p = (op, r)" by (cases p)
  with Some obtain xs ys where sp: "operations q = xs @ op # ys" "r = xs @ ys" "op_id op = i"
    using find_operation_split by blast
  have ns: "\<not> ev_stopped q" using assms sp(1) by (auto simp: events_inv_def)
  have g: "good 1 (q, tk)" "\<not> overflowPending q" using live_good [OF assms ns] by simp_all
  let ?q = "(append_event q Completion ((current q)\<lparr>sn_generation := op_generation op\<rparr>) (op_id op) res (op_origin op) fail native)
    \<lparr>operations := xs @ ys\<rparr>"
  have "snd (complete q i res fail native) = ?q" using Some p sp by (simp add: complete_def)
  moreover have "\<not> ev_stopped ?q" "\<not> overflowPending ?q" using ns g(2) by (simp_all add: append_event_def Let_def)
  ultimately show ?thesis using complete_good [OF g sp(1) refl] by (simp add: live_inv)
qed

lemma events_publish_inv:
  assumes "events_inv (q, tk)" "publish q k v = Inr (b, q')"
  shows "events_inv (q', tk) \<and> keeps (q, tk) (q', tk)"
proof (cases "ev_stopped q \<or> sn_generation v < sn_generation (current q)")
  case True
  with assms show ?thesis by (auto simp: publish_def keeps_refl split: if_splits)
next
  case live: False
  have g: "good 1 (q, tk)" "\<not> overflowPending q" using live_good [OF assms(1)] live by simp_all
  have k: "k \<noteq> Completion" using assms(2) by (auto simp: publish_def)
  show ?thesis
  proof (cases "sequenceExhausted q")
    case True
    with live assms(2) have "q' = overflow q" by (auto simp: publish_def split: if_splits)
    with events_overflow_inv [OF g] show ?thesis by simp
  next
    case False
    define q1 where "q1 = q\<lparr>current := v\<rparr>"
    define q2 where "q2 = (if k = Statistics \<or> \<not> room q1 then removeStatistics q1 else q1)"
    have "good 2 (q, tk)" by (rule not_exhausted_good [OF g(1) False])
    then have g1: "good 2 (q1, tk)" "good 1 (q1, tk)" "keeps (q, tk) (q1, tk)"
      using g(1) good_cong [of q1 q] by (simp_all add: q1_def keeps_def)
    then have g2: "good 2 (q2, tk)" "good 1 (q2, tk)" "keeps (q, tk) (q2, tk)"
      using removeStatistics_good [OF g1(1)] removeStatistics_good [OF g1(2)] keeps_trans [OF g1(3)]
      by (auto simp: q2_def)
    have f: "\<not> overflowPending q2" "\<not> ev_stopped q2" using g live by (simp_all add: q2_def q1_def removeStatistics_def)
    let ?a = "append_event q2 k v 0 OpSucceeded 0 NoFailure 0"
    have "Inr (b, q') = (if \<not> room q2 then if k = Statistics then Inr (True, q2) else Inr (False, overflow q2)
        else Inr (True, ?a))"
      using assms(2) live False by (auto simp: publish_def Let_def q1_def q2_def split: if_splits)
    then consider "q' = q2" | "q' = overflow q2" | "room q2" "q' = ?a" by (auto split: if_splits)
    then show ?thesis
    proof cases
      case 1
      with g2 f show ?thesis by (simp add: live_inv)
    next
      case 2
      with events_overflow_inv [OF g2(2) f(1)] keeps_trans [OF g2(3)] show ?thesis by blast
    next
      case 3
      have "good (Suc 1) (q2, tk)" using g2(1) by (simp add: numeral_2_eq_2)
      from append_good [OF this f(1) 3(1) k] keeps_trans [OF g2(3)]
      have "good 1 (?a, tk)" "keeps (q, tk) (?a, tk)" by blast+
      moreover have "\<not> overflowPending ?a" "\<not> ev_stopped ?a" using f by (simp_all add: append_event_def Let_def)
      ultimately show ?thesis using 3(2) by (simp add: live_inv)
    qed
  qed
qed

lemma finish_inv:
  assumes "events_inv (q, tk)"
  shows "events_inv (finishOperations q res, tk) \<and> keeps (q, tk) (finishOperations q res, tk)"
proof (cases "ev_stopped q")
  case True
  then have "operations q = []" using assms by (simp add: events_inv_def)
  then have "finishOperations q res = q" by (simp add: finishOperations_def)
  with assms show ?thesis by (simp add: keeps_refl)
next
  case False
  have g: "good 1 (q, tk)" "\<not> overflowPending q" using live_good [OF assms False] by simp_all
  with finishOperations_good [OF g] False show ?thesis by (simp add: live_inv finishOperations_frame)
qed

lemma seal_inv:
  assumes "events_inv (q, tk)"
  shows "events_inv (seal q res, tk) \<and> keeps (q, tk) (seal q res, tk)"
proof (cases "ev_stopped q")
  case True
  with assms show ?thesis by (simp add: seal_def keeps_refl)
next
  case False
  let ?f = "finishOperations q res"
  have f: "events_inv (?f, tk)" "keeps (q, tk) (?f, tk)" using finish_inv [OF assms] by simp_all
  then have "good 1 (?f, tk)" using False by (simp add: events_inv_def finishOperations_frame)
  then have "good 0 (?f, tk)" by (simp add: good_def Let_def)
  with f False show ?thesis
    using good_cong [of "?f\<lparr>ev_stopped := True\<rparr>" ?f]
    by (simp add: seal_def events_inv_def finishOperations_frame keeps_def)
qed

lemma take_inv:
  assumes "events_inv (q, tk)"
  shows "events_inv (events_step (q, tk) EvTake) \<and> history (events_step (q, tk) EvTake) = history (q, tk)"
proof (cases "ev_queue q")
  case (Cons e es)
  then have s: "events_step (q, tk) EvTake = (q\<lparr>ev_queue := es\<rparr>, tk @ [e])" by (simp add: take_event_def)
  have h: "history (q\<lparr>ev_queue := es\<rparr>, tk @ [e]) = history (q, tk)" by (simp add: history_def Cons)
  have "good r (q, tk) \<Longrightarrow> good r (q\<lparr>ev_queue := es\<rparr>, tk @ [e])" for r
    unfolding good_def h by (simp add: Let_def Cons owed_def)
  with assms show ?thesis unfolding s by (simp add: events_inv_def h)
next
  case Nil
  show ?thesis
  proof (cases "overflowPending q")
    case True
    then have s: "events_step (q, tk) EvTake = (q\<lparr>overflowPending := False\<rparr>, tk @ [overflowEvent q])"
      by (simp add: take_event_def Nil)
    have h: "history (q\<lparr>overflowPending := False\<rparr>, tk @ [overflowEvent q]) = history (q, tk)"
      by (simp add: history_def Nil True)
    have "good r (q, tk) \<Longrightarrow> good r (q\<lparr>overflowPending := False\<rparr>, tk @ [overflowEvent q])" for r
      unfolding good_def h by (simp add: Let_def owed_def)
    with assms True show ?thesis unfolding s by (auto simp: events_inv_def h)
  next
    case False
    with Nil assms show ?thesis by (simp add: take_event_def)
  qed
qed

lemma events_step_ok:
  assumes "events_inv p"
  shows "events_inv (events_step p c) \<and> keeps p (events_step p c)"
proof -
  obtain q tk where p: "p = (q, tk)" by (cases p)
  have inv: "events_inv (q, tk)" using assms by (simp add: p)
  show ?thesis
  proof (cases c)
    case (EvReserve gen org)
    then show ?thesis using inv admit_inv [OF inv, of gen org] by (auto simp: p reserve_def Let_def keeps_refl)
  next
    case (EvReserveAttempt gen)
    then show ?thesis using inv admit_inv [OF inv, of gen 0] by (auto simp: p reserveAttempt_def keeps_refl)
  next
    case (EvComplete i res fail native)
    then show ?thesis using complete_inv [OF inv] by (simp add: p)
  next
    case (EvPublish k v)
    then show ?thesis using inv events_publish_inv [OF inv] by (auto simp: p keeps_refl split: sum.split)
  next
    case (EvSeal res)
    then show ?thesis using seal_inv [OF inv] by (simp add: p)
  next
    case (EvCancelPending res)
    then show ?thesis using finish_inv [OF inv] by (simp add: p cancelPending_def)
  next
    case EvTake
    then show ?thesis using take_inv [OF inv] by (simp add: p keeps_def del: events_step.simps)
  qed
qed

interpretation events: invariant_system events_step events_inv
  by unfold_locales (simp add: events_step_ok)

lemma run_keeps: "events_inv p \<Longrightarrow> keeps p (run events_step p cs)"
proof (induction cs arbitrary: p)
  case (Cons c cs)
  from events_step_ok [OF Cons.prems, of c] Cons.IH [of "events_step p c"] show ?case
    by (auto intro: keeps_trans)
qed (simp add: keeps_refl)

lemma new_events_inv:
  assumes "new_events null initial cap = Inr q"
  shows "events_inv (q, [])"
proof -
  let ?q = "\<lparr>ev_capacity = cap, current = initial, ev_queue = [], operations = [], ev_sequence = 0, operationId = 0,
    ev_stopped = False, overflowPending = False, overflowEvent = default_event null\<rparr>"
  have c: "2 \<le> cap" "cap \<le> 65536" and q: "q = append_event ?q Snapshot initial 0 OpSucceeded 0 NoFailure 0"
    using assms by (auto simp: new_events_def split: if_splits)
  have "good (Suc 1) (?q, [])" using c by (auto simp: good_def history_def owed_def completions_def)
  then have "good 1 (q, [])" unfolding q by (rule append_good) (use c in \<open>simp_all add: room_def\<close>)
  then show ?thesis by (rule live_inv) (simp_all add: q append_event_def Let_def)
qed

subsection \<open>Properties\<close>

text \<open>
  C19: The queue is bounded and ordered. Under any sequence of calls on a fresh queue, the
  events queued and the completions owed together never exceed the capacity the storage was
  allocated for, and the events the host takes have strictly increasing sequence numbers.
\<close>

theorem session_events_bounded:
  assumes "new_events null initial cap = Inr q0" and "run events_step (q0, []) cs = (q, tk)"
  shows "length (ev_queue q) + length (operations q) \<le> cap \<and> cap \<le> 65536 \<and>
    sorted_wrt (<) (map se_sequence (tk @ ev_queue q))"
proof -
  have cap_step: "ev_capacity (fst (events_step p c)) = ev_capacity (fst p)" for p :: "'a session_events \<times> 'a session_event list" and c
    by (cases p; cases c) (auto simp: reserve_def reserveAttempt_def admit_def complete_def publish_def seal_def cancelPending_def
        overflow_def append_event_def removeStatistics_def finishOperations_frame take_event_def Let_def
        split: sum.splits if_splits option.splits list.splits)
  have cap: "ev_capacity (fst (run events_step p cs)) = ev_capacity (fst p)" for p :: "'a session_events \<times> 'a session_event list"
    by (induction cs arbitrary: p) (auto simp: cap_step)
  have c0: "ev_capacity q0 = cap" using assms(1) by (auto simp: new_events_def append_event_def Let_def split: if_splits)
  have "events_inv (q, tk)"
    using events.run_inv [OF new_events_inv [OF assms(1)], of cs] by (simp add: assms(2))
  then have g: "good 0 (q, tk)" by (cases "ev_stopped q") (simp_all add: events_inv_def good_def Let_def)
  have "sorted_wrt (<) (map seq_of (tk @ ev_queue q))"
    using g by (simp add: good_def Let_def history_def sorted_wrt_append)
  then have "sorted_wrt (<) (map se_sequence (tk @ ev_queue q))"
    unfolding sorted_wrt_map by (simp add: word_less_nat_alt)
  moreover have "ev_capacity q = cap" using cap [of "(q0, [])"] c0 by (simp add: assms(2))
  ultimately show ?thesis using g by (simp add: good_def Let_def)
qed

text \<open>
  C13: Every accepted operation is completed exactly once. After any sequence of calls, an
  operation identifier that was handed out either is still owed its completion or has
  exactly one completion among the events taken and queued, never both; and once the queue
  is sealed or has overflowed, it has its completion.
\<close>

theorem completion_exactly_once:
  assumes "new_events null initial cap = Inr q0" and "run events_step (q0, []) cs = (q, tk)"
    and "0 < i" and "i \<le> operationId q"
  shows "owed i q + completions i (history (q, tk)) = 1 \<and>
    (sealed q \<longrightarrow> completions i (history (q, tk)) = 1)"
proof -
  have inv: "events_inv (q, tk)"
    using events.run_inv [OF new_events_inv [OF assms(1)], of cs] by (simp add: assms(2))
  then have g: "good 0 (q, tk)" by (cases "ev_stopped q") (simp_all add: events_inv_def good_def Let_def)
  have "owed i q + completions i (history (q, tk)) = 1" using g assms(3,4) by (simp add: good_def Let_def)
  moreover have "owed i q = 0" if "sealed q" using inv that by (simp add: events_inv_def sealed_def owed_def)
  ultimately show ?thesis by auto
qed

lemma publish_appends:
  assumes "publish q k v = Inr (True, q')" "k \<noteq> Statistics" "events_inv (q, tk)"
  shows "\<exists>e. reliable (history (q', tk)) = reliable (history (q, tk)) @ [e] \<and> se_kind e = k \<and> se_snapshot e = v"
proof -
  define q1 where "q1 = q\<lparr>current := v\<rparr>"
  define q2 where "q2 = (if \<not> room q1 then removeStatistics q1 else q1)"
  let ?a = "append_event q2 k v 0 OpSucceeded 0 NoFailure 0"
  have live: "\<not> ev_stopped q" and q': "q' = ?a"
    using assms(1,2) by (auto simp: publish_def Let_def q1_def q2_def split: if_splits)
  have np: "\<not> overflowPending q2" using live assms(3) by (auto simp: events_inv_def q2_def q1_def removeStatistics_def)
  have "reliable (history (q2, tk)) = reliable (history (q, tk))"
    by (simp add: q2_def q1_def removeStatistics_def history_def reliable_def)
  with np show ?thesis by (simp add: q' history_def append_event_def Let_def reliable_def assms(2))
qed

text \<open>
  C16: No reliable event is lost. Once \<open>publish\<close> has accepted a state, desktop or bell event,
  then whatever is called afterwards, the reliable events before it and the event itself
  keep their place: they are a prefix of all reliable events delivered or to be delivered.
\<close>

theorem reliable_events_kept:
  assumes "events_inv (q, tk)" and "publish q k v = Inr (True, q')" and "k \<noteq> Statistics"
  shows "\<exists>e. se_kind e = k \<and> se_snapshot e = v \<and>
    prefix (reliable (history (q, tk)) @ [e]) (reliable (history (run events_step (q', tk) cs)))"
proof -
  obtain e where e: "reliable (history (q', tk)) = reliable (history (q, tk)) @ [e]" "se_kind e = k" "se_snapshot e = v"
    using publish_appends [OF assms(2,3,1)] by blast
  have "events_inv (q', tk)" using events_publish_inv [OF assms(1,2)] by simp
  then have "keeps (q', tk) (run events_step (q', tk) cs)" by (rule run_keeps)
  with e show ?thesis by (auto simp: keeps_def)
qed

definition demo_snapshot :: "unit snapshot" where
  "demo_snapshot = se_snapshot (default_event ())"

definition demo_events :: "unit session_events" where
  "demo_events = (case new_events () demo_snapshot 2 of Inr q \<Rightarrow> q)"

lemma demo_limit: "\<not> (- 4 :: u64) \<le> 1"
  using exhausted_limit [of 2] by (simp add: word_le_nat_alt)

lemma demo_events: "new_events () demo_snapshot 2 = Inr demo_events"
  by (simp add: demo_events_def new_events_def demo_snapshot_def default_event_def)

theorem session_events_bounded_witness:
  "\<exists>q tk. run events_step (demo_events, []) [EvPublish Bell demo_snapshot, EvTake] = (q, tk) \<and>
     length (ev_queue q) + length (operations q) \<le> 2"
proof -
  obtain q tk where r: "run events_step (demo_events, []) [EvPublish Bell demo_snapshot, EvTake] = (q, tk)" by fastforce
  with session_events_bounded [OF demo_events r] show ?thesis by blast
qed

theorem completion_exactly_once_witness:
  "\<exists>q tk. run events_step (demo_events, []) [EvTake, EvReserve 1 7, EvSeal OpCancelled] = (q, tk) \<and> 1 \<le> operationId q \<and>
     completions 1 (history (q, tk)) = 1"
proof -
  let ?cs = "[EvTake, EvReserve 1 7, EvSeal OpCancelled] :: unit events_call list"
  obtain q tk where r: "run events_step (demo_events, []) ?cs = (q, tk)" by fastforce
  have n: "operationId (fst (run events_step (demo_events, []) ?cs)) = 1 \<and> sealed (fst (run events_step (demo_events, []) ?cs))"
    by (simp add: demo_events_def demo_snapshot_def default_event_def new_events_def append_event_def take_event_def
        reserve_def admit_def sequenceExhausted_def room_def seal_def finishOperations_def sealed_def demo_limit Let_def)
  then have "1 \<le> operationId q" "sealed q" by (simp_all only: r fst_conv)
  with completion_exactly_once [OF demo_events r, of 1] r show ?thesis by auto
qed

theorem reliable_events_kept_witness:
  "\<exists>q' e. publish demo_events Bell demo_snapshot = Inr (True, q') \<and> se_kind e = Bell \<and>
     prefix (reliable (history (demo_events, [])) @ [e]) (reliable (history (run events_step (q', []) [EvTake, EvSeal OpFailed])))"
proof -
  have "map_sum id fst (publish demo_events Bell demo_snapshot) = Inr True"
    by (simp add: demo_events_def demo_snapshot_def default_event_def new_events_def append_event_def publish_def
        sequenceExhausted_def room_def demo_limit Let_def)
  then obtain q' where p: "publish demo_events Bell demo_snapshot = Inr (True, q')"
    by (cases "publish demo_events Bell demo_snapshot") auto
  from reliable_events_kept [OF new_events_inv [OF demo_events] p] p show ?thesis by blast
qed

end
