(* ===== verification/Connection_Document.thy ===== *)
theory Connection_Document
  imports Prelude
begin

text \<open>
  The saved-connection file format, \<open>viewer/core/ConnectionDocument.cxx\<close>: parsing lines into
  entries, escaping and unescaping values, and writing a document. Every \<open>throw\<close> is an error
  value with the line it names (zero for a whole document or value).
\<close>

subsection \<open>Data\<close>

datatype document_error_code = Empty | InvalidHeader | NullByte | LineTooLong | InvalidAssignment
  | InvalidEscape | TooLarge | TooManyEntries | InvalidExportName | InvalidValue | Unavailable

record document_error =
  err_code :: document_error_code
  err_line :: nat

record document_assignment =
  as_name :: string
  as_value :: string

record document_entry =
  en_name :: string
  encodedValue :: string
  en_line :: nat

record connection_document =
  legacy :: bool
  doc_fields :: "document_entry list"

abbreviation doc_fail :: "document_error_code \<Rightarrow> nat \<Rightarrow> document_error + 'a" where
  "doc_fail c l \<equiv> Inl \<lparr>err_code = c, err_line = l\<rparr>"

abbreviation NL :: char where "NL \<equiv> CHR 0x0A"
abbreviation CRc :: char where "CRc \<equiv> CHR 0x0D"
abbreviation NUL :: char where "NUL \<equiv> CHR 0x00"
abbreviation BS :: char where "BS \<equiv> CHR 0x5C"
abbreviation EQ :: char where "EQ \<equiv> CHR ''=''"

definition maximumBytes :: nat where "maximumBytes = 1024 * 1024"
definition maximumEntries :: nat where "maximumEntries = 4096"
definition maximumLineBytes :: nat where "maximumLineBytes = 254"

definition header :: string where
  "header = ''TidyVNC Configuration file Version 1.0''"

definition legacyHeader :: string where
  "legacyHeader = ''TigerVNC Configuration file Version 1.0''"

subsection \<open>Operations\<close>

definition lower :: "char \<Rightarrow> nat" where
  "lower c = (let n = of_char c :: nat in if 65 \<le> n \<and> n \<le> 90 then n + 32 else n)"

definition equalASCII :: "string \<Rightarrow> string \<Rightarrow> bool" where
  "equalASCII lhs rhs \<longleftrightarrow> length lhs = length rhs \<and> list_all2 (\<lambda>a b. lower a = lower b) lhs rhs"

definition pop_back :: "string \<Rightarrow> string" where
  "pop_back = butlast"

text \<open>The header line loses all trailing line feeds and carriage returns.\<close>

definition strip_header :: "string \<Rightarrow> string" where
  "strip_header s = rev (dropWhile (\<lambda>c. c = NL \<or> c = CRc) (rev s))"

text \<open>One line, its terminating line feed included, and the rest of the bytes.\<close>

definition cut_line :: "string \<Rightarrow> string \<times> string" where
  "cut_line s = (case str_find NL s of
       None \<Rightarrow> (s, [])
     | Some i \<Rightarrow> (take (Suc i) s, drop (Suc i) s))"

lemma cut_line_shorter: "s \<noteq> [] \<Longrightarrow> length (snd (cut_line s)) < length s"
  by (auto simp: cut_line_def dest: str_find_SomeD(1) split: option.split)

definition parse_line :: "connection_document \<Rightarrow> nat \<Rightarrow> string \<Rightarrow> document_error + connection_document" where
  "parse_line doc lineNumber line =
     (if length line > maximumLineBytes then doc_fail LineTooLong lineNumber
      else if NUL \<in> set line then doc_fail NullByte lineNumber
      else if lineNumber = 1
      then let line = strip_header line in
           if line \<noteq> header \<and> line \<noteq> legacyHeader then doc_fail InvalidHeader 1
           else Inr (doc\<lparr>legacy := (line = legacyHeader)\<rparr>)
      else if hd line = CHR ''#'' \<or> hd line = NL \<or> hd line = CRc then Inr doc
      else
        let line = (if last line = NL then pop_back line else line);
            line = (if line \<noteq> [] \<and> last line = CRc then pop_back line else line)
        in case str_find EQ line of
             None \<Rightarrow> doc_fail InvalidAssignment lineNumber
           | Some sep \<Rightarrow>
               if length (doc_fields doc) = maximumEntries then doc_fail TooManyEntries lineNumber
               else Inr (doc\<lparr>doc_fields := doc_fields doc @
                      [\<lparr>en_name = take sep line, encodedValue = drop (Suc sep) line, en_line = lineNumber\<rparr>]\<rparr>))"

function parse_loop :: "connection_document \<Rightarrow> nat \<Rightarrow> string \<Rightarrow> document_error + connection_document" where
  "parse_loop doc lineNumber rest =
     (if rest = [] then Inr doc
      else let (line, rest') = cut_line rest in
           ebind (parse_line doc (Suc lineNumber) line) (\<lambda>doc. parse_loop doc (Suc lineNumber) rest'))"
  by pat_completeness auto

termination
proof (relation "measure (\<lambda>(doc, n, rest). length rest)")
  fix doc n rest p line rest' x
  assume "rest \<noteq> []" "p = cut_line rest" "(line, rest') = p"
  then show "((x, Suc n, rest'), (doc :: connection_document, n, rest)) \<in> measure (\<lambda>(doc, n, rest). length rest)"
    using cut_line_shorter [of rest] by (metis in_measure old.prod.case snd_conv)
qed simp

declare parse_loop.simps [simp del]

definition parse :: "string \<Rightarrow> document_error + connection_document" where
  "parse bytes =
     (if length bytes > maximumBytes then doc_fail TooLarge 0
      else if bytes = [] then doc_fail Empty 0
      else parse_loop \<lparr>legacy = False, doc_fields = []\<rparr> 0 bytes)"

fun decode_loop :: "string \<Rightarrow> document_error + string" where
  "decode_loop [] = Inr []"
| "decode_loop (c # cs) =
     (if c = NUL then doc_fail NullByte 0
      else if c = BS
      then (case cs of
              [] \<Rightarrow> doc_fail InvalidEscape 0
            | d # ds \<Rightarrow>
                if d = CHR ''n'' then ebind (decode_loop ds) (\<lambda>r. Inr (NL # r))
                else if d = CHR ''r'' then ebind (decode_loop ds) (\<lambda>r. Inr (CRc # r))
                else if d = BS then ebind (decode_loop ds) (\<lambda>r. Inr (BS # r))
                else doc_fail InvalidEscape 0)
      else ebind (decode_loop cs) (\<lambda>r. Inr (c # r)))"

definition decodeValue :: "string \<Rightarrow> document_error + string" where
  "decodeValue v = (if length v > 255 then doc_fail LineTooLong 0 else decode_loop v)"

definition entry_value :: "document_entry \<Rightarrow> document_error + string" where
  "entry_value e = (case decodeValue (encodedValue e) of
       Inl err \<Rightarrow> doc_fail (err_code err) (en_line e)
     | Inr v \<Rightarrow> Inr v)"

definition escape :: "char \<Rightarrow> string" where
  "escape c = (if c = NL then [BS, CHR ''n''] else if c = CRc then [BS, CHR ''r'']
     else if c = BS then [BS, BS] else [c])"

fun encode_loop :: "string \<Rightarrow> string \<Rightarrow> document_error + string" where
  "encode_loop result [] = Inr result"
| "encode_loop result (c # cs) =
     (if c = NUL then doc_fail NullByte 0
      else let result = result @ escape c in
           if length result > 255 then doc_fail LineTooLong 0 else encode_loop result cs)"

definition encodeValue :: "string \<Rightarrow> document_error + string" where
  "encodeValue v = (if length v > 255 then doc_fail LineTooLong 0 else encode_loop [] v)"

definition export_names :: "string list" where
  "export_names = [''ServerName'', ''X509CA'', ''X509CRL'', ''SecurityTypes'', ''ReconnectOnError'', ''Shared'', ''Audio'',
    ''AutoSelect'', ''FullColor'', ''LowColorLevel'', ''PreferredEncoding'', ''CustomCompressLevel'',
    ''CompressLevel'', ''NoJPEG'', ''QualityLevel'', ''ScalingFactor'', ''ScalingQuality'', ''DesktopPixelUnits'',
    ''FullScreen'', ''FullScreenMode'', ''FullScreenSelectedMonitors'', ''ViewOnly'', ''EmulateMiddleButton'',
    ''AlwaysCursor'', ''CursorType'', ''AcceptClipboard'', ''SendClipboard'', ''SendPrimary'', ''SetPrimary'',
    ''FullscreenSystemKeys'', ''ShortcutModifiers'']"

definition exportName :: "string \<Rightarrow> string option" where
  "exportName name = find (\<lambda>candidate. equalASCII name candidate) export_names"

definition serialize_step :: "string \<Rightarrow> document_assignment \<Rightarrow> document_error + string" where
  "serialize_step result field = (case exportName (as_name field) of
       None \<Rightarrow> doc_fail InvalidExportName 0
     | Some name \<Rightarrow>
         ebind (encodeValue (as_value field)) (\<lambda>v.
         let line = name @ [EQ] @ v @ [NL] in
         if length line > maximumLineBytes then doc_fail LineTooLong 0
         else if length line > size_sub maximumBytes (length result) then doc_fail TooLarge 0
         else Inr (result @ line)))"

definition serialize :: "document_assignment list \<Rightarrow> document_error + string" where
  "serialize values =
     (if length values > maximumEntries then doc_fail TooManyEntries 0
      else efold serialize_step (header @ [NL, NL]) values)"

subsection \<open>Values\<close>

lemma encode_loop_eq:
  assumes "encode_loop acc cs = Inr r"
  shows "r = acc @ concat (map escape cs)" "NUL \<notin> set cs" "length acc \<le> 255 \<Longrightarrow> length r \<le> 255"
proof -
  have "r = acc @ concat (map escape cs) \<and> NUL \<notin> set cs \<and> (length acc \<le> 255 \<longrightarrow> length r \<le> 255)"
    using assms
  proof (induction cs arbitrary: acc)
    case (Cons c cs)
    then have "c \<noteq> NUL" "length (acc @ escape c) \<le> 255" "encode_loop (acc @ escape c) cs = Inr r"
      by (auto simp: Let_def split: if_splits)
    with Cons.IH [of "acc @ escape c"] show ?case by auto
  qed simp
  then show "r = acc @ concat (map escape cs)" "NUL \<notin> set cs" "length acc \<le> 255 \<Longrightarrow> length r \<le> 255" by auto
qed

lemma decode_escape: "c \<noteq> NUL \<Longrightarrow> decode_loop (escape c @ s) = ebind (decode_loop s) (\<lambda>r. Inr (c # r))"
  by (simp add: escape_def)

lemma decode_encode: "NUL \<notin> set cs \<Longrightarrow> decode_loop (concat (map escape cs)) = Inr cs"
  by (induction cs) (auto simp: decode_escape)

lemma escape_chars: "set (escape c) \<inter> {NL, CRc} = {}" "NUL \<in> set (escape c) \<longleftrightarrow> c = NUL"
  by (auto simp: escape_def)

lemma encodeValue_props:
  assumes "encodeValue v = Inr r"
  shows "decodeValue r = Inr v" "NL \<notin> set r" "CRc \<notin> set r" "NUL \<notin> set r"
proof -
  have e: "encode_loop [] v = Inr r" using assms by (simp add: encodeValue_def split: if_splits)
  note props = encode_loop_eq [OF e]
  have r: "r = concat (map escape v)" using props(1) by simp
  have nul: "NUL \<notin> set v" by (rule props(2))
  show "decodeValue r = Inr v" using props(3) decode_encode [OF nul] by (simp add: decodeValue_def r)
  show "NL \<notin> set r" "CRc \<notin> set r" using escape_chars(1) unfolding r by auto
  show "NUL \<notin> set r" using nul unfolding r by (auto simp: escape_chars(2))
qed

subsection \<open>Names\<close>

lemma export_names_chars:
  "\<forall>n\<in>set export_names. n \<noteq> [] \<and> hd n \<noteq> CHR ''#'' \<and> set n \<inter> {EQ, NL, CRc, NUL} = {}"
  by (simp add: export_names_def)

lemma exportName_chars:
  assumes "exportName s = Some n"
  shows "n \<noteq> []" "hd n \<noteq> CHR ''#''" "EQ \<notin> set n" "NL \<notin> set n" "CRc \<notin> set n" "NUL \<notin> set n"
proof -
  have "n \<in> set export_names" using assms by (auto simp: exportName_def find_Some_iff)
  with export_names_chars show "n \<noteq> []" "hd n \<noteq> CHR ''#''" "EQ \<notin> set n" "NL \<notin> set n" "CRc \<notin> set n" "NUL \<notin> set n"
    by auto
qed

subsection \<open>Lines\<close>

lemma cut_line_first: "NL \<notin> set l \<Longrightarrow> cut_line (l @ NL # rest) = (l @ [NL], rest)"
  by (simp add: cut_line_def str_find_first)

lemma parse_loop_line:
  assumes "NL \<notin> set l"
  shows "parse_loop doc n (l @ NL # rest) = ebind (parse_line doc (Suc n) (l @ [NL])) (\<lambda>doc. parse_loop doc (Suc n) rest)"
  by (subst parse_loop.simps) (simp add: cut_line_first [OF assms])

lemma parse_assignment_line:
  assumes "name \<noteq> []" "hd name \<noteq> CHR ''#''" "set name \<inter> {EQ, NL, CRc, NUL} = {}"
    and "NL \<notin> set v" "CRc \<notin> set v" "NUL \<notin> set v"
    and "length (name @ [EQ] @ v @ [NL]) \<le> maximumLineBytes" "length (doc_fields doc) < maximumEntries" "0 < n"
  shows "parse_line doc (Suc n) ((name @ EQ # v) @ [NL]) =
    Inr (doc\<lparr>doc_fields := doc_fields doc @ [\<lparr>en_name = name, encodedValue = v, en_line = Suc n\<rparr>]\<rparr>)"
proof -
  let ?l = "name @ EQ # v"
  have h: "hd (?l @ [NL]) \<noteq> CHR ''#''" "hd (?l @ [NL]) \<noteq> NL" "hd (?l @ [NL]) \<noteq> CRc"
    using assms(1-3) by (auto simp: neq_Nil_conv)
  have "last ?l \<noteq> CRc" using assms(5) by (cases v rule: rev_cases) auto
  moreover have "str_find EQ ?l = Some (length name)" using assms(3) by (intro str_find_first) auto
  moreover have "NUL \<notin> set (?l @ [NL])" using assms(3,6) by auto
  moreover have "length (?l @ [NL]) \<le> maximumLineBytes" using assms(7) by simp
  moreover have "pop_back (?l @ [NL]) = ?l" by (simp add: pop_back_def butlast_append)
  ultimately show ?thesis using h assms(8,9) unfolding parse_line_def by (simp add: Let_def)
qed

text \<open>The lines and entries of a list of accepted assignments.\<close>

definition accepted :: "document_assignment \<Rightarrow> string \<Rightarrow> string \<Rightarrow> bool" where
  "accepted a name v \<longleftrightarrow> exportName (as_name a) = Some name \<and> encodeValue (as_value a) = Inr v \<and>
     length (name @ [EQ] @ v @ [NL]) \<le> maximumLineBytes"

lemma serialize_step_Inr:
  assumes "serialize_step res a = Inr res'" "length res \<le> maximumBytes"
  obtains name v where "accepted a name v" "res' = res @ (name @ EQ # v) @ [NL]" "length res' \<le> maximumBytes"
  using assms
  by (auto simp: serialize_step_def accepted_def ebind_eq_Inr Let_def split: option.splits if_splits)

lemma exported_names: "efold serialize_step res as = Inr bytes \<Longrightarrow> a \<in> set as \<Longrightarrow> exportName (as_name a) \<noteq> None"
  by (induction as arbitrary: res) (auto simp: ebind_eq_Inr serialize_step_def split: option.splits)

definition decoded :: "connection_document \<Rightarrow> (string \<times> (document_error + string)) list" where
  "decoded doc = map (\<lambda>e. (en_name e, entry_value e)) (doc_fields doc)"

lemma parse_serialized:
  assumes "efold serialize_step res as = Inr bytes" "length res \<le> maximumBytes"
  obtains body where "bytes = res @ body" "length bytes \<le> maximumBytes"
    "\<And>doc n. 0 < n \<Longrightarrow> length (doc_fields doc) + length as \<le> maximumEntries \<Longrightarrow>
       \<exists>doc'. parse_loop doc n body = Inr doc' \<and> legacy doc' = legacy doc \<and>
         decoded doc' = decoded doc @ map (\<lambda>a. (the (exportName (as_name a)), Inr (as_value a))) as"
  using assms
proof (induction as arbitrary: res thesis)
  case Nil
  then show ?case by (intro Nil.prems(1) [of "[]"]) (auto simp: parse_loop.simps)
next
  case (Cons a as)
  from Cons.prems(2) obtain res1 where s: "serialize_step res a = Inr res1" "efold serialize_step res1 as = Inr bytes"
    by (auto simp: ebind_eq_Inr)
  from serialize_step_Inr [OF s(1) Cons.prems(3)] obtain name v where
    acc: "accepted a name v" and r1: "res1 = res @ (name @ EQ # v) @ [NL]" "length res1 \<le> maximumBytes" by blast
  have nm: "exportName (as_name a) = Some name" and ev: "encodeValue (as_value a) = Inr v"
    and len: "length (name @ [EQ] @ v @ [NL]) \<le> maximumLineBytes" using acc by (simp_all add: accepted_def)
  note n = exportName_chars [OF nm] and e = encodeValue_props [OF ev]
  show ?case
  proof (rule Cons.IH [OF _ s(2) r1(2)])
    fix body
    assume b: "bytes = res1 @ body" "length bytes \<le> maximumBytes"
      and ih: "\<And>doc n. 0 < n \<Longrightarrow> length (doc_fields doc) + length as \<le> maximumEntries \<Longrightarrow>
       \<exists>doc'. parse_loop doc n body = Inr doc' \<and> legacy doc' = legacy doc \<and>
         decoded doc' = decoded doc @ map (\<lambda>a. (the (exportName (as_name a)), Inr (as_value a))) as"
    show thesis
    proof (rule Cons.prems(1) [of "(name @ EQ # v) @ NL # body"])
      show "bytes = res @ (name @ EQ # v) @ NL # body" using b(1) r1(1) by simp
      show "length bytes \<le> maximumBytes" by (rule b(2))
      fix doc :: connection_document and k :: nat
      assume k: "0 < k" and sz: "length (doc_fields doc) + length (a # as) \<le> maximumEntries"
      let ?d = "doc\<lparr>doc_fields := doc_fields doc @ [\<lparr>en_name = name, encodedValue = v, en_line = Suc k\<rparr>]\<rparr>"
      have pl: "parse_line doc (Suc k) ((name @ EQ # v) @ [NL]) = Inr ?d"
        by (rule parse_assignment_line) (use n e len k sz in auto)
      have "NL \<notin> set (name @ EQ # v)" using n(4) e(2) by simp
      from parse_loop_line [OF this, of doc k body] pl
      have "parse_loop doc k ((name @ EQ # v) @ NL # body) = parse_loop ?d (Suc k) body" by simp
      moreover have "decoded ?d = decoded doc @ [(name, Inr (as_value a))]"
        using e(1) by (simp add: decoded_def entry_value_def)
      ultimately show "\<exists>doc'. parse_loop doc k ((name @ EQ # v) @ NL # body) = Inr doc' \<and> legacy doc' = legacy doc \<and>
         decoded doc' = decoded doc @ map (\<lambda>a. (the (exportName (as_name a)), Inr (as_value a))) (a # as)"
        using ih [of "Suc k" ?d] sz nm by simp
    qed
  qed
qed

subsection \<open>Properties\<close>

text \<open>
  C26: A saved document reads back as it was written. If \<open>serialize\<close> accepts a list of
  assignments, \<open>parse\<close> accepts the bytes, finds the current header, and gives the same
  assignments in the same order: each name in its catalogue spelling, each value decoded to
  what was saved, whatever escapes, equal signs or line breaks it contained.
\<close>

theorem document_round_trip:
  assumes "serialize as = Inr bytes"
  shows "\<exists>doc. parse bytes = Inr doc \<and> \<not> legacy doc \<and>
    map (\<lambda>e. (Some (en_name e), entry_value e)) (doc_fields doc) =
    map (\<lambda>a. (exportName (as_name a), Inr (as_value a))) as"
proof -
  have n: "length as \<le> maximumEntries" and e: "efold serialize_step (header @ [NL, NL]) as = Inr bytes"
    using assms by (auto simp: serialize_def split: if_splits)
  have "length (header @ [NL, NL]) \<le> maximumBytes" by (simp add: header_def maximumBytes_def)
  then obtain body where b: "bytes = (header @ [NL, NL]) @ body" "length bytes \<le> maximumBytes"
    and ih: "\<And>doc n. 0 < n \<Longrightarrow> length (doc_fields doc) + length as \<le> maximumEntries \<Longrightarrow>
       \<exists>doc'. parse_loop doc n body = Inr doc' \<and> legacy doc' = legacy doc \<and>
         decoded doc' = decoded doc @ map (\<lambda>a. (the (exportName (as_name a)), Inr (as_value a))) as"
    using parse_serialized [OF e] by blast
  let ?d = "\<lparr>legacy = False, doc_fields = []\<rparr>"
  have l1: "parse_line ?d (Suc 0) (header @ [NL]) = Inr ?d"
    by (simp add: parse_line_def header_def legacyHeader_def maximumLineBytes_def strip_header_def)
  have l2: "parse_line ?d (Suc (Suc 0)) ([] @ [NL]) = Inr ?d"
    by (simp add: parse_line_def maximumLineBytes_def)
  have "NL \<notin> set header" by (simp add: header_def)
  from parse_loop_line [OF this, of ?d 0 "NL # body"] l1
  have "parse_loop ?d 0 bytes = parse_loop ?d (Suc 0) ([] @ NL # body)" by (simp add: b(1))
  also have "\<dots> = parse_loop ?d 2 body"
    using parse_loop_line [of "[]" ?d "Suc 0" body] l2 by (simp add: numeral_2_eq_2)
  finally have p: "parse bytes = parse_loop ?d 2 body" using b by (simp add: parse_def)
  from ih [of 2 ?d] n obtain doc where doc: "parse_loop ?d 2 body = Inr doc" "legacy doc = False"
    "decoded doc = map (\<lambda>a. (the (exportName (as_name a)), Inr (as_value a))) as"
    by (auto simp: decoded_def)
  have names: "exportName (as_name a) = Some (the (exportName (as_name a)))" if "a \<in> set as" for a
    using exported_names [OF e] that by (metis option.collapse)
  have "map (map_prod Some id) (decoded doc) = map (\<lambda>a. (exportName (as_name a), Inr (as_value a))) as"
    using doc(3) names by simp
  then have "map (\<lambda>e. (Some (en_name e), entry_value e)) (doc_fields doc) =
      map (\<lambda>a. (exportName (as_name a), Inr (as_value a))) as"
    by (simp add: decoded_def comp_def)
  with p doc show ?thesis by auto
qed

theorem document_round_trip_witness:
  "\<exists>bytes doc. serialize [\<lparr>as_name = ''viewonly'', as_value = [CHR ''a'', NL, EQ, BS]\<rparr>] = Inr bytes \<and>
     parse bytes = Inr doc \<and> map entry_value (doc_fields doc) = [Inr [CHR ''a'', NL, EQ, BS]]"
proof -
  let ?as = "[\<lparr>as_name = ''viewonly'', as_value = [CHR ''a'', NL, EQ, BS]\<rparr>]"
  have x: "exportName ''viewonly'' = Some ''ViewOnly''" by code_simp
  obtain bytes where s: "serialize ?as = Inr bytes"
    by (simp add: serialize_def serialize_step_def x encodeValue_def escape_def header_def maximumLineBytes_def
        maximumBytes_def maximumEntries_def)
  from document_round_trip [OF s] obtain doc where d: "parse bytes = Inr doc"
    "map (\<lambda>e. (Some (en_name e), entry_value e)) (doc_fields doc) = map (\<lambda>a. (exportName (as_name a), Inr (as_value a))) ?as"
    by blast
  from arg_cong [OF d(2), of "map snd"] have "map entry_value (doc_fields doc) = [Inr [CHR ''a'', NL, EQ, BS]]"
    by (simp add: comp_def)
  then show ?thesis by (intro exI conjI) (rule s, rule d(1))
qed

end
