(* ===== verification/Endpoint.thy ===== *)
theory Endpoint
  imports Prelude
begin

text \<open>
  Addresses the user types: \<open>network::parseHostAndPort\<close> (\<open>common/network/HostPort.cxx\<close>),
  \<open>viewer::Endpoint\<close> (\<open>viewer/core/Endpoint.cxx\<close>, the POSIX build) and
  \<open>viewer::SSHGateway\<close> (\<open>viewer/core/SSHGateway.cxx\<close>). The C library's \<open>inet_pton\<close> and
  \<open>inet_ntop\<close> are parameters: the first gives the address bytes of a numeric host of the
  family, or nothing; the second prints address bytes.
\<close>

subsection \<open>Host and port\<close>

datatype host_port_error = InvalidHost | UnmatchedBracket | InvalidPort

record host_port =
  hp_host :: string
  hp_port :: nat

definition space :: "char \<Rightarrow> bool" where
  "space c \<longleftrightarrow> (of_char c :: nat) \<in> {9, 10, 11, 12, 13, 32}"

definition trim :: "string \<Rightarrow> string" where
  "trim = strip space"

definition str_rfind :: "char \<Rightarrow> string \<Rightarrow> nat option" where
  "str_rfind c s = map_option (\<lambda>i. length s - 1 - i) (str_find c (rev s))"

text \<open>The accumulating loops stop above 65535, so the 32-bit value never wraps.\<close>

fun port_loop :: "nat \<Rightarrow> string \<Rightarrow> nat option" where
  "port_loop v [] = Some v"
| "port_loop v (c # cs) =
     (if \<not> is_digit c then None
      else let v = v * 10 + digit_val c in if v > 65535 then None else port_loop v cs)"

definition parse_suffix :: "string \<Rightarrow> nat \<Rightarrow> host_port_error + nat" where
  "parse_suffix suffix basePort =
     (if suffix = [] then Inr basePort
      else if hd suffix \<noteq> CHR '':'' then Inl InvalidPort
      else
        let explicitPort = (length suffix > 1 \<and> suffix ! 1 = CHR '':'');
            number = trim (drop (if explicitPort then 2 else 1) suffix);
            number = (if number \<noteq> [] \<and> hd number = CHR ''+'' then tl number else number)
        in if number = [] then Inl InvalidPort
           else case port_loop 0 number of
                  None \<Rightarrow> Inl InvalidPort
                | Some port \<Rightarrow>
                    let port = (if \<not> explicitPort \<and> port < 100 then port + basePort else port)
                    in if port = 0 \<or> port > 65535 then Inl InvalidPort else Inr port)"

definition split_address :: "string \<Rightarrow> host_port_error + (string \<times> string)" where
  "split_address text =
     (if text \<noteq> [] \<and> hd text = CHR ''[''
      then (case str_find (CHR '']'') text of
              None \<Rightarrow> Inl UnmatchedBracket
            | Some e \<Rightarrow> Inr (trim (take (e - 1) (drop 1 text)), drop (e + 1) text))
      else (case str_rfind (CHR '':'') text of
              None \<Rightarrow> Inr (text, [])
            | Some e \<Rightarrow>
                let e = (if e > 0 \<and> text ! (e - 1) = CHR '':'' then e - 1 else e)
                in if str_find (CHR '':'') text \<noteq> Some e then Inr (text, [])
                   else Inr (trim (take e text), drop e text)))"

definition bad_host_char :: "char \<Rightarrow> bool" where
  "bad_host_char c \<longleftrightarrow> c = CHR ''['' \<or> c = CHR '']'' \<or> (of_char c :: nat) \<le> 32 \<or> (of_char c :: nat) = 127"

definition parseHostAndPort :: "string \<Rightarrow> int \<Rightarrow> host_port_error + host_port" where
  "parseHostAndPort address basePort =
     (if basePort < 1 \<or> basePort > 65535 then Inl InvalidPort
      else if CHR 0x00 \<in> set address then Inl InvalidHost
      else ebind (split_address (trim address)) (\<lambda>(host, suffix).
        if list_ex bad_host_char host then Inl InvalidHost
        else let host = (if host = [] then ''localhost'' else host)
             in ebind (parse_suffix suffix (nat basePort)) (\<lambda>port. Inr \<lparr>hp_host = host, hp_port = port\<rparr>)))"

subsection \<open>Endpoints\<close>

datatype endpoint_transport = Tcp | UnixSocket

datatype endpoint_error = TooLong | EpInvalidHost | EpUnmatchedBracket | EpInvalidPort | InvalidPath
  | InvalidRoute | UnsupportedTransport

record endpoint =
  ep_kind :: endpoint_transport
  label :: string
  canonicalHost :: string
  ipv6Scope :: string
  socketPath :: string
  routeID :: string
  tcpPort :: nat

text \<open>The flag of the numeric conversions is the family: true for IPv6.\<close>

type_synonym pton = "bool \<Rightarrow> string \<Rightarrow> byte list option"
type_synonym ntop = "bool \<Rightarrow> byte list \<Rightarrow> string option"

definition lower_ascii :: "char \<Rightarrow> char" where
  "lower_ascii c = (let n = of_char c :: nat in if 65 \<le> n \<and> n \<le> 90 then char_of (n + 32) else c)"

definition canonicalize :: "pton \<Rightarrow> ntop \<Rightarrow> string \<Rightarrow> endpoint_error + string" where
  "canonicalize pton ntop host =
     (let v6 = (CHR '':'' \<in> set host) in
      case pton v6 host of
        Some bytes \<Rightarrow> (case ntop v6 bytes of None \<Rightarrow> Inl EpInvalidHost | Some out \<Rightarrow> Inr out)
      | None \<Rightarrow> if v6 then Inl EpInvalidHost else Inr (map lower_ascii host))"

fun endpoint_error_of :: "host_port_error \<Rightarrow> endpoint_error" where
  "endpoint_error_of InvalidHost = EpInvalidHost"
| "endpoint_error_of UnmatchedBracket = EpUnmatchedBracket"
| "endpoint_error_of InvalidPort = EpInvalidPort"

definition split_scope :: "string \<Rightarrow> endpoint_error + (string \<times> string)" where
  "split_scope host = (case str_find (CHR ''%'') host of
       None \<Rightarrow> Inr (host, [])
     | Some i \<Rightarrow>
         let scope = drop (i + 1) host; host = take i host
         in if CHR '':'' \<notin> set host \<or> scope = [] \<or> CHR ''%'' \<in> set scope then Inl EpInvalidHost
            else Inr (host, scope))"

definition parse_endpoint :: "pton \<Rightarrow> ntop \<Rightarrow> string \<Rightarrow> bool \<Rightarrow> string \<Rightarrow> endpoint_error + endpoint" where
  "parse_endpoint pton ntop text allowUnixSockets routeIdentity =
     (if length text > 4096 \<or> length routeIdentity > 4096 then Inl TooLong
      else if CHR 0x00 \<in> set routeIdentity then Inl InvalidRoute
      else
        let result = \<lparr>ep_kind = Tcp, label = text, canonicalHost = [], ipv6Scope = [], socketPath = [],
                      routeID = routeIdentity, tcpPort = 0\<rparr>
        in if CHR ''/'' \<in> set text
           then if \<not> allowUnixSockets then Inl UnsupportedTransport
                else if CHR 0x00 \<in> set text then Inl InvalidPath
                else Inr (result\<lparr>ep_kind := UnixSocket, socketPath := text\<rparr>)
           else case parseHostAndPort text 5900 of
                  Inl e \<Rightarrow> Inl (endpoint_error_of e)
                | Inr parsed \<Rightarrow>
                    ebind (split_scope (hp_host parsed)) (\<lambda>(host, scope).
                    ebind (canonicalize pton ntop host) (\<lambda>canonical.
                    Inr (result\<lparr>ipv6Scope := scope, canonicalHost := canonical, tcpPort := hp_port parsed\<rparr>))))"

definition networkHost :: "endpoint \<Rightarrow> string" where
  "networkHost e = canonicalHost e @ (if ipv6Scope e = [] then [] else ''%'' @ ipv6Scope e)"

definition endpoint_eq :: "endpoint \<Rightarrow> endpoint \<Rightarrow> bool" where
  "endpoint_eq a b \<longleftrightarrow> ep_kind a = ep_kind b \<and> canonicalHost a = canonicalHost b \<and> ipv6Scope a = ipv6Scope b \<and>
     tcpPort a = tcpPort b \<and> socketPath a = socketPath b \<and> routeID a = routeID b"

subsection \<open>SSH gateways\<close>

record ssh_gateway =
  gw_host :: string
  gw_scope :: string
  gw_user :: string
  canonicalURI :: string
  gw_port :: nat
  hasUser :: bool
  portIsExplicit :: bool

definition alphanumeric :: "char \<Rightarrow> bool" where
  "alphanumeric c \<longleftrightarrow> (let n = of_char c :: nat in (97 \<le> n \<and> n \<le> 122) \<or> (65 \<le> n \<and> n \<le> 90) \<or> (48 \<le> n \<and> n \<le> 57))"

definition userCharacter :: "char \<Rightarrow> bool" where
  "userCharacter c \<longleftrightarrow> alphanumeric c \<or> c = CHR ''.'' \<or> c = CHR ''_'' \<or> c = CHR ''-''"

definition hostCharacter :: "char \<Rightarrow> bool" where
  "hostCharacter c \<longleftrightarrow> userCharacter c \<or> c = CHR '':''"

definition parseDecimalPort :: "string \<Rightarrow> nat option" where
  "parseDecimalPort text = (if text = [] then None else port_loop 0 text)"

text \<open>Every failure is the one exception \<open>invalid()\<close>, here \<open>None\<close>.\<close>

definition gatewayPort :: "string \<Rightarrow> nat option" where
  "gatewayPort text = (case parseDecimalPort text of None \<Rightarrow> None | Some p \<Rightarrow> if p = 0 then None else Some p)"

definition split_user :: "string \<Rightarrow> (string option \<times> string) option" where
  "split_user destination = (case str_find (CHR ''@'') destination of
       None \<Rightarrow> Some (None, destination)
     | Some at \<Rightarrow>
         let user = take at destination; rest = drop (at + 1) destination
         in if CHR ''@'' \<in> set rest \<or> user = [] \<or> length user > 255 \<or> \<not> list_all userCharacter user then None
            else Some (Some user, rest))"

definition split_port :: "bool \<Rightarrow> string \<Rightarrow> (string \<times> nat option) option" where
  "split_port uri destination =
     (if destination \<noteq> [] \<and> hd destination = CHR ''[''
      then (case str_find (CHR '']'') destination of
              None \<Rightarrow> None
            | Some e \<Rightarrow>
                let host = take (e + 1) destination; suffix = drop (e + 1) destination
                in if suffix = [] then Some (host, None)
                   else if \<not> uri \<or> hd suffix \<noteq> CHR '':'' then None
                   else map_option (\<lambda>p. (host, Some p)) (gatewayPort (drop 1 suffix)))
      else (case str_find (CHR '':'') destination of
              None \<Rightarrow> Some (destination, None)
            | Some i \<Rightarrow>
                if \<not> uri \<or> count_list destination (CHR '':'') \<noteq> 1 then None
                else map_option (\<lambda>p. (take i destination, Some p)) (gatewayPort (drop (i + 1) destination))))"

definition canonical_uri :: "string option \<Rightarrow> string \<Rightarrow> string \<Rightarrow> nat option \<Rightarrow> string" where
  "canonical_uri user host scope port =
     (let name = host @ (if scope = [] then [] else ''%'' @ scope);
          forwarding = (if CHR '':'' \<in> set host then ''['' @ name @ '']'' else name)
      in ''ssh://'' @ (case user of None \<Rightarrow> [] | Some u \<Rightarrow> u @ ''@'') @ forwarding @
         (case port of None \<Rightarrow> [] | Some p \<Rightarrow> '':'' @ to_string p))"

definition parse_gateway :: "pton \<Rightarrow> ntop \<Rightarrow> string \<Rightarrow> ssh_gateway option" where
  "parse_gateway pton ntop text =
     (if text = [] \<or> length text > 4096 \<or> CHR 0x00 \<in> set text then None
      else
        let uri = (take 6 text = ''ssh://'');
            destination = (if uri then drop 6 text else text)
        in case split_user destination of None \<Rightarrow> None | Some (user, destination) \<Rightarrow>
           case split_port uri destination of None \<Rightarrow> None | Some (host, port) \<Rightarrow>
             let p = (case port of None \<Rightarrow> 22 | Some p \<Rightarrow> p)
             in if host = [] \<or> hd host = CHR ''-'' \<or> CHR ''/'' \<in> set host \<or> CHR 0x5C \<in> set host then None
                else case parse_endpoint pton ntop (host @ ''::'' @ to_string p) False [] of
                  Inl _ \<Rightarrow> None
                | Inr e \<Rightarrow>
                    let h = canonicalHost e; s = ipv6Scope e; c = canonical_uri user h s port
                    in if h = [] \<or> hd h = CHR ''-'' \<or> \<not> list_all hostCharacter h \<or>
                          \<not> list_all (\<lambda>c. c \<noteq> CHR '':'' \<and> hostCharacter c) s then None
                       else if length c > 4096 then None
                       else Some \<lparr>gw_host = h, gw_scope = s, gw_user = (case user of None \<Rightarrow> [] | Some u \<Rightarrow> u),
                              canonicalURI = c, gw_port = p, hasUser = (user \<noteq> None), portIsExplicit = (port \<noteq> None)\<rparr>)"

subsection \<open>Characters and numbers\<close>

lemma hostCharacter_not:
  assumes "hostCharacter c"
  shows "c \<noteq> CHR ''[''" "c \<noteq> CHR '']''" "c \<noteq> CHR ''@''" "c \<noteq> CHR ''%''" "c \<noteq> CHR ''/''" "c \<noteq> CHR 0x5C"
    "c \<noteq> CHR 0x00" "\<not> space c" "\<not> bad_host_char c"
  using assms by (auto simp: hostCharacter_def userCharacter_def alphanumeric_def space_def bad_host_char_def Let_def)

lemma hostCharacter_literals [simp]:
  "\<not> hostCharacter (CHR ''['')" "\<not> hostCharacter (CHR '']'')" "\<not> hostCharacter (CHR ''@'')" "\<not> hostCharacter (CHR ''%'')"
  "\<not> hostCharacter (CHR ''/'')" "\<not> hostCharacter (CHR 0x5C)" "\<not> hostCharacter (CHR 0x00)" "hostCharacter (CHR '':'')"
  by (simp_all add: hostCharacter_def userCharacter_def alphanumeric_def)

lemma userCharacter_NUL [simp]: "\<not> userCharacter (CHR 0x00)"
  by (simp add: userCharacter_def alphanumeric_def)

lemma userCharacter_host: "userCharacter c \<Longrightarrow> hostCharacter c \<and> c \<noteq> CHR '':''"
  by (auto simp: hostCharacter_def userCharacter_def alphanumeric_def Let_def)

lemma digit_host: "is_digit c \<Longrightarrow> hostCharacter c \<and> c \<noteq> CHR '':'' \<and> c \<noteq> CHR ''+''"
  by (auto simp: hostCharacter_def userCharacter_def alphanumeric_def is_digit_def Let_def)

lemma port_loop_eq:
  "list_all is_digit s \<Longrightarrow> foldl (\<lambda>a c. a * 10 + digit_val c) v s \<le> 65535 \<Longrightarrow>
     port_loop v s = Some (foldl (\<lambda>a c. a * 10 + digit_val c) v s)"
proof (induction s arbitrary: v)
  case (Cons c s)
  have mono: "w \<le> foldl (\<lambda>a c. a * 10 + digit_val c) w s" for w
  proof (induction s arbitrary: w)
    case (Cons a s)
    from Cons [of "w * 10 + digit_val a"] show ?case by simp
  qed simp
  have "v * 10 + digit_val c \<le> 65535" using mono [of "v * 10 + digit_val c"] Cons.prems(2) by simp
  with Cons show ?case by (simp add: Let_def)
qed simp

lemma port_loop_to_string: "p \<le> 65535 \<Longrightarrow> port_loop 0 (to_string p) = Some p"
  using port_loop_eq [of "to_string p" 0] to_string_digits [of p] decimal_value_to_string [of p]
  by (simp add: list_all_iff decimal_value_def)

lemma port_loop_range: "port_loop v s = Some p \<Longrightarrow> v \<le> 65535 \<Longrightarrow> p \<le> 65535"
  by (induction s arbitrary: v) (auto simp: Let_def split: if_splits)

lemma gatewayPort_range: "gatewayPort s = Some p \<Longrightarrow> 1 \<le> p \<and> p \<le> 65535"
  by (auto simp: gatewayPort_def parseDecimalPort_def dest: port_loop_range split: option.splits if_splits)

lemma gatewayPort_to_string: "1 \<le> p \<Longrightarrow> p \<le> 65535 \<Longrightarrow> gatewayPort (to_string p) = Some p"
  by (simp add: gatewayPort_def parseDecimalPort_def port_loop_to_string)

lemma to_string_22: "to_string 22 = ''22''"
  by (simp add: to_string.simps [of 22] to_string.simps [of 2] digit_char_def char_of_def bit_0)

lemma to_string_host: "list_all hostCharacter (to_string p)" "CHR '':'' \<notin> set (to_string p)"
  using to_string_digits [of p] digit_host by (auto simp: list_all_iff)

lemma to_string_char: "c \<in> set (to_string p) \<Longrightarrow> hostCharacter c"
  using to_string_host(1) [of p] by (simp add: list_all_iff)

lemma trim_host: "list_all hostCharacter s \<Longrightarrow> trim s = s"
  unfolding trim_def by (rule strip_none) (auto simp: list_all_iff hostCharacter_not(8))

lemma parse_suffix_explicit:
  assumes "1 \<le> p" "p \<le> 65535"
  shows "parse_suffix (''::'' @ to_string p) base = Inr p"
proof -
  have h: "hd (to_string p) \<noteq> CHR ''+''"
    using to_string_digits [of p] digit_host [of "hd (to_string p)"] by (simp add: list.set_sel)
  have "trim (to_string p) = to_string p" by (rule trim_host [OF to_string_host(1)])
  with h assms show ?thesis
    by (simp add: parse_suffix_def port_loop_to_string numeral_2_eq_2)
qed

lemma parse_suffix_range:
  assumes "parse_suffix s base = Inr p" "1 \<le> base" "base \<le> 65535"
  shows "1 \<le> p \<and> p \<le> 65535"
  using assms by (auto simp: parse_suffix_def Let_def split: if_splits option.splits)

subsection \<open>Splitting addresses\<close>

lemma str_rfind_last: "CHR '':'' \<notin> set t \<Longrightarrow> str_rfind (CHR '':'') (s @ CHR '':'' # t) = Some (length s)"
proof -
  assume t: "CHR '':'' \<notin> set t"
  have "str_find (CHR '':'') (rev (s @ CHR '':'' # t)) = Some (length (rev t))"
    using str_find_first [of "CHR '':''" "rev t" "rev s"] t by simp
  then show ?thesis by (simp add: str_rfind_def)
qed

lemma split_address_plain:
  assumes "s \<noteq> []" "list_all hostCharacter s" "CHR '':'' \<notin> set s" "CHR '':'' \<notin> set d"
  shows "split_address (s @ ''::'' @ d) = Inr (s, ''::'' @ d)"
proof -
  have h: "hd s \<noteq> CHR ''[''" using assms(1,2) by (auto simp: list_all_iff hostCharacter_not list.set_sel)
  have r: "str_rfind (CHR '':'') (s @ ''::'' @ d) = Some (Suc (length s))"
    using str_rfind_last [OF assms(4), of "s @ '':''"] by simp
  have f: "str_find (CHR '':'') (s @ ''::'' @ d) = Some (length s)"
    using str_find_first [OF assms(3), of "CHR '':'' # d"] by simp
  have n: "(s @ ''::'' @ d) ! length s = CHR '':''" by simp
  show ?thesis unfolding split_address_def using h assms(1) r f n trim_host [OF assms(2)]
    by (simp add: Let_def)
qed

lemma split_address_bracket:
  assumes "CHR '']'' \<notin> set s" "trim s = s"
  shows "split_address (''['' @ s @ '']'' @ r) = Inr (s, r)"
proof -
  have "str_find (CHR '']'') ((CHR ''['' # s) @ CHR '']'' # r) = Some (length (CHR ''['' # s))"
    using assms(1) by (intro str_find_first) simp
  with assms(2) show ?thesis by (simp add: split_address_def)
qed

subsection \<open>What the numeric conversions promise\<close>

text \<open>
  As documented for \<open>inet_pton\<close> and \<open>inet_ntop\<close>: printing an address and converting it again
  gives the same address; IPv6 text contains a colon and IPv4 text none; only digits and dots
  make an IPv4 address.
\<close>

definition inet_ok :: "pton \<Rightarrow> ntop \<Rightarrow> bool" where
  "inet_ok pton ntop \<longleftrightarrow>
     (\<forall>v6 h b out. pton v6 h = Some b \<longrightarrow> ntop v6 b = Some out \<longrightarrow>
        pton v6 out = Some b \<and> (CHR '':'' \<in> set out \<longleftrightarrow> v6)) \<and>
     (\<forall>h b. pton False h = Some b \<longrightarrow> list_all (\<lambda>c. is_digit c \<or> c = CHR ''.'') h)"

lemma lower_ascii_idem: "lower_ascii (lower_ascii c) = lower_ascii c"
  by (simp add: lower_ascii_def Let_def)

lemma lower_ascii_letter: "lower_ascii c = c \<or> 97 \<le> (of_char (lower_ascii c) :: nat)"
  by (simp add: lower_ascii_def Let_def)

lemma lower_ascii_ipv4: "is_digit (lower_ascii c) \<or> lower_ascii c = CHR ''.'' \<Longrightarrow> lower_ascii c = c"
  using lower_ascii_letter [of c] by (auto simp: is_digit_def)

lemma lower_ascii_colon: "lower_ascii c = CHR '':'' \<longleftrightarrow> c = CHR '':''"
proof
  assume "lower_ascii c = CHR '':''"
  then show "c = CHR '':''" using lower_ascii_letter [of c] by auto
qed (simp add: lower_ascii_def)

lemma canonical_stable:
  assumes "inet_ok pton ntop" "canonicalize pton ntop host = Inr h"
  shows "canonicalize pton ntop h = Inr h" "CHR '':'' \<in> set h \<longleftrightarrow> CHR '':'' \<in> set host"
proof -
  let ?v6 = "CHR '':'' \<in> set host"
  have "canonicalize pton ntop h = Inr h \<and> (CHR '':'' \<in> set h \<longleftrightarrow> ?v6)"
  proof (cases "pton ?v6 host")
    case (Some b)
    then obtain out where o: "ntop ?v6 b = Some out" "h = out"
      using assms(2) by (auto simp: canonicalize_def Let_def split: option.splits)
    with assms(1) Some have "pton ?v6 out = Some b" "CHR '':'' \<in> set out \<longleftrightarrow> ?v6" unfolding inet_ok_def by blast+
    with o show ?thesis by (simp add: canonicalize_def Let_def)
  next
    case None
    then have v4: "\<not> ?v6" and h: "h = map lower_ascii host"
      using assms(2) by (auto simp: canonicalize_def Let_def split: if_splits)
    have nc: "CHR '':'' \<notin> set h"
    proof
      assume "CHR '':'' \<in> set h"
      then obtain c where "c \<in> set host" "lower_ascii c = CHR '':''" unfolding h by (metis image_iff list.set_map)
      with v4 lower_ascii_colon show False by metis
    qed
    have "pton False h = None"
    proof (rule ccontr)
      assume "pton False h \<noteq> None"
      then have "list_all (\<lambda>c. is_digit c \<or> c = CHR ''.'') h" using assms(1) unfolding inet_ok_def by blast
      then have "\<forall>c\<in>set host. lower_ascii c = c" using lower_ascii_ipv4 by (auto simp: h list_all_iff)
      then have "h = host" by (simp add: h map_idI)
      with \<open>pton False h \<noteq> None\<close> None v4 show False by simp
    qed
    moreover have "map lower_ascii h = h" by (simp add: h lower_ascii_idem)
    ultimately show ?thesis using nc v4 by (simp add: canonicalize_def)
  qed
  then show "canonicalize pton ntop h = Inr h" "CHR '':'' \<in> set h \<longleftrightarrow> CHR '':'' \<in> set host" by auto
qed

subsection \<open>Canonical hosts parse to themselves\<close>

text \<open>A canonical host with its optional scope, and the text it is forwarded under.\<close>

definition host_ok :: "pton \<Rightarrow> ntop \<Rightarrow> string \<Rightarrow> string \<Rightarrow> bool" where
  "host_ok pton ntop h s \<longleftrightarrow> h \<noteq> [] \<and> list_all hostCharacter h \<and> list_all (\<lambda>c. c \<noteq> CHR '':'' \<and> hostCharacter c) s \<and>
     (s \<noteq> [] \<longrightarrow> CHR '':'' \<in> set h) \<and> canonicalize pton ntop h = Inr h"

definition host_name :: "string \<Rightarrow> string \<Rightarrow> string" where
  "host_name h s = h @ (if s = [] then [] else ''%'' @ s)"

definition forwarding :: "string \<Rightarrow> string \<Rightarrow> string" where
  "forwarding h s = (if CHR '':'' \<in> set h then ''['' @ host_name h s @ '']'' else host_name h s)"

lemma host_ok_chars:
  assumes "host_ok pton ntop h s" "c \<in> set (host_name h s)"
  shows "hostCharacter c \<or> c = CHR ''%''"
  using assms by (auto simp: host_ok_def host_name_def list_all_iff split: if_splits)

lemma host_name_clean:
  assumes "host_ok pton ntop h s" "c \<in> set (host_name h s)"
  shows "c \<noteq> CHR '']''" "c \<noteq> CHR ''@''" "c \<noteq> CHR ''/''" "c \<noteq> CHR 0x5C" "c \<noteq> CHR 0x00" "\<not> space c" "\<not> bad_host_char c"
  using host_ok_chars [OF assms] hostCharacter_not [of c] by (auto simp: space_def bad_host_char_def)

lemma split_scope_name:
  assumes "host_ok pton ntop h s"
  shows "split_scope (host_name h s) = Inr (h, s)"
proof -
  have h: "CHR ''%'' \<notin> set h" and s: "CHR ''%'' \<notin> set s"
    using assms unfolding host_ok_def list_all_iff by (metis hostCharacter_literals(4))+
  show ?thesis
  proof (cases "s = []")
    case True
    with h show ?thesis by (simp add: split_scope_def host_name_def str_find_def)
  next
    case False
    have "str_find (CHR ''%'') (h @ CHR ''%'' # s) = Some (length h)" by (rule str_find_first [OF h])
    with False assms s show ?thesis by (simp add: split_scope_def host_name_def host_ok_def)
  qed
qed

lemma trim_forwarding:
  assumes "host_ok pton ntop h s"
  shows "trim (forwarding h s @ ''::'' @ to_string p) = forwarding h s @ ''::'' @ to_string p"
  unfolding trim_def
proof (rule strip_none, rule ballI)
  fix c assume "c \<in> set (forwarding h s @ ''::'' @ to_string p)"
  then have "c \<in> set (host_name h s) \<or> c \<in> {CHR ''['', CHR '']'', CHR '':''} \<or> c \<in> set (to_string p)"
    by (auto simp: forwarding_def split: if_splits)
  then show "\<not> space c"
    using host_name_clean(6) [OF assms] to_string_host(1) [of p]
    by (auto simp: list_all_iff hostCharacter_not(8)) (auto simp: space_def)
qed

lemma split_forwarding:
  assumes "host_ok pton ntop h s"
  shows "split_address (forwarding h s @ ''::'' @ to_string p) = Inr (host_name h s, ''::'' @ to_string p)"
proof (cases "CHR '':'' \<in> set h")
  case True
  have "trim (host_name h s) = host_name h s"
    unfolding trim_def by (rule strip_none) (use host_name_clean(6) [OF assms] in blast)
  moreover have "CHR '']'' \<notin> set (host_name h s)" using host_name_clean(1) [OF assms] by blast
  ultimately show ?thesis using True split_address_bracket [of "host_name h s" "''::'' @ to_string p"]
    by (simp add: forwarding_def)
next
  case False
  then have s: "s = []" using assms by (auto simp: host_ok_def)
  show ?thesis using False assms split_address_plain [of h "to_string p"] to_string_host(2)
    by (simp add: s forwarding_def host_name_def host_ok_def)
qed

lemma parse_forwarding:
  assumes "host_ok pton ntop h s" "1 \<le> p" "p \<le> 65535" "length (forwarding h s @ ''::'' @ to_string p) \<le> 4096"
  shows "\<exists>e. parse_endpoint pton ntop (forwarding h s @ ''::'' @ to_string p) unix [] = Inr e \<and>
    canonicalHost e = h \<and> ipv6Scope e = s \<and> tcpPort e = p \<and> ep_kind e = Tcp"
proof -
  let ?t = "forwarding h s @ ''::'' @ to_string p"
  have chars: "c \<noteq> CHR ''/'' \<and> c \<noteq> CHR 0x00" if "c \<in> set ?t" for c
  proof -
    from that have "c \<in> set (host_name h s) \<or> c \<in> {CHR ''['', CHR '']'', CHR '':''} \<or> c \<in> set (to_string p)"
      by (auto simp: forwarding_def split: if_splits)
    then show ?thesis using host_name_clean(3,5) [OF assms(1)] to_string_host(1) [of p]
      by (auto simp: list_all_iff)
  qed
  have nb: "\<not> list_ex bad_host_char (host_name h s)" using host_name_clean(7) [OF assms(1)] by (auto simp: list_ex_iff)
  have ne: "host_name h s \<noteq> []" using assms(1) by (simp add: host_name_def host_ok_def)
  have hp: "parseHostAndPort ?t 5900 = Inr \<lparr>hp_host = host_name h s, hp_port = p\<rparr>"
    unfolding parseHostAndPort_def trim_forwarding [OF assms(1)] split_forwarding [OF assms(1)]
    using chars nb ne parse_suffix_explicit [OF assms(2,3), of "nat 5900"] by auto
  have can: "canonicalize pton ntop h = Inr h" using assms(1) by (simp add: host_ok_def)
  show ?thesis
    unfolding parse_endpoint_def hp Let_def using assms(4) chars split_scope_name [OF assms(1)] can by auto
qed

subsection \<open>Canonical gateway URIs\<close>

definition user_ok :: "string option \<Rightarrow> bool" where
  "user_ok u \<longleftrightarrow> (case u of None \<Rightarrow> True | Some u \<Rightarrow> u \<noteq> [] \<and> length u \<le> 255 \<and> list_all userCharacter u)"

definition port_ok :: "nat option \<Rightarrow> bool" where
  "port_ok p \<longleftrightarrow> (case p of None \<Rightarrow> True | Some p \<Rightarrow> 1 \<le> p \<and> p \<le> 65535)"

abbreviation port_text :: "nat option \<Rightarrow> string" where
  "port_text port \<equiv> (case port of None \<Rightarrow> [] | Some p \<Rightarrow> '':'' @ to_string p)"

lemma canonical_uri_eq:
  "canonical_uri user h s port =
     ''ssh://'' @ (case user of None \<Rightarrow> [] | Some u \<Rightarrow> u @ ''@'') @ forwarding h s @ port_text port"
  by (simp add: canonical_uri_def forwarding_def host_name_def)

lemma forwarding_port_clean:
  assumes "host_ok pton ntop h s" "c \<in> set (forwarding h s @ port_text port)"
  shows "c \<noteq> CHR ''@''" "c \<noteq> CHR 0x00"
proof -
  from assms(2) have "c \<in> set (host_name h s) \<or> c \<in> {CHR ''['', CHR '']'', CHR '':''} \<or> (\<exists>p. c \<in> set (to_string p))"
    by (auto simp: forwarding_def split: if_splits option.splits)
  then show "c \<noteq> CHR ''@''" "c \<noteq> CHR 0x00"
    using host_name_clean(2,5) [OF assms(1)] by (auto dest: to_string_char)
qed

lemma split_user_canonical:
  assumes "user_ok user" "CHR ''@'' \<notin> set r"
  shows "split_user ((case user of None \<Rightarrow> [] | Some u \<Rightarrow> u @ ''@'') @ r) = Some (user, r)"
proof (cases user)
  case None
  with assms(2) show ?thesis by (simp add: split_user_def str_find_def)
next
  case (Some u)
  have u: "u \<noteq> []" "length u \<le> 255" "list_all userCharacter u" using assms(1) by (simp_all add: user_ok_def Some)
  then have "CHR ''@'' \<notin> set u" using userCharacter_host hostCharacter_literals(3) by (metis list_all_iff)
  then have "str_find (CHR ''@'') (u @ CHR ''@'' # r) = Some (length u)" by (rule str_find_first)
  with u assms(2) Some show ?thesis by (simp add: split_user_def)
qed

lemma split_port_canonical:
  assumes "host_ok pton ntop h s" "port_ok port"
  shows "split_port True (forwarding h s @ port_text port) = Some (forwarding h s, port)"
proof (cases "CHR '':'' \<in> set h")
  case True
  have "str_find (CHR '']'') ((CHR ''['' # host_name h s) @ CHR '']'' # port_text port) = Some (Suc (length (host_name h s)))"
    using host_name_clean(1) [OF assms(1)] by (subst str_find_first) auto
  moreover have "forwarding h s = (CHR ''['' # host_name h s) @ '']''" using True by (simp add: forwarding_def)
  ultimately show ?thesis
    using assms(2) by (cases port) (simp_all add: split_port_def port_ok_def gatewayPort_to_string)
next
  case False
  then have s: "s = []" using assms by (auto simp: host_ok_def)
  have f: "forwarding h s = h" using False by (simp add: forwarding_def host_name_def s)
  have ne: "h \<noteq> []" using assms(1) by (simp add: host_ok_def)
  then have "hostCharacter (hd h)" using assms(1) by (simp add: host_ok_def list_all_iff list.set_sel)
  then have hd: "h \<noteq> []" "hd h \<noteq> CHR ''[''" using ne by auto
  show ?thesis
  proof (cases port)
    case None
    with f hd False show ?thesis by (simp add: split_port_def str_find_def)
  next
    case (Some p)
    have "str_find (CHR '':'') (h @ CHR '':'' # to_string p) = Some (length h)" by (rule str_find_first [OF False])
    moreover have "count_list (h @ CHR '':'' # to_string p) (CHR '':'') = 1"
      using False to_string_host(2) [of p] by (simp add: count_notin)
    ultimately show ?thesis using f hd Some assms(2)
      by (simp add: split_port_def port_ok_def gatewayPort_to_string)
  qed
qed

text \<open>What \<open>parse\<close> has established about a gateway it accepts.\<close>

lemma parse_endpoint_canonical:
  assumes "inet_ok pton ntop" "parse_endpoint pton ntop text False [] = Inr e"
  shows "canonicalize pton ntop (canonicalHost e) = Inr (canonicalHost e)"
    "ipv6Scope e \<noteq> [] \<Longrightarrow> CHR '':'' \<in> set (canonicalHost e)"
proof -
  obtain parsed :: host_port and host scope where *: "split_scope (hp_host parsed) = Inr (host, scope)"
    "canonicalize pton ntop host = Inr (canonicalHost e)" "ipv6Scope e = scope"
    using assms(2) by (auto simp: parse_endpoint_def Let_def ebind_eq_Inr split: if_splits sum.splits)
  note c = canonical_stable [OF assms(1) *(2)]
  show "canonicalize pton ntop (canonicalHost e) = Inr (canonicalHost e)" by (rule c(1))
  show "CHR '':'' \<in> set (canonicalHost e)" if "ipv6Scope e \<noteq> []"
    using that *(1,3) c(2) by (auto simp: split_scope_def Let_def split: option.splits if_splits)
qed

lemma split_user_ok: "split_user d = Some (user, r) \<Longrightarrow> user_ok user"
  by (auto simp: split_user_def user_ok_def Let_def split: option.splits if_splits)

lemma split_port_ok: "split_port uri d = Some (host, port) \<Longrightarrow> port_ok port"
  by (auto simp: split_port_def port_ok_def Let_def dest: gatewayPort_range split: option.splits if_splits)

lemma parse_gateway_Some:
  assumes "parse_gateway pton ntop text = Some g" "inet_ok pton ntop"
  obtains user port where "user_ok user" "port_ok port" "host_ok pton ntop (gw_host g) (gw_scope g)" "hd (gw_host g) \<noteq> CHR ''-''"
    "g = \<lparr>gw_host = gw_host g, gw_scope = gw_scope g, gw_user = (case user of None \<Rightarrow> [] | Some u \<Rightarrow> u),
       canonicalURI = canonical_uri user (gw_host g) (gw_scope g) port, gw_port = (case port of None \<Rightarrow> 22 | Some p \<Rightarrow> p),
       hasUser = (user \<noteq> None), portIsExplicit = (port \<noteq> None)\<rparr>"
    "length (canonical_uri user (gw_host g) (gw_scope g) port) \<le> 4096"
proof -
  define uri where "uri = (take 6 text = ''ssh://'')"
  obtain user d where u: "split_user (if uri then drop 6 text else text) = Some (user, d)"
    using assms(1) by (auto simp: parse_gateway_def Let_def uri_def split: if_splits option.splits)
  obtain host port where p: "split_port uri d = Some (host, port)"
    using assms(1) u by (auto simp: parse_gateway_def Let_def uri_def split: if_splits option.splits)
  let ?p = "case port of None \<Rightarrow> 22 | Some p \<Rightarrow> p"
  obtain e where e: "parse_endpoint pton ntop (host @ ''::'' @ to_string ?p) False [] = Inr e"
    using assms(1) u p by (auto simp: parse_gateway_def Let_def uri_def split: if_splits sum.splits)
  let ?h = "canonicalHost e" and ?s = "ipv6Scope e"
  have g: "?h \<noteq> []" "hd ?h \<noteq> CHR ''-''" "list_all hostCharacter ?h" "list_all (\<lambda>c. c \<noteq> CHR '':'' \<and> hostCharacter c) ?s"
    "length (canonical_uri user ?h ?s port) \<le> 4096"
    "g = \<lparr>gw_host = ?h, gw_scope = ?s, gw_user = (case user of None \<Rightarrow> [] | Some u \<Rightarrow> u),
       canonicalURI = canonical_uri user ?h ?s port, gw_port = ?p, hasUser = (user \<noteq> None), portIsExplicit = (port \<noteq> None)\<rparr>"
    using assms(1) u p e unfolding parse_gateway_def Let_def uri_def by (auto split: if_splits)
  have f: "gw_host g = ?h" "gw_scope g = ?s" by (simp_all add: g(6))
  show ?thesis
  proof (rule that [OF split_user_ok [OF u] split_port_ok [OF p]], unfold f)
    show "host_ok pton ntop ?h ?s" using g parse_endpoint_canonical [OF assms(2) e] by (simp add: host_ok_def)
  qed (use g in auto)
qed

subsection \<open>Properties\<close>

text \<open>
  C29: Every accepted gateway stays the same when saved and read back. The canonical URI of a
  gateway that \<open>SSHGateway::parse\<close> accepts is accepted again and gives the identical gateway:
  host, IPv6 scope, user, port and whether each was explicit, and the same canonical URI.
\<close>

theorem gateway_uri_round_trip:
  assumes "inet_ok pton ntop" and "parse_gateway pton ntop text = Some g"
  shows "parse_gateway pton ntop (canonicalURI g) = Some g"
proof -
  obtain user port where user: "user_ok user" and port: "port_ok port"
    and ok: "host_ok pton ntop (gw_host g) (gw_scope g)" and hd: "hd (gw_host g) \<noteq> CHR ''-''"
    and g: "g = \<lparr>gw_host = gw_host g, gw_scope = gw_scope g, gw_user = (case user of None \<Rightarrow> [] | Some u \<Rightarrow> u),
       canonicalURI = canonical_uri user (gw_host g) (gw_scope g) port, gw_port = (case port of None \<Rightarrow> 22 | Some p \<Rightarrow> p),
       hasUser = (user \<noteq> None), portIsExplicit = (port \<noteq> None)\<rparr>"
    and len: "length (canonical_uri user (gw_host g) (gw_scope g) port) \<le> 4096"
    by (rule parse_gateway_Some [OF assms(2,1)])
  let ?h = "gw_host g" and ?s = "gw_scope g" and ?p = "case port of None \<Rightarrow> 22 | Some p \<Rightarrow> p"
  let ?f = "forwarding ?h ?s" and ?c = "canonical_uri user ?h ?s port"
  let ?d = "(case user of None \<Rightarrow> [] | Some u \<Rightarrow> u @ ''@'') @ ?f @ port_text port"
  have c: "?c = ''ssh://'' @ ?d" by (rule canonical_uri_eq)
  have "CHR 0x00 \<notin> set ?c"
    using user forwarding_port_clean(2) [OF ok, of _ port] unfolding c user_ok_def
    by (cases user) (auto simp: list_all_iff)
  moreover have "?c \<noteq> []" "take 6 ?c = ''ssh://''" "drop 6 ?c = ?d" by (simp_all add: c)
  moreover have "split_user ?d = Some (user, ?f @ port_text port)"
    using forwarding_port_clean(1) [OF ok] by (intro split_user_canonical [OF user]) blast
  moreover have "split_port True (?f @ port_text port) = Some (?f, port)" by (rule split_port_canonical [OF ok port])
  moreover have "?f \<noteq> [] \<and> hd ?f \<noteq> CHR ''-'' \<and> CHR ''/'' \<notin> set ?f \<and> CHR 0x5C \<notin> set ?f"
  proof -
    have "CHR ''/'' \<notin> set (host_name ?h ?s)" "CHR 0x5C \<notin> set (host_name ?h ?s)"
      using host_name_clean(3,4) [OF ok] by blast+
    moreover have "host_name ?h ?s \<noteq> []" "hd (host_name ?h ?s) = hd ?h"
      using ok by (simp_all add: host_name_def host_ok_def)
    ultimately show ?thesis using hd by (simp add: forwarding_def)
  qed
  moreover obtain e where "parse_endpoint pton ntop (?f @ ''::'' @ to_string ?p) False [] = Inr e"
    "canonicalHost e = ?h" "ipv6Scope e = ?s"
  proof -
    have "length (to_string 22) = 2" by (simp add: to_string_22)
    then have "length (?f @ ''::'' @ to_string ?p) \<le> 4096" using len unfolding c by (cases port) auto
    moreover have "1 \<le> ?p" "?p \<le> 65535" using port by (auto simp: port_ok_def split: option.split)
    ultimately show ?thesis using parse_forwarding [OF ok, of ?p False] that by blast
  qed
  ultimately have "parse_gateway pton ntop ?c = Some \<lparr>gw_host = ?h, gw_scope = ?s, gw_user = (case user of None \<Rightarrow> [] | Some u \<Rightarrow> u),
       canonicalURI = ?c, gw_port = ?p, hasUser = (user \<noteq> None), portIsExplicit = (port \<noteq> None)\<rparr>"
    unfolding parse_gateway_def Let_def using len ok hd by (simp add: host_ok_def)
  also have "\<dots> = Some g" using g by metis
  finally show ?thesis using arg_cong [OF g, of canonicalURI] by simp
qed

theorem gateway_uri_round_trip_witness:
  "\<exists>g. parse_gateway (\<lambda>v6 h. None) (\<lambda>v6 b. None) ''me@host'' = Some g \<and> gw_host g = ''host'' \<and>
     parse_gateway (\<lambda>v6 h. None) (\<lambda>v6 b. None) (canonicalURI g) = Some g"
proof -
  have i: "inet_ok (\<lambda>v6 h. None) (\<lambda>v6 b. None)" by (simp add: inet_ok_def)
  obtain g where g: "parse_gateway (\<lambda>v6 h. None) (\<lambda>v6 b. None) ''me@host'' = Some g" "gw_host g = ''host''"
    by (simp add: parse_gateway_def split_user_def split_port_def str_find_def parse_endpoint_def parseHostAndPort_def
        trim_def strip_def space_def split_address_def str_rfind_def to_string_22 bad_host_char_def parse_suffix_def is_digit_def
        digit_val_def split_scope_def canonicalize_def lower_ascii_def canonical_uri_def hostCharacter_def userCharacter_def
        alphanumeric_def Let_def)
  with gateway_uri_round_trip [OF i g(1)] show ?thesis by blast
qed

text \<open>
  An accepted address names a usable destination: the port is between 1 and 65535, and
  the host is not empty and contains no bracket, blank or control character, whatever text
  was typed.
\<close>

theorem host_port_valid:
  assumes "parseHostAndPort address basePort = Inr r"
  shows "1 \<le> hp_port r \<and> hp_port r \<le> 65535 \<and> hp_host r \<noteq> [] \<and> \<not> list_ex bad_host_char (hp_host r)"
proof -
  have b: "1 \<le> nat basePort" "nat basePort \<le> 65535" using assms by (auto simp: parseHostAndPort_def split: if_splits)
  obtain host suffix port where "\<not> list_ex bad_host_char host" and p: "parse_suffix suffix (nat basePort) = Inr port"
    and r: "r = \<lparr>hp_host = (if host = [] then ''localhost'' else host), hp_port = port\<rparr>"
    using assms by (fastforce simp: parseHostAndPort_def Let_def ebind_eq_Inr split: if_splits)
  moreover have "1 \<le> port \<and> port \<le> 65535" by (rule parse_suffix_range [OF p b])
  moreover have "\<not> list_ex bad_host_char ''localhost''" by (simp add: bad_host_char_def)
  ultimately show ?thesis by simp
qed

theorem host_port_valid_witness:
  "\<exists>r. parseHostAndPort ''[fe80::1]:5'' 5900 = Inr r \<and> hp_port r = 5905 \<and> 1 \<le> hp_port r \<and> hp_host r \<noteq> []"
proof -
  obtain r where r: "parseHostAndPort ''[fe80::1]:5'' 5900 = Inr r" "hp_port r = 5905"
    by (simp add: parseHostAndPort_def trim_def strip_def space_def split_address_def str_find_def bad_host_char_def
        parse_suffix_def is_digit_def digit_val_def)
  with host_port_valid [OF r(1)] show ?thesis by auto
qed

end
