(* ===== verification/In_Stream.thy ===== *)
theory In_Stream
  imports Prelude
begin

text \<open>
  The byte streams of \<open>common/rdr\<close> as the protocol code sees them: \<open>InStream.h\<close> is a
  cursor over the bytes that have arrived, with a restore point to which a half-read message
  is rewound, and \<open>OutStream.h\<close> appends bytes in network order. The model is of the checked
  build (\<open>RFB_INSTREAM_CHECK\<close>), in which \<open>checkedBytes\<close> records what the last
  \<open>hasData\<close> promised and every read draws on it: code that is free of errors there also
  never reads unchecked in the release build (where the sources leave a failed check with
  some bytes still counted as checked, the model leaves none). Which bytes have arrived is the business of
  \<open>BufferedInStream\<close>, modelled in the theory \<open>Buffered_In\<close>.
\<close>

named_theorems stream_simps \<open>computing with streams whose next bytes are known\<close>

datatype stream_error =
    LogicError string
  | Underrun
  | EndOfStream
  | SocketError string int
  | BufferTooLarge nat
  | ProtocolError string

text \<open>
  \<open>unread\<close> are the bytes from \<open>ptr\<close> to \<open>end\<close>; \<open>past\<close>, when a restore
  point is set, those from the restore point to \<open>ptr\<close>.
\<close>

record instream =
  unread :: "byte list"
  past :: "byte list option"
  checkedBytes :: nat

type_synonym 'a reading = "stream_error + 'a \<times> instream"

definition mem_stream :: "byte list \<Rightarrow> instream" where
  "mem_stream bs = \<lparr>unread = bs, past = None, checkedBytes = length bs\<rparr>"

definition avail :: "instream \<Rightarrow> nat \<times> instream" where
  "avail s = (length (unread s), s\<lparr>checkedBytes := length (unread s)\<rparr>)"

definition hasData :: "nat \<Rightarrow> instream \<Rightarrow> bool \<times> instream" where
  "hasData n s =
     (if n > length (unread s) then (False, s\<lparr>checkedBytes := 0\<rparr>)
      else (True, s\<lparr>checkedBytes := n\<rparr>))"

definition setRestorePoint :: "instream \<Rightarrow> stream_error + instream" where
  "setRestorePoint s =
     (if past s \<noteq> None then Inl (LogicError ''Nested use of input stream restore point'')
      else Inr (s\<lparr>past := Some []\<rparr>))"

definition clearRestorePoint :: "instream \<Rightarrow> stream_error + instream" where
  "clearRestorePoint s =
     (if past s = None then Inl (LogicError ''Incorrect clearing of input stream restore point'')
      else Inr (s\<lparr>past := None\<rparr>))"

definition gotoRestorePoint :: "instream \<Rightarrow> stream_error + instream" where
  "gotoRestorePoint s =
     (case past s of
        None \<Rightarrow> Inl (LogicError ''Incorrect activation of input stream restore point'')
      | Some p \<Rightarrow> clearRestorePoint (s\<lparr>unread := p @ unread s\<rparr>))"

definition hasDataOrRestore :: "nat \<Rightarrow> instream \<Rightarrow> bool reading" where
  "hasDataOrRestore n s =
     (case hasData n s of
        (True, s') \<Rightarrow> Inr (True, s')
      | (False, s') \<Rightarrow> ebind (gotoRestorePoint s') (\<lambda>s''. Inr (False, s'')))"

definition check :: "nat \<Rightarrow> instream \<Rightarrow> stream_error + instream" where
  "check n s =
     (if n > checkedBytes s then Inl (LogicError ''Input stream used without underrun check'')
      else if n > length (unread s) then Inl Underrun
      else Inr (s\<lparr>checkedBytes := checkedBytes s - n\<rparr>))"

text \<open>\<open>ptr += n\<close>, with the bytes passed over.\<close>

definition advance :: "nat \<Rightarrow> instream \<Rightarrow> byte list \<times> instream" where
  "advance n s =
     (take n (unread s),
      s\<lparr>unread := drop n (unread s), past := map_option (\<lambda>p. p @ take n (unread s)) (past s)\<rparr>)"

definition readU8 :: "instream \<Rightarrow> byte reading" where
  "readU8 s = ebind (check 1 s) (\<lambda>s. case advance 1 s of (b, s) \<Rightarrow> Inr (b ! 0, s))"

definition readU16 :: "instream \<Rightarrow> u16 reading" where
  "readU16 s = ebind (check 2 s) (\<lambda>s. case advance 2 s of (b, s) \<Rightarrow>
     Inr (push_bit 8 (ucast (b ! 0)) OR ucast (b ! 1), s))"

definition readU32 :: "instream \<Rightarrow> u32 reading" where
  "readU32 s = ebind (check 4 s) (\<lambda>s. case advance 4 s of (b, s) \<Rightarrow>
     Inr (push_bit 24 (ucast (b ! 0)) OR push_bit 16 (ucast (b ! 1)) OR
          push_bit 8 (ucast (b ! 2)) OR ucast (b ! 3), s))"

definition readS8 :: "instream \<Rightarrow> int reading" where
  "readS8 s = ebind (readU8 s) (\<lambda>(u, s). Inr (sint u, s))"

definition readS16 :: "instream \<Rightarrow> int reading" where
  "readS16 s = ebind (readU16 s) (\<lambda>(u, s). Inr (sint u, s))"

definition readS32 :: "instream \<Rightarrow> int reading" where
  "readS32 s = ebind (readU32 s) (\<lambda>(u, s). Inr (sint u, s))"

definition skip :: "nat \<Rightarrow> instream \<Rightarrow> stream_error + instream" where
  "skip n s = ebind (check n s) (\<lambda>s. Inr (snd (advance n s)))"

definition readBytes :: "nat \<Rightarrow> instream \<Rightarrow> byte list reading" where
  "readBytes n s = (if n = 0 then Inr ([], s) else ebind (check n s) (\<lambda>s. Inr (advance n s)))"

text \<open>The loops \<open>for (i = 0; i < n; i++)\<close> around a read.\<close>

fun read_n :: "nat \<Rightarrow> (instream \<Rightarrow> 'a reading) \<Rightarrow> instream \<Rightarrow> 'a list reading" where
  "read_n 0 get s = Inr ([], s)"
| "read_n (Suc n) get s = ebind (get s) (\<lambda>(x, s). ebind (read_n n get s) (\<lambda>(xs, s). Inr (x # xs, s)))"

text \<open>The arrival of bytes.\<close>

definition arrive :: "byte list \<Rightarrow> instream \<Rightarrow> instream" where
  "arrive bs s = s\<lparr>unread := unread s @ bs\<rparr>"

subsection \<open>Writing\<close>

type_synonym outstream = "byte list"

definition putU8 :: "byte \<Rightarrow> byte list" where
  "putU8 u = [u]"

definition putU16 :: "u16 \<Rightarrow> byte list" where
  "putU16 u = [ucast (drop_bit 8 u), ucast u]"

definition putU32 :: "u32 \<Rightarrow> byte list" where
  "putU32 u = [ucast (drop_bit 24 u), ucast (drop_bit 16 u), ucast (drop_bit 8 u), ucast u]"

definition putS16 :: "int \<Rightarrow> byte list" where
  "putS16 i = putU16 (word_of_int i)"

definition putS32 :: "int \<Rightarrow> byte list" where
  "putS32 i = putU32 (word_of_int i)"

definition pad :: "nat \<Rightarrow> byte list" where
  "pad n = replicate n 0"

subsection \<open>Buffer sizes\<close>

text \<open>\<open>while (newSize < needed) newSize *= 2\<close>; both buffers start it at their default size.\<close>

function double_until :: "nat \<Rightarrow> nat \<Rightarrow> nat" where
  "double_until needed newSize =
     (if 0 < newSize \<and> newSize < needed then double_until needed (2 * newSize) else newSize)"
  by pat_completeness auto
termination by (relation "measure (\<lambda>(needed, newSize). needed - newSize)") auto

declare double_until.simps [simp del]

lemma double_until_ge: "0 < n \<Longrightarrow> needed \<le> double_until needed n"
proof (induction needed n rule: double_until.induct)
  case (1 needed n)
  then show ?case by (subst double_until.simps) auto
qed

lemma double_until_least: "n \<le> double_until needed n"
proof (induction needed n rule: double_until.induct)
  case (1 needed n)
  then show ?case by (subst double_until.simps) auto
qed

lemma double_until_le: "needed \<le> 2 ^ k * n \<Longrightarrow> double_until needed n \<le> 2 ^ k * n"
proof (induction needed n arbitrary: k rule: double_until.induct)
  case (1 needed n)
  show ?case
  proof (cases "0 < n \<and> n < needed")
    case True
    with 1(2) obtain j where j: "k = Suc j" by (cases k) auto
    have "double_until needed (2 * n) \<le> 2 ^ j * (2 * n)"
      using 1(1) [OF True, of j] 1(2) by (simp add: j)
    with True show ?thesis by (subst double_until.simps) (simp add: j)
  next
    case False
    then show ?thesis by (subst double_until.simps) auto
  qed
qed

subsection \<open>Codecs\<close>

text \<open>
  What a reader promises about a writer: the bytes written are read back as the same value,
  the cursor ends right behind them, and the read draws on no more than was checked.
\<close>

definition passed :: "byte list \<Rightarrow> instream \<Rightarrow> instream" where
  "passed bs s = s\<lparr>unread := drop (length bs) (unread s),
     past := map_option (\<lambda>p. p @ bs) (past s), checkedBytes := checkedBytes s - length bs\<rparr>"

locale stream_codec =
  fixes put :: "'a \<Rightarrow> byte list" and get :: "instream \<Rightarrow> 'a reading"
    and width :: nat and valid :: "'a \<Rightarrow> bool"
  assumes put_width: "valid x \<Longrightarrow> length (put x) = width"
    and get_put: "valid x \<Longrightarrow> unread s = put x @ r \<Longrightarrow> width \<le> checkedBytes s \<Longrightarrow>
      get s = Inr (x, passed (put x) s)"
begin

lemma get_known:
  assumes "valid x" and "width \<le> c"
  shows "get \<lparr>unread = put x @ r, past = p, checkedBytes = c\<rparr> =
    Inr (x, \<lparr>unread = r, past = map_option (\<lambda>p. p @ put x) p, checkedBytes = c - width\<rparr>)"
  using get_put [of x "\<lparr>unread = put x @ r, past = p, checkedBytes = c\<rparr>" r] assms
  by (simp add: passed_def put_width)

lemma get_last:
  assumes "valid x" and "width \<le> c"
  shows "get \<lparr>unread = put x, past = p, checkedBytes = c\<rparr> =
    Inr (x, \<lparr>unread = [], past = map_option (\<lambda>p. p @ put x) p, checkedBytes = c - width\<rparr>)"
  using get_known [OF assms, of "[]"] by simp

lemma put_list_width: "\<forall>x\<in>set xs. valid x \<Longrightarrow> length (concat (map put xs)) = length xs * width"
  by (induction xs) (auto simp: put_width)

lemma get_list:
  assumes "\<forall>x\<in>set xs. valid x" and "length xs * width \<le> c"
  shows "read_n (length xs) get \<lparr>unread = concat (map put xs) @ r, past = p, checkedBytes = c\<rparr> =
    Inr (xs, \<lparr>unread = r, past = map_option (\<lambda>p. p @ concat (map put xs)) p,
              checkedBytes = c - length xs * width\<rparr>)"
  using assms
proof (induction xs arbitrary: p c)
  case Nil
  then show ?case by (cases p) simp_all
next
  case (Cons x xs)
  have "width \<le> c" "length xs * width \<le> c - width" using Cons.prems(2) by auto
  moreover have "valid x" "\<forall>x\<in>set xs. valid x" using Cons.prems(1) by auto
  ultimately show ?case
    by (simp add: get_known Cons.IH option.map_comp comp_def algebra_simps)
qed

end

lemma checked_advance:
  assumes "unread s = bs @ r" and "length bs \<le> checkedBytes s"
  shows "check (length bs) s = Inr (s\<lparr>checkedBytes := checkedBytes s - length bs\<rparr>)"
    and "advance (length bs) (s\<lparr>checkedBytes := checkedBytes s - length bs\<rparr>) = (bs, passed bs s)"
  using assms by (auto simp: check_def advance_def passed_def)

lemma skip_known:
  assumes "unread s = bs @ r" and "length bs \<le> checkedBytes s"
  shows "skip (length bs) s = Inr (passed bs s)"
  by (simp add: skip_def checked_advance [OF assms])

lemma readBytes_known:
  assumes "unread s = bs @ r" and "length bs \<le> checkedBytes s"
  shows "readBytes (length bs) s = Inr (bs, passed bs s)"
proof (cases "bs = []")
  case True
  then show ?thesis by (cases "past s") (simp_all add: readBytes_def passed_def)
next
  case False
  then show ?thesis by (simp add: readBytes_def checked_advance [OF assms])
qed

lemma skip_pad [stream_simps]:
  "n \<le> c \<Longrightarrow> skip n \<lparr>unread = pad n @ r, past = p, checkedBytes = c\<rparr> =
     Inr \<lparr>unread = r, past = map_option (\<lambda>q. q @ pad n) p, checkedBytes = c - n\<rparr>"
  using skip_known [of "\<lparr>unread = pad n @ r, past = p, checkedBytes = c\<rparr>" "pad n" r]
  by (simp add: passed_def pad_def)

lemma readBytes_data [stream_simps]:
  "length bs \<le> c \<Longrightarrow> readBytes (length bs) \<lparr>unread = bs @ r, past = p, checkedBytes = c\<rparr> =
     Inr (bs, \<lparr>unread = r, past = map_option (\<lambda>q. q @ bs) p, checkedBytes = c - length bs\<rparr>)"
  using readBytes_known [of "\<lparr>unread = bs @ r, past = p, checkedBytes = c\<rparr>" bs r]
  by (simp add: passed_def)

lemma u16_bytes: "push_bit 8 (ucast (ucast (drop_bit 8 u) :: byte)) OR ucast (ucast u :: byte) = u" for u :: u16
  by (rule bit_word_eqI) (auto simp: bit_simps)

lemma u32_bytes:
  "push_bit 24 (ucast (ucast (drop_bit 24 u) :: byte)) OR push_bit 16 (ucast (ucast (drop_bit 16 u) :: byte)) OR
   push_bit 8 (ucast (ucast (drop_bit 8 u) :: byte)) OR ucast (ucast u :: byte) = u" for u :: u32
proof (rule bit_word_eqI)
  fix n assume "n < LENGTH(32)"
  then consider "n < 8" | "8 \<le> n" "n < 16" | "16 \<le> n" "n < 24" | "24 \<le> n" "n < 32" by fastforce
  then show "bit (push_bit 24 (ucast (ucast (drop_bit 24 u) :: byte)) OR push_bit 16 (ucast (ucast (drop_bit 16 u) :: byte)) OR
      push_bit 8 (ucast (ucast (drop_bit 8 u) :: byte)) OR ucast (ucast u :: byte) :: u32) n \<longleftrightarrow> bit u n"
    by cases (auto simp: bit_simps)
qed

lemma read_width:
  assumes "\<And>s. get s = ebind (check w s) (\<lambda>s. case advance w s of (b, s) \<Rightarrow> Inr (f b, s))"
    and "length (put x) = w" and "f (put x) = x"
    and "unread s = put x @ r" and "w \<le> checkedBytes s"
  shows "get s = Inr (x, passed (put x) s)"
  using checked_advance [OF assms(4)] assms(5) unfolding assms(1) assms(2) by (simp add: assms(3))

interpretation u8: stream_codec putU8 readU8 1 "\<lambda>_. True"
proof unfold_locales
  fix x r and s :: instream
  assume "unread s = putU8 x @ r" "1 \<le> checkedBytes s"
  then show "readU8 s = Inr (x, passed (putU8 x) s)"
    by (rule read_width [OF readU8_def, rotated 2]) (simp_all add: putU8_def)
qed (simp add: putU8_def)

interpretation u16: stream_codec putU16 readU16 2 "\<lambda>_. True"
proof unfold_locales
  fix x r and s :: instream
  assume "unread s = putU16 x @ r" "2 \<le> checkedBytes s"
  then show "readU16 s = Inr (x, passed (putU16 x) s)"
    by (rule read_width [OF readU16_def, rotated 2]) (simp_all add: putU16_def u16_bytes)
qed (simp add: putU16_def)

interpretation u32: stream_codec putU32 readU32 4 "\<lambda>_. True"
proof unfold_locales
  fix x r and s :: instream
  assume "unread s = putU32 x @ r" "4 \<le> checkedBytes s"
  then show "readU32 s = Inr (x, passed (putU32 x) s)"
    by (rule read_width [OF readU32_def, rotated 2])
      (simp_all add: putU32_def u32_bytes numeral_2_eq_2 numeral_3_eq_3)
qed (simp add: putU32_def)

lemma sint_word_of_int:
  assumes "- (2 ^ (LENGTH('a::len) - 1)) \<le> i" and "i < 2 ^ (LENGTH('a) - 1)"
  shows "sint (word_of_int i :: 'a word) = i"
proof -
  have "signed_take_bit (LENGTH('a) - 1) i = i" using assms by (rule signed_take_bit_int_eq_self)
  then show ?thesis by (simp add: sint_sbintrunc')
qed

interpretation s32: stream_codec putS32 readS32 4 "\<lambda>i. - (2 ^ 31) \<le> i \<and> i < 2 ^ 31"
proof unfold_locales
  fix x r and s :: instream
  assume "- (2 ^ 31) \<le> x \<and> x < 2 ^ 31" "unread s = putS32 x @ r" "4 \<le> checkedBytes s"
  then show "readS32 s = Inr (x, passed (putS32 x) s)"
    using sint_word_of_int [where 'a = 32, of x]
    by (simp add: readS32_def putS32_def u32.get_put)
qed (simp add: putS32_def u32.put_width)

lemmas get_simps [stream_simps] = u8.get_known u16.get_known u32.get_known s32.get_known
  u8.get_last u16.get_last u32.get_last s32.get_last

lemma put_lengths [simp]: "length (putU8 a) = 1" "length (putU16 b) = 2" "length (putU32 c) = 4"
  "length (putS32 i) = 4" "length (putS16 i) = 2" "length (pad n) = n"
  by (simp_all add: putU8_def putU16_def putU32_def putS32_def putS16_def pad_def)

end
