(* ===== verification/Buffered_In.thy ===== *)
theory Buffered_In
  imports In_Stream
begin

text \<open>
  \<open>BufferedInStream.cxx\<close> over the socket reads of \<open>FdInStream.cxx\<close>: the buffer
  behind an input stream, its growth, shrinking and compaction in \<open>ensureSpace\<close>, and
  \<open>hasData\<close> of \<open>InStream.h\<close> with the restore point it has to carry along. The
  lemmas show that whatever the buffer does, the bytes the reader sees are the bytes the
  socket delivered, in order, and that the buffer stays within its 32 MiB limit.
\<close>

named_theorems buffer_simps \<open>unfolding the operations on the input buffer\<close>

subsection \<open>The socket\<close>

text \<open>
  What the kernel answers, call by call: a signal interrupts the call, nothing is readable,
  the descriptor is readable, the call fails, the peer has closed, or bytes are there. A
  script that is used up is a silent socket.
\<close>

datatype sys_event =
    Interrupted
  | NothingYet
  | Ready
  | Failed int
  | Closed
  | Data "byte list"

fun select_read :: "sys_event list \<Rightarrow> stream_error + bool \<times> sys_event list" where
  "select_read [] = Inr (False, [])"
| "select_read (Interrupted # k) = select_read k"
| "select_read (NothingYet # k) = Inr (False, k)"
| "select_read (Ready # k) = Inr (True, k)"
| "select_read (Failed e # k) = Inl (SocketError ''select'' e)"
| "select_read (Closed # k) = Inr (True, Closed # k)"
| "select_read (Data bs # k) = Inr (True, Data bs # k)"

fun recv :: "nat \<Rightarrow> sys_event list \<Rightarrow> stream_error + byte list \<times> sys_event list" where
  "recv len [] = Inr ([], [])"
| "recv len (Interrupted # k) = recv len k"
| "recv len (NothingYet # k) = Inr ([], k)"
| "recv len (Ready # k) = recv len k"
| "recv len (Failed e # k) = Inl (SocketError ''read'' e)"
| "recv len (Closed # k) = Inl EndOfStream"
| "recv len (Data bs # k) =
     (if take len bs = [] then Inl EndOfStream
      else Inr (take len bs, if length bs \<le> len then k else Data (drop len bs) # k))"

definition readFd :: "nat \<Rightarrow> sys_event list \<Rightarrow> stream_error + byte list \<times> sys_event list" where
  "readFd len k = ebind (select_read k) (\<lambda>(ready, k). if \<not> ready then Inr ([], k) else recv len k)"

text \<open>The bytes a script delivers.\<close>

fun inbound :: "sys_event list \<Rightarrow> byte list" where
  "inbound [] = []"
| "inbound (Data bs # k) = bs @ inbound k"
| "inbound (_ # k) = inbound k"

subsection \<open>The buffer\<close>

text \<open>
  \<open>held\<close> are the bytes from \<open>start\<close> to \<open>end\<close> and the two cursors are offsets
  from \<open>start\<close>; the bytes behind \<open>end\<close> are never read.
\<close>

record in_buffer =
  held :: "byte list"
  ptr :: nat
  bufSize :: nat
  offset :: nat
  peakUsage :: nat
  lastSizeCheck :: int
  restorePoint :: "nat option"

definition DEFAULT_BUF_SIZE :: nat where "DEFAULT_BUF_SIZE = 8192"
definition MAX_BUF_SIZE :: nat where "MAX_BUF_SIZE = 32 * 1024 * 1024"

definition new_in_buffer :: "int \<Rightarrow> in_buffer" where
  "new_in_buffer now = \<lparr>held = [], ptr = 0, bufSize = DEFAULT_BUF_SIZE, offset = 0,
     peakUsage = 0, lastSizeCheck = now, restorePoint = None\<rparr>"

definition pos :: "in_buffer \<Rightarrow> nat" where
  "pos b = offset b + ptr b"

definition buf_avail :: "in_buffer \<Rightarrow> nat" where
  "buf_avail b = length (held b) - ptr b"

definition availSpace :: "in_buffer \<Rightarrow> nat" where
  "availSpace b = bufSize b - length (held b)"

definition compact :: "in_buffer \<Rightarrow> in_buffer" where
  "compact b = b\<lparr>held := drop (ptr b) (held b), offset := offset b + ptr b, ptr := 0\<rparr>"

text \<open>
  \<open>t\<close> gives the readings of the clock in the call, in seconds: the first when the buffer
  grows, the second for the age of the last size check, the third when that is reset.
\<close>

definition grow :: "(nat \<Rightarrow> int) \<Rightarrow> nat \<Rightarrow> in_buffer \<Rightarrow> stream_error + in_buffer" where
  "grow t needed b =
     (if needed > bufSize b then
        if needed > MAX_BUF_SIZE then Inl (BufferTooLarge needed)
        else Inr ((compact b)\<lparr>bufSize := double_until needed DEFAULT_BUF_SIZE,
                    lastSizeCheck := t 0, peakUsage := needed\<rparr>)
      else Inr b)"

definition note_peak :: "nat \<Rightarrow> in_buffer \<Rightarrow> in_buffer" where
  "note_peak needed b = (if needed > peakUsage b then b\<lparr>peakUsage := needed\<rparr> else b)"

definition shrink :: "(nat \<Rightarrow> int) \<Rightarrow> nat \<Rightarrow> in_buffer \<Rightarrow> in_buffer" where
  "shrink t needed b =
     (if buf_avail b = 0 \<and> bufSize b > DEFAULT_BUF_SIZE \<and>
         (t 1 < lastSizeCheck b \<or> t 1 > lastSizeCheck b + 5) then
        (if peakUsage b < bufSize b div 2 then
           b\<lparr>held := [], ptr := 0, bufSize := double_until (peakUsage b) DEFAULT_BUF_SIZE\<rparr>
         else b)\<lparr>lastSizeCheck := t 2, peakUsage := needed\<rparr>
      else b)"

definition shuffle :: "nat \<Rightarrow> in_buffer \<Rightarrow> in_buffer" where
  "shuffle needed b = (if bufSize b - ptr b < needed then compact b else b)"

definition ensureSpace :: "(nat \<Rightarrow> int) \<Rightarrow> nat \<Rightarrow> in_buffer \<Rightarrow> stream_error + in_buffer" where
  "ensureSpace t space b =
     (let needed = space + buf_avail b
      in ebind (grow t needed b) (\<lambda>b. Inr (shuffle needed (shrink t needed (note_peak needed b)))))"

definition fillBuffer :: "in_buffer \<times> sys_event list \<Rightarrow> stream_error + bool \<times> in_buffer \<times> sys_event list" where
  "fillBuffer = (\<lambda>(b, k). ebind (readFd (availSpace b) k) (\<lambda>(bs, k).
     if bs = [] then Inr (False, b, k) else Inr (True, b\<lparr>held := held b @ bs\<rparr>, k)))"

lemma fillBuffer_cases:
  assumes "fillBuffer (b, k) = Inr (ok, b', k')"
  obtains (none) "\<not> ok" "b' = b" "readFd (availSpace b) k = Inr ([], k')"
  | (some) bs where "ok" "bs \<noteq> []" "readFd (availSpace b) k = Inr (bs, k')" "b' = b\<lparr>held := held b @ bs\<rparr>"
  using assms by (auto simp: fillBuffer_def ebind_eq_Inr split: if_splits)

function fill_loop :: "nat \<Rightarrow> in_buffer \<Rightarrow> sys_event list \<Rightarrow> stream_error + bool \<times> in_buffer \<times> sys_event list" where
  "fill_loop needed b k =
     (if buf_avail b < needed then
        case fillBuffer (b, k) of
          Inl e \<Rightarrow> Inl e
        | Inr (ok, b', k') \<Rightarrow> if \<not> ok then Inr (False, b', k') else fill_loop needed b' k'
      else Inr (True, b, k))"
  by pat_completeness auto
termination
proof (relation "measure (\<lambda>(needed, b, k). needed + ptr b - length (held b))", goal_cases)
  case 1
  then show ?case by simp
next
  case (2 needed b k x ok y b' k')
  then have "fillBuffer (b, k) = Inr (ok, b', k')" and "ok" and "buf_avail b < needed" by auto
  then show ?case
  proof (cases rule: fillBuffer_cases)
    case none
    with \<open>ok\<close> show ?thesis by simp
  next
    case (some bs)
    then obtain c cs where "bs = c # cs" by (cases bs) auto
    with \<open>buf_avail b < needed\<close> show ?thesis by (simp add: some(4) buf_avail_def)
  qed
qed

declare fill_loop.simps [simp del]

definition overrun :: "(nat \<Rightarrow> int) \<Rightarrow> nat \<Rightarrow> in_buffer \<Rightarrow> sys_event list \<Rightarrow>
    stream_error + bool \<times> in_buffer \<times> sys_event list" where
  "overrun t needed b k = ebind (ensureSpace t (needed - buf_avail b) b) (\<lambda>b. fill_loop needed b k)"

text \<open>
  \<open>hasData\<close> of \<open>InStream.h\<close> on this stream. With a restore point the cursor is
  moved back to it while the buffer works, so that the bytes behind it survive, and both are
  put at their new places afterwards.
\<close>

definition buf_hasData :: "(nat \<Rightarrow> int) \<Rightarrow> nat \<Rightarrow> in_buffer \<Rightarrow> sys_event list \<Rightarrow>
    stream_error + bool \<times> in_buffer \<times> sys_event list" where
  "buf_hasData t len b k =
     (if len > buf_avail b then
        case restorePoint b of
          Some r \<Rightarrow>
            let restoreDiff = ptr b - r
            in ebind (overrun t (len + restoreDiff) (b\<lparr>ptr := r\<rparr>) k) (\<lambda>(ret, b, k).
                 Inr (ret, b\<lparr>restorePoint := Some (ptr b), ptr := ptr b + restoreDiff\<rparr>, k))
        | None \<Rightarrow> overrun t len b k
      else Inr (True, b, k))"

text \<open>The cursor moves of \<open>InStream.h\<close> on the buffer: reads pass over \<open>n\<close> bytes.\<close>

definition buf_advance :: "nat \<Rightarrow> in_buffer \<Rightarrow> stream_error + byte list \<times> in_buffer" where
  "buf_advance n b =
     (if n > buf_avail b then Inl Underrun
      else Inr (take n (drop (ptr b) (held b)), b\<lparr>ptr := ptr b + n\<rparr>))"

definition buf_setRestore :: "in_buffer \<Rightarrow> stream_error + in_buffer" where
  "buf_setRestore b =
     (if restorePoint b \<noteq> None then Inl (LogicError ''Nested use of input stream restore point'')
      else Inr (b\<lparr>restorePoint := Some (ptr b)\<rparr>))"

definition buf_clearRestore :: "in_buffer \<Rightarrow> stream_error + in_buffer" where
  "buf_clearRestore b =
     (if restorePoint b = None then Inl (LogicError ''Incorrect clearing of input stream restore point'')
      else Inr (b\<lparr>restorePoint := None\<rparr>))"

definition buf_gotoRestore :: "in_buffer \<Rightarrow> stream_error + in_buffer" where
  "buf_gotoRestore b =
     (case restorePoint b of
        None \<Rightarrow> Inl (LogicError ''Incorrect activation of input stream restore point'')
      | Some r \<Rightarrow> buf_clearRestore (b\<lparr>ptr := r\<rparr>))"

subsection \<open>Well-formed buffers and what the reader sees\<close>

definition buf_wf :: "in_buffer \<Rightarrow> bool" where
  "buf_wf b \<longleftrightarrow> ptr b \<le> length (held b) \<and> length (held b) \<le> bufSize b \<and>
     (case restorePoint b of None \<Rightarrow> True | Some r \<Rightarrow> r \<le> ptr b) \<and>
     DEFAULT_BUF_SIZE \<le> bufSize b \<and> bufSize b \<le> MAX_BUF_SIZE"

definition unread_bytes :: "in_buffer \<Rightarrow> byte list" where
  "unread_bytes b = drop (ptr b) (held b)"

definition past_bytes :: "in_buffer \<Rightarrow> byte list option" where
  "past_bytes b = map_option (\<lambda>r. take (ptr b - r) (drop r (held b))) (restorePoint b)"

lemma buf_avail_unread [simp]: "length (unread_bytes b) = buf_avail b"
  by (simp add: unread_bytes_def buf_avail_def)

lemma new_in_buffer_wf: "buf_wf (new_in_buffer now)"
  by (simp add: buf_wf_def new_in_buffer_def DEFAULT_BUF_SIZE_def MAX_BUF_SIZE_def)

lemma new_size:
  assumes "needed \<le> MAX_BUF_SIZE"
  shows "needed \<le> double_until needed DEFAULT_BUF_SIZE"
    and "DEFAULT_BUF_SIZE \<le> double_until needed DEFAULT_BUF_SIZE"
    and "double_until needed DEFAULT_BUF_SIZE \<le> MAX_BUF_SIZE"
  using double_until_le [of needed 12 DEFAULT_BUF_SIZE] double_until_ge [of DEFAULT_BUF_SIZE needed]
    double_until_least [of DEFAULT_BUF_SIZE needed] assms
  by (simp_all add: DEFAULT_BUF_SIZE_def MAX_BUF_SIZE_def)

subsection \<open>The socket keeps the bytes\<close>

lemma select_read_inbound: "select_read k = Inr (r, k') \<Longrightarrow> inbound k' = inbound k"
  by (induction k rule: select_read.induct) auto

lemma recv_inbound: "recv len k = Inr (bs, k') \<Longrightarrow> bs @ inbound k' = inbound k \<and> length bs \<le> len"
proof (induction len k rule: recv.induct)
  case (7 len bs k)
  then show ?case by (auto split: if_splits)
qed auto

lemma readFd_inbound: "readFd len k = Inr (bs, k') \<Longrightarrow> bs @ inbound k' = inbound k \<and> length bs \<le> len"
  by (auto simp: readFd_def ebind_eq_Inr split: if_splits dest!: select_read_inbound recv_inbound)

text \<open>
  What every operation behind a read does to the stream: it moves bytes from the socket
  behind those of the buffer.
\<close>

definition extends :: "in_buffer \<times> sys_event list \<Rightarrow> in_buffer \<times> sys_event list \<Rightarrow> bool" where
  "extends = (\<lambda>(b, k) (b', k'). \<exists>bs. unread_bytes b' = unread_bytes b @ bs \<and> bs @ inbound k' = inbound k)"

lemma extendsI: "unread_bytes b' = unread_bytes b @ bs \<Longrightarrow> bs @ inbound k' = inbound k \<Longrightarrow> extends (b, k) (b', k')"
  by (auto simp: extends_def)

lemma extends_refl: "unread_bytes b' = unread_bytes b \<Longrightarrow> extends (b, k) (b', k)"
  by (rule extendsI [of _ _ "[]"]) simp_all

lemma extends_trans: "extends x y \<Longrightarrow> extends y z \<Longrightarrow> extends x z"
  by (auto simp: extends_def; metis append.assoc)

text \<open>While the buffer works the restore point is held outside of it, at the cursor.\<close>

definition idle_wf :: "in_buffer \<Rightarrow> bool" where
  "idle_wf b \<longleftrightarrow> ptr b \<le> length (held b) \<and> length (held b) \<le> bufSize b \<and>
     DEFAULT_BUF_SIZE \<le> bufSize b \<and> bufSize b \<le> MAX_BUF_SIZE"

lemma ensureSpace_ok:
  assumes "idle_wf b" and "ensureSpace t space b = Inr b'"
  shows "idle_wf b'" "unread_bytes b' = unread_bytes b" "space \<le> availSpace b'"
    "restorePoint b' = restorePoint b"
proof -
  let ?n = "space + buf_avail b"
  from assms(2) obtain b1 where b1: "grow t ?n b = Inr b1"
    and b': "b' = shuffle ?n (shrink t ?n (note_peak ?n b1))"
    by (auto simp: ensureSpace_def Let_def ebind_eq_Inr)
  have g: "idle_wf b1" "unread_bytes b1 = unread_bytes b" "?n \<le> bufSize b1" "restorePoint b1 = restorePoint b"
    using assms(1) b1 new_size [of ?n]
    by (auto simp: grow_def compact_def idle_wf_def unread_bytes_def buf_avail_def split: if_splits)
  define b2 where "b2 = note_peak ?n b1"
  have p: "idle_wf b2" "unread_bytes b2 = unread_bytes b" "?n \<le> bufSize b2" "restorePoint b2 = restorePoint b"
    "?n \<le> peakUsage b2"
    using g by (auto simp: b2_def note_peak_def idle_wf_def unread_bytes_def)
  define b3 where "b3 = shrink t ?n b2"
  have a: "buf_avail b2 = buf_avail b" using p(2) by (metis buf_avail_unread)
  have s: "idle_wf b3" "unread_bytes b3 = unread_bytes b" "?n \<le> bufSize b3" "restorePoint b3 = restorePoint b"
  proof -
    show "idle_wf b3" using p(1) new_size [of "peakUsage b2"]
      by (auto simp: b3_def shrink_def idle_wf_def)
    show "unread_bytes b3 = unread_bytes b" using p(2) a
      by (auto simp: b3_def shrink_def unread_bytes_def buf_avail_def)
    show "?n \<le> bufSize b3" using p(3,5) double_until_ge [of DEFAULT_BUF_SIZE "peakUsage b2"]
      by (auto simp: b3_def shrink_def DEFAULT_BUF_SIZE_def)
    show "restorePoint b3 = restorePoint b" using p(4) by (auto simp: b3_def shrink_def)
  qed
  have b'': "b' = shuffle ?n b3" by (simp add: b' b3_def b2_def)
  have a3: "buf_avail b3 = buf_avail b" using s(2) by (metis buf_avail_unread)
  show "idle_wf b'" using s(1) by (auto simp: b'' shuffle_def compact_def idle_wf_def)
  show "unread_bytes b' = unread_bytes b" "restorePoint b' = restorePoint b"
    using s(2,4) by (auto simp: b'' shuffle_def compact_def unread_bytes_def)
  show "space \<le> availSpace b'" using s(1,3) a3
    by (auto simp: b'' shuffle_def compact_def availSpace_def idle_wf_def buf_avail_def)
qed

lemma fillBuffer_ok:
  assumes "idle_wf b" and "fillBuffer (b, k) = Inr (ok, b', k')"
  shows "idle_wf b' \<and> extends (b, k) (b', k') \<and> restorePoint b' = restorePoint b \<and>
    buf_avail b' + availSpace b' = buf_avail b + availSpace b"
  using assms(2)
proof (cases rule: fillBuffer_cases)
  case none
  with assms(1) readFd_inbound [OF none(3)] show ?thesis by (auto simp: extends_def)
next
  case (some bs)
  from readFd_inbound [OF some(3)] have bs: "bs @ inbound k' = inbound k" "length bs \<le> availSpace b" by auto
  have "unread_bytes b' = unread_bytes b @ bs" using assms(1)
    by (simp add: some(4) unread_bytes_def idle_wf_def)
  then have "extends (b, k) (b', k')" using bs(1) by (rule extendsI)
  with assms(1) bs(2) show ?thesis
    by (auto simp: some(4) idle_wf_def availSpace_def buf_avail_def)
qed

lemma fill_loop_ok:
  assumes "idle_wf b" and "fill_loop needed b k = Inr (ok, b', k')"
  shows "idle_wf b' \<and> extends (b, k) (b', k') \<and> restorePoint b' = restorePoint b \<and> (ok \<longleftrightarrow> needed \<le> buf_avail b')"
  using assms
proof (induction needed b k rule: fill_loop.induct)
  case (1 needed b k)
  show ?case
  proof (cases "buf_avail b < needed")
    case False
    with 1(2,3) show ?thesis by (subst (asm) fill_loop.simps) (auto intro: extends_refl)
  next
    case True
    with 1(3) obtain ok1 b1 k1 where f: "fillBuffer (b, k) = Inr (ok1, b1, k1)"
      and r: "(if ok1 then fill_loop needed b1 k1 else Inr (False, b1, k1)) = Inr (ok, b', k')"
      unfolding fill_loop.simps [of needed b k]
      by (cases "fillBuffer (b, k)") (auto split: if_splits)
    have k1: "idle_wf b1" "extends (b, k) (b1, k1)" "restorePoint b1 = restorePoint b"
      using fillBuffer_ok [OF 1(2) f] by auto
    show ?thesis
    proof (cases ok1)
      case False
      with r f True k1 show ?thesis by (auto elim!: fillBuffer_cases)
    next
      case ok: True
      have "idle_wf b' \<and> extends (b1, k1) (b', k') \<and> restorePoint b' = restorePoint b1 \<and> (ok \<longleftrightarrow> needed \<le> buf_avail b')"
        by (rule 1(1) [OF True f refl refl]) (use ok r k1 in auto)
      with k1 show ?thesis by (auto intro: extends_trans)
    qed
  qed
qed

lemma overrun_ok:
  assumes "idle_wf b" and "overrun t needed b k = Inr (ok, b', k')"
  shows "idle_wf b' \<and> extends (b, k) (b', k') \<and> restorePoint b' = restorePoint b \<and> (ok \<longleftrightarrow> needed \<le> buf_avail b')"
proof -
  from assms(2) obtain b1 where e: "ensureSpace t (needed - buf_avail b) b = Inr b1"
    and f: "fill_loop needed b1 k = Inr (ok, b', k')"
    by (auto simp: overrun_def ebind_eq_Inr)
  note b1 = ensureSpace_ok [OF assms(1) e]
  from fill_loop_ok [OF b1(1) f] extends_refl [OF b1(2), of k] b1(4) show ?thesis
    by (auto intro: extends_trans)
qed

lemma buf_wf_idle: "buf_wf b \<Longrightarrow> idle_wf b"
  by (simp add: buf_wf_def idle_wf_def)

lemma rewound:
  assumes "buf_wf b" and "restorePoint b = Some r"
  shows "idle_wf (b\<lparr>ptr := r\<rparr>)"
    and "unread_bytes (b\<lparr>ptr := r\<rparr>) = the (past_bytes b) @ unread_bytes b"
    and "length (the (past_bytes b)) = ptr b - r"
proof -
  have r: "r \<le> ptr b" "ptr b \<le> length (held b)" using assms by (auto simp: buf_wf_def)
  have "drop r (held b) = take (ptr b - r) (drop r (held b)) @ drop (ptr b - r) (drop r (held b))"
    by (rule append_take_drop_id [symmetric])
  then show "unread_bytes (b\<lparr>ptr := r\<rparr>) = the (past_bytes b) @ unread_bytes b"
    using r by (simp add: unread_bytes_def past_bytes_def assms(2))
  show "idle_wf (b\<lparr>ptr := r\<rparr>)" "length (the (past_bytes b)) = ptr b - r"
    using assms r by (simp_all add: idle_wf_def buf_wf_def past_bytes_def)
qed

lemma put_back:
  assumes "idle_wf b" and "unread_bytes b = p @ u" and "length p = d"
  defines "b' \<equiv> b\<lparr>restorePoint := Some (ptr b), ptr := ptr b + d\<rparr>"
  shows "buf_wf b'" "unread_bytes b' = u" "past_bytes b' = Some p"
proof -
  have "d \<le> buf_avail b" using assms(2,3) by (metis buf_avail_unread le_add1 length_append)
  then show "buf_wf b'" using assms(1) by (auto simp: b'_def buf_wf_def idle_wf_def buf_avail_def)
  have "unread_bytes b' = drop d (unread_bytes b)" "past_bytes b' = Some (take d (unread_bytes b))"
    by (simp_all add: b'_def unread_bytes_def past_bytes_def add.commute)
  then show "unread_bytes b' = u" "past_bytes b' = Some p" by (simp_all add: assms(2) flip: assms(3))
qed

lemma buf_hasData_ok:
  assumes "buf_wf b" and "buf_hasData t n b k = Inr (ok, b', k')"
  shows "buf_wf b' \<and> extends (b, k) (b', k') \<and> past_bytes b' = past_bytes b \<and> (ok \<longleftrightarrow> n \<le> buf_avail b')"
proof (cases "n > buf_avail b")
  case False
  with assms show ?thesis by (auto simp: buf_hasData_def intro: extends_refl)
next
  case short: True
  show ?thesis
  proof (cases "restorePoint b")
    case None
    with assms(2) short have o: "overrun t n b k = Inr (ok, b', k')" by (simp add: buf_hasData_def)
    from overrun_ok [OF buf_wf_idle [OF assms(1)] o] None show ?thesis
      by (auto simp: past_bytes_def buf_wf_def idle_wf_def)
  next
    case (Some r)
    let ?d = "ptr b - r"
    from assms(2) short Some obtain b1 where
      o: "overrun t (n + ?d) (b\<lparr>ptr := r\<rparr>) k = Inr (ok, b1, k')"
      and b': "b' = b1\<lparr>restorePoint := Some (ptr b1), ptr := ptr b1 + ?d\<rparr>"
      by (auto simp: buf_hasData_def Let_def ebind_eq_Inr)
    note rw = rewound [OF assms(1) Some]
    from overrun_ok [OF rw(1) o] obtain bs where b1: "idle_wf b1" "bs @ inbound k' = inbound k"
      "unread_bytes b1 = the (past_bytes b) @ unread_bytes b @ bs" "ok \<longleftrightarrow> n + ?d \<le> buf_avail b1"
      by (auto simp: extends_def rw(2))
    note pb = put_back [OF b1(1,3) rw(3), folded b']
    have "past_bytes b' = past_bytes b" using pb(3) Some by (simp add: past_bytes_def)
    moreover have "buf_avail b1 = ?d + buf_avail b'"
      using arg_cong [OF b1(3), of length] arg_cong [OF pb(2), of length] rw(3) by simp
    ultimately show ?thesis using pb(1) b1(4) extendsI [OF pb(2) b1(2)] by auto
  qed
qed

subsection \<open>Errors\<close>

text \<open>The answers of the kernel that make a read throw, and scripts that are kernel answers.\<close>

definition blames :: "sys_event list \<Rightarrow> stream_error \<Rightarrow> bool" where
  "blames k e \<longleftrightarrow> (e = EndOfStream \<and> Closed \<in> set k) \<or> (\<exists>call c. e = SocketError call c \<and> Failed c \<in> set k)"

definition script_ok :: "sys_event list \<Rightarrow> bool" where
  "script_ok k \<longleftrightarrow> Data [] \<notin> set k"

lemma select_read_blames: "select_read k = Inl e \<Longrightarrow> blames k e"
  by (induction k rule: select_read.induct) (auto simp: blames_def)

lemma recv_blames: "recv len k = Inl e \<Longrightarrow> 0 < len \<Longrightarrow> script_ok k \<Longrightarrow> blames k e"
  by (induction len k rule: recv.induct) (auto simp: blames_def script_ok_def split: if_splits)

lemma select_read_rest: "select_read k = Inr (r, k') \<Longrightarrow> set k' \<subseteq> set k"
  by (induction k rule: select_read.induct) auto

lemma recv_rest: "recv len k = Inr (bs, k') \<Longrightarrow> script_ok k \<Longrightarrow> script_ok k' \<and> (\<forall>e. blames k' e \<longrightarrow> blames k e)"
proof (induction len k rule: recv.induct)
  case (7 len bs k)
  then show ?case by (auto simp: blames_def script_ok_def split: if_splits)
qed (auto simp: blames_def script_ok_def)

lemma rest_blames: "set k' \<subseteq> set k \<Longrightarrow> script_ok k \<Longrightarrow> script_ok k' \<and> (\<forall>e. blames k' e \<longrightarrow> blames k e)"
  by (auto simp: blames_def script_ok_def)

lemma readFd_errors:
  assumes "script_ok k"
  shows "readFd len k = Inl e \<Longrightarrow> 0 < len \<Longrightarrow> blames k e"
    and "readFd len k = Inr (bs, k') \<Longrightarrow> script_ok k' \<and> (\<forall>e. blames k' e \<longrightarrow> blames k e)"
  using rest_blames [OF select_read_rest assms]
  by (auto simp: readFd_def ebind_eq_Inr ebind_eq_Inl split: if_splits
      dest: select_read_blames recv_blames recv_rest)

lemma fill_loop_error:
  assumes "idle_wf b" and "needed \<le> buf_avail b + availSpace b" and "script_ok k"
    and "fill_loop needed b k = Inl e"
  shows "blames k e"
  using assms
proof (induction needed b k rule: fill_loop.induct)
  case (1 needed b k)
  have short: "buf_avail b < needed" using 1(5) unfolding fill_loop.simps [of needed b k] by (auto split: if_splits)
  then have space: "0 < availSpace b" using 1(3) by simp
  show ?case
  proof (cases "fillBuffer (b, k)")
    case (Inl e')
    then have "readFd (availSpace b) k = Inl e'" by (auto simp: fillBuffer_def ebind_eq_Inl split: if_splits)
    moreover have "e' = e" using 1(5) short Inl unfolding fill_loop.simps [of needed b k] by simp
    ultimately show ?thesis using readFd_errors(1) [OF 1(4) _ space] by simp
  next
    case (Inr y)
    then obtain ok b1 k1 where f: "fillBuffer (b, k) = Inr (ok, b1, k1)" by (cases y) auto
    with 1(5) short have ok: "ok" and l: "fill_loop needed b1 k1 = Inl e"
      unfolding fill_loop.simps [of needed b k] by (auto split: if_splits)
    obtain bs where r: "readFd (availSpace b) k = Inr (bs, k1)" using f by (rule fillBuffer_cases) auto
    have "blames k1 e"
      by (rule 1(1) [OF short f refl refl]) (use ok l 1(3) fillBuffer_ok [OF 1(2) f] readFd_errors(2) [OF 1(4) r] in auto)
    then show ?thesis using readFd_errors(2) [OF 1(4) r] by blast
  qed
qed

lemma overrun_error:
  assumes "idle_wf b" and "script_ok k" and "buf_avail b < needed" and "overrun t needed b k = Inl e"
  shows "blames k e \<or> (e = BufferTooLarge needed \<and> needed > MAX_BUF_SIZE)"
proof (cases "ensureSpace t (needed - buf_avail b) b")
  case (Inl e')
  then show ?thesis using assms(3,4)
    by (auto simp: overrun_def ensureSpace_def Let_def ebind_eq_Inl grow_def split: if_splits)
next
  case (Inr b1)
  note b1 = ensureSpace_ok [OF assms(1) Inr]
  have "needed \<le> buf_avail b1 + availSpace b1" using b1(2,3) by (metis buf_avail_unread le_diff_conv add.commute)
  then show ?thesis using fill_loop_error [OF b1(1) _ assms(2), of needed e] assms(4) Inr
    by (simp add: overrun_def)
qed

subsection \<open>The buffer as a stream\<close>

text \<open>The stream a reader sees.\<close>

definition view :: "in_buffer \<Rightarrow> nat \<Rightarrow> instream" where
  "view b c = \<lparr>unread = unread_bytes b, past = past_bytes b, checkedBytes = c\<rparr>"



text \<open>A reader's calls, one after the other; a call that throws ends the connection.\<close>

datatype buf_call = HasData "nat \<Rightarrow> int" nat | Take nat | SetRestore | ClearRestore | GotoRestore

fun buf_call_result :: "in_buffer \<times> sys_event list \<Rightarrow> buf_call \<Rightarrow> stream_error + in_buffer \<times> sys_event list" where
  "buf_call_result (b, k) (HasData t n) = ebind (buf_hasData t n b k) (\<lambda>(ok, bk). Inr bk)"
| "buf_call_result (b, k) (Take n) = ebind (buf_advance n b) (\<lambda>(bs, b). Inr (b, k))"
| "buf_call_result (b, k) SetRestore = ebind (buf_setRestore b) (\<lambda>b. Inr (b, k))"
| "buf_call_result (b, k) ClearRestore = ebind (buf_clearRestore b) (\<lambda>b. Inr (b, k))"
| "buf_call_result (b, k) GotoRestore = ebind (buf_gotoRestore b) (\<lambda>b. Inr (b, k))"

fun buf_step :: "(in_buffer \<times> sys_event list) option \<Rightarrow> buf_call \<Rightarrow> (in_buffer \<times> sys_event list) option" where
  "buf_step None c = None"
| "buf_step (Some bk) c = (case buf_call_result bk c of Inl _ \<Rightarrow> None | Inr bk' \<Rightarrow> Some bk')"

text \<open>What is still to be read: the bytes a rewind brings back, the buffer, the socket.\<close>

definition ahead :: "in_buffer \<times> sys_event list \<Rightarrow> byte list" where
  "ahead = (\<lambda>(b, k). (case past_bytes b of None \<Rightarrow> [] | Some p \<Rightarrow> p) @ unread_bytes b @ inbound k)"

definition delivers :: "byte list \<Rightarrow> (in_buffer \<times> sys_event list) option \<Rightarrow> bool" where
  "delivers all s = (case s of None \<Rightarrow> True | Some bk \<Rightarrow> buf_wf (fst bk) \<and> (\<exists>n. ahead bk = drop n all))"

lemma buf_advance_ahead:
  assumes "buf_wf b" and "buf_advance n b = Inr (bs, b')"
  shows "buf_wf b' \<and> (\<exists>m. ahead (b', k) = drop m (ahead (b, k)))"
proof -
  from assms have b': "b' = b\<lparr>ptr := ptr b + n\<rparr>" "ptr b + n \<le> length (held b)"
    by (auto simp: buf_advance_def buf_avail_def buf_wf_def split: if_splits)
  have wf: "buf_wf b'" using assms(1) b'(2) by (auto simp: buf_wf_def b'(1) split: option.splits)
  have u: "unread_bytes b' = drop n (unread_bytes b)" by (simp add: b'(1) unread_bytes_def add.commute)
  show ?thesis
  proof (cases "restorePoint b")
    case None
    have "n \<le> length (unread_bytes b)" using b'(2) by (simp add: unread_bytes_def)
    then have "ahead (b', k) = drop n (ahead (b, k))"
      using None u by (simp add: ahead_def past_bytes_def b'(1))
    with wf show ?thesis by blast
  next
    case (Some r)
    then have "restorePoint b' = Some r" "b'\<lparr>ptr := r\<rparr> = b\<lparr>ptr := r\<rparr>" by (simp_all add: b'(1))
    then have "ahead (b', k) = drop 0 (ahead (b, k))"
      using rewound(2) [OF assms(1) Some] rewound(2) [OF wf, of r] Some
      by (simp add: ahead_def past_bytes_def)
    with wf show ?thesis by blast
  qed
qed

lemma buf_call_ahead:
  assumes "buf_wf b" and "buf_call_result (b, k) c = Inr (b', k')"
  shows "buf_wf b' \<and> (\<exists>m. ahead (b', k') = drop m (ahead (b, k)))"
proof (cases c)
  case (HasData t n)
  with assms(2) obtain ok where "buf_hasData t n b k = Inr (ok, b', k')" by (auto simp: ebind_eq_Inr)
  from buf_hasData_ok [OF assms(1) this] have "buf_wf b'" "ahead (b', k') = drop 0 (ahead (b, k))"
    by (auto simp: extends_def ahead_def)
  then show ?thesis by blast
next
  case (Take n)
  with assms(2) obtain bs where "buf_advance n b = Inr (bs, b')" "k' = k" by (auto simp: ebind_eq_Inr)
  then show ?thesis using buf_advance_ahead [OF assms(1)] by simp
next
  case SetRestore
  with assms have "buf_wf b'" "ahead (b', k') = drop 0 (ahead (b, k))"
    by (auto simp: buf_setRestore_def buf_wf_def ahead_def past_bytes_def unread_bytes_def split: if_splits)
  then show ?thesis by blast
next
  case ClearRestore
  with assms have "buf_wf b'" "ahead (b', k') = drop (length (the (past_bytes b))) (ahead (b, k))"
    by (auto simp: buf_clearRestore_def buf_wf_def ahead_def past_bytes_def unread_bytes_def split: if_splits)
  then show ?thesis by blast
next
  case GotoRestore
  with assms(2) obtain r where r: "restorePoint b = Some r" "b' = b\<lparr>ptr := r, restorePoint := None\<rparr>" "k' = k"
    by (auto simp: buf_gotoRestore_def buf_clearRestore_def split: option.splits)
  have "unread_bytes b' = unread_bytes (b\<lparr>ptr := r\<rparr>)" by (simp add: r(2) unread_bytes_def)
  then have "ahead (b', k') = drop 0 (ahead (b, k))"
    using rewound(2) [OF assms(1) r(1)] r by (simp add: ahead_def past_bytes_def)
  moreover have "buf_wf b'" using assms(1) r by (auto simp: buf_wf_def)
  ultimately show ?thesis by blast
qed

interpretation input: invariant_system buf_step "delivers received" for received
proof unfold_locales
  fix s c assume i: "delivers received s"
  show "delivers received (buf_step s c)"
  proof (cases s)
    case (Some bk)
    obtain b k where bk: "bk = (b, k)" by fastforce
    with i Some have wf: "buf_wf b" and "\<exists>n. ahead (b, k) = drop n received" by (auto simp: delivers_def)
    then show ?thesis using buf_call_ahead [OF wf, of k c]
      by (auto simp: Some bk delivers_def split: sum.split)
  qed (simp add: delivers_def)
qed


text \<open>The size check replaces an empty buffer.\<close>

definition shrinks :: "(nat \<Rightarrow> int) \<Rightarrow> nat \<Rightarrow> in_buffer \<Rightarrow> bool" where
  "shrinks t needed b \<longleftrightarrow> needed \<le> bufSize b \<and> buf_avail b = 0 \<and> DEFAULT_BUF_SIZE < bufSize b \<and>
     (t 1 < lastSizeCheck b \<or> lastSizeCheck b + 5 < t 1) \<and> max needed (peakUsage b) < bufSize b div 2"

text \<open>
  The stream position survives growing and compacting the buffer, but not its replacement
  by a smaller one: that resets the cursor without moving the consumed bytes into
  \<open>offset\<close>, so \<open>pos()\<close> falls back to the position of the start of the old buffer.
\<close>

theorem position_lost_on_shrink:
  assumes "buf_wf b" and "ensureSpace t n b = Inr b'"
  shows "pos b' = (if shrinks t (n + buf_avail b) b then pos b - ptr b else pos b)"
proof -
  let ?m = "n + buf_avail b"
  from assms(2) obtain b1 where b1: "grow t ?m b = Inr b1"
    and b': "b' = shuffle ?m (shrink t ?m (note_peak ?m b1))"
    by (auto simp: ensureSpace_def Let_def ebind_eq_Inr)
  have "pos b' = pos (shrink t ?m (note_peak ?m b1))"
    by (simp add: b' shuffle_def compact_def pos_def)
  also have "\<dots> = (if shrinks t ?m b then offset b else pos b)"
  proof (cases "?m > bufSize b")
    case True
    with b1 show ?thesis
      by (auto simp: grow_def compact_def shrink_def note_peak_def pos_def shrinks_def split: if_splits)
  next
    case False
    then have "b1 = b" using b1 by (simp add: grow_def)
    then show ?thesis using False
      by (auto simp: shrink_def note_peak_def pos_def shrinks_def buf_avail_def)
  qed
  finally show ?thesis by (simp add: pos_def)
qed

subsection \<open>Witnesses\<close>

definition demo_buffer :: in_buffer where
  "demo_buffer = \<lparr>held = [1, 2, 3, 4], ptr = 2, bufSize = 8192, offset = 0, peakUsage = 4,
     lastSizeCheck = 0, restorePoint = Some 1\<rparr>"

lemma demo_buffer_wf: "buf_wf demo_buffer"
  by (simp add: demo_buffer_def buf_wf_def DEFAULT_BUF_SIZE_def MAX_BUF_SIZE_def)

lemmas buffer_defs = buf_hasData_def overrun_def ensureSpace_def grow_def note_peak_def shrink_def
  shuffle_def compact_def buf_avail_def availSpace_def fillBuffer_def readFd_def
  DEFAULT_BUF_SIZE_def MAX_BUF_SIZE_def

lemma demo_hasData:
  "buf_hasData (\<lambda>_. 0) 4 demo_buffer [Interrupted, Data [5], NothingYet, Data [6]] =
     Inr (False, demo_buffer\<lparr>held := [1, 2, 3, 4, 5], peakUsage := 5\<rparr>, [Data [6]])"
  by (simp add: demo_buffer_def buffer_defs fill_loop.simps)




definition demo_drained :: in_buffer where
  "demo_drained = \<lparr>held = replicate 100 0, ptr = 100, bufSize = 16384, offset = 0, peakUsage = 100,
     lastSizeCheck = 0, restorePoint = None\<rparr>"

lemma demo_drained_ok:
  "buf_wf demo_drained" "\<exists>b'. ensureSpace (\<lambda>_. 6) 1 demo_drained = Inr b'"
  "shrinks (\<lambda>_. 6) (1 + buf_avail demo_drained) demo_drained" "pos demo_drained = 100"
  by (simp_all add: demo_drained_def buf_wf_def buffer_defs shrinks_def pos_def Let_def)

theorem position_lost_on_shrink_witness:
  "\<exists>b'. ensureSpace (\<lambda>_. 6) 1 demo_drained = Inr b' \<and> pos demo_drained = 100 \<and> pos b' = 0"
proof -
  obtain b' where b': "ensureSpace (\<lambda>_. 6) 1 demo_drained = Inr b'" using demo_drained_ok(2) by blast
  from position_lost_on_shrink [OF demo_drained_ok(1) b'] have "pos b' = 0"
    using demo_drained_ok(3,4) by (simp add: demo_drained_def)
  with b' demo_drained_ok(4) show ?thesis by blast
qed

end
