(* ===== verification/Buffered_Out.thy ===== *)
theory Buffered_Out
  imports In_Stream
begin

text \<open>
  \<open>BufferedOutStream.cxx\<close> over the socket writes of \<open>FdOutStream.cxx\<close>, with the
  checked writes of \<open>OutStream.h\<close> on top: bytes are collected in a buffer, flushed as far
  as the socket takes them, and the buffer is compacted, grown or shrunk around them.
\<close>

subsection \<open>The socket\<close>

text \<open>
  What the kernel answers to \<open>select\<close> and \<open>send\<close>; \<open>Accept n\<close> takes at most
  \<open>n\<close> bytes. A script that is used up is a socket that takes nothing more.
\<close>

datatype send_event =
    SendInterrupted
  | SendBlocked
  | Writable
  | SendFailed int
  | Accept nat

fun select_write :: "send_event list \<Rightarrow> stream_error + bool \<times> send_event list" where
  "select_write [] = Inr (False, [])"
| "select_write (SendInterrupted # k) = select_write k"
| "select_write (SendBlocked # k) = Inr (False, k)"
| "select_write (Writable # k) = Inr (True, k)"
| "select_write (SendFailed e # k) = Inl (SocketError ''select'' e)"
| "select_write (Accept n # k) = Inr (True, Accept n # k)"

fun send :: "nat \<Rightarrow> send_event list \<Rightarrow> stream_error + nat \<times> send_event list" where
  "send len [] = Inr (0, [])"
| "send len (SendInterrupted # k) = send len k"
| "send len (SendBlocked # k) = Inr (0, k)"
| "send len (Writable # k) = send len k"
| "send len (SendFailed e # k) = Inl (SocketError ''write'' e)"
| "send len (Accept n # k) = Inr (min len n, k)"

definition writeFd :: "nat \<Rightarrow> send_event list \<Rightarrow> stream_error + nat \<times> send_event list" where
  "writeFd len k = ebind (select_write k) (\<lambda>(writable, k). if \<not> writable then Inr (0, k) else send len k)"

subsection \<open>The buffer\<close>

text \<open>
  \<open>written\<close> are the bytes from \<open>start\<close> to \<open>ptr\<close>, the first \<open>sentUpTo\<close> of
  them already with the socket.
\<close>

record out_buffer =
  written :: "byte list"
  sentUpTo :: nat
  outSize :: nat
  outOffset :: nat
  outPeak :: nat
  outSizeCheck :: int
  emulateCork :: bool
  corked :: bool

text \<open>The stream together with the socket: its coming answers and the bytes it was given.\<close>

type_synonym out_state = "out_buffer \<times> send_event list \<times> byte list"

definition OUT_DEFAULT :: nat where "OUT_DEFAULT = 16384"
definition OUT_MAX :: nat where "OUT_MAX = 32 * 1024 * 1024"

definition new_out_buffer :: "bool \<Rightarrow> int \<Rightarrow> out_buffer" where
  "new_out_buffer emulate now = \<lparr>written = [], sentUpTo = 0, outSize = OUT_DEFAULT, outOffset = 0,
     outPeak = 0, outSizeCheck = now, emulateCork = emulate, corked = False\<rparr>"

definition out_avail :: "out_buffer \<Rightarrow> nat" where
  "out_avail b = outSize b - length (written b)"

definition pending :: "out_buffer \<Rightarrow> byte list" where
  "pending b = drop (sentUpTo b) (written b)"

definition out_length :: "out_buffer \<Rightarrow> nat" where
  "out_length b = outOffset b + (length (written b) - sentUpTo b)"

definition hasBufferedData :: "out_buffer \<Rightarrow> bool" where
  "hasBufferedData b \<longleftrightarrow> sentUpTo b \<noteq> length (written b)"

fun flushBuffer :: "out_state \<Rightarrow> stream_error + bool \<times> out_state" where
  "flushBuffer (b, k, w) = ebind (writeFd (length (pending b)) k) (\<lambda>(n, k).
     if n = 0 then Inr (False, b, k, w)
     else Inr (True, b\<lparr>sentUpTo := sentUpTo b + n\<rparr>, k, w @ take n (pending b)))"

lemma send_count: "send len k = Inr (n, k') \<Longrightarrow> n \<le> len"
  by (induction len k rule: send.induct) auto

lemma writeFd_count: "writeFd len k = Inr (n, k') \<Longrightarrow> n \<le> len"
  by (auto simp: writeFd_def ebind_eq_Inr split: if_splits dest: send_count)

lemma flushBuffer_cases:
  assumes "flushBuffer (b, k, w) = Inr (ok, b', k', w')"
  obtains (stuck) "\<not> ok" "b' = b" "w' = w"
  | (moved) n where "ok" "0 < n" "n \<le> length (pending b)" "b' = b\<lparr>sentUpTo := sentUpTo b + n\<rparr>"
      "w' = w @ take n (pending b)"
  using assms by (auto simp: ebind_eq_Inr split: if_splits dest: writeFd_count)

function flush_loop :: "out_state \<Rightarrow> stream_error + out_state" where
  "flush_loop (b, k, w) =
     (if sentUpTo b < length (written b) then
        case flushBuffer (b, k, w) of
          Inl e \<Rightarrow> Inl e
        | Inr (ok, b', k', w') \<Rightarrow>
            if \<not> ok then Inr (b', k', w')
            else flush_loop (b'\<lparr>outOffset := outOffset b' + (length (pending b) - length (pending b'))\<rparr>, k', w')
      else Inr (b, k, w))"
  by pat_completeness auto
termination
proof (relation "measure (\<lambda>(b, k, w). length (written b) - sentUpTo b)", goal_cases)
  case 1
  then show ?case by simp
next
  case (2 b k w x ok y b' z k' w')
  then have "flushBuffer (b, k, w) = Inr (ok, b', k', w')" and "ok" and "sentUpTo b < length (written b)" by auto
  then show ?case by (cases rule: flushBuffer_cases) auto
qed

declare flush_loop.simps [simp del]

definition reset_sent :: "out_buffer \<Rightarrow> out_buffer" where
  "reset_sent b = (if sentUpTo b = length (written b) then b\<lparr>written := [], sentUpTo := 0\<rparr> else b)"

text \<open>\<open>t\<close> gives the readings of the clock in the call, in seconds.\<close>

definition out_shrink :: "(nat \<Rightarrow> int) \<Rightarrow> out_buffer \<Rightarrow> out_buffer" where
  "out_shrink t b =
     (if sentUpTo b = length (written b) \<and> outSize b > OUT_DEFAULT \<and>
         (t 0 < outSizeCheck b \<or> t 0 > outSizeCheck b + 5) then
        (if outPeak b < outSize b div 2 then
           b\<lparr>written := [], sentUpTo := 0, outSize := double_until (outPeak b) OUT_DEFAULT\<rparr>
         else b)\<lparr>outSizeCheck := t 1, outPeak := 0\<rparr>
      else b)"

fun flush :: "(nat \<Rightarrow> int) \<Rightarrow> out_state \<Rightarrow> stream_error + out_state" where
  "flush t (b, k, w) =
     (if corked b \<and> emulateCork b \<and> length (pending b) < 1024 then Inr (b, k, w)
      else ebind (flush_loop (b, k, w)) (\<lambda>(b, k, w). Inr (out_shrink t (reset_sent b), k, w)))"

fun cork :: "(nat \<Rightarrow> int) \<Rightarrow> bool \<Rightarrow> out_state \<Rightarrow> stream_error + out_state" where
  "cork t enable (b, k, w) =
     (if \<not> enable then flush t (b\<lparr>corked := enable\<rparr>, k, w) else Inr (b\<lparr>corked := enable\<rparr>, k, w))"

definition make_room :: "(nat \<Rightarrow> int) \<Rightarrow> nat \<Rightarrow> out_buffer \<Rightarrow> stream_error + out_buffer" where
  "make_room t needed b =
     (let totalNeeded = needed + length (pending b);
          b = (if totalNeeded > outPeak b then b\<lparr>outPeak := totalNeeded\<rparr> else b)
      in if out_avail b > needed then Inr b
         else if needed < outSize b - length (pending b) then Inr (b\<lparr>written := pending b, sentUpTo := 0\<rparr>)
         else if totalNeeded > OUT_MAX then Inl (BufferTooLarge totalNeeded)
         else Inr (b\<lparr>written := pending b, sentUpTo := 0, outSize := double_until totalNeeded OUT_DEFAULT,
                outSizeCheck := t 4, outPeak := totalNeeded\<rparr>))"

fun out_overrun :: "(nat \<Rightarrow> int) \<Rightarrow> nat \<Rightarrow> out_state \<Rightarrow> stream_error + out_state" where
  "out_overrun t needed (b, k, w) =
     (let oldCorked = corked b
      in ebind (cork t True (b, k, w)) (\<lambda>s.
         ebind (flush t s) (\<lambda>s.
         ebind (cork (\<lambda>i. t (i + 2)) oldCorked s) (\<lambda>(b, k, w).
         ebind (make_room t needed b) (\<lambda>b. Inr (b, k, w))))))"

fun out_check :: "(nat \<Rightarrow> int) \<Rightarrow> nat \<Rightarrow> out_state \<Rightarrow> stream_error + out_state" where
  "out_check t n (b, k, w) = (if n > out_avail b then out_overrun t n (b, k, w) else Inr (b, k, w))"

text \<open>\<open>writeU8\<close>, \<open>writeU16\<close> and \<open>writeU32\<close>: room for the bytes, then the bytes.\<close>

definition append_bytes :: "byte list \<Rightarrow> out_state \<Rightarrow> out_state" where
  "append_bytes bs = (\<lambda>(b, k, w). (b\<lparr>written := written b @ bs\<rparr>, k, w))"

definition out_write :: "(nat \<Rightarrow> int) \<Rightarrow> byte list \<Rightarrow> out_state \<Rightarrow> stream_error + out_state" where
  "out_write t bs s = ebind (out_check t (length bs) s) (\<lambda>s. Inr (append_bytes bs s))"

definition writeU8 :: "(nat \<Rightarrow> int) \<Rightarrow> byte \<Rightarrow> out_state \<Rightarrow> stream_error + out_state" where
  "writeU8 t u = out_write t (putU8 u)"

definition writeU16 :: "(nat \<Rightarrow> int) \<Rightarrow> u16 \<Rightarrow> out_state \<Rightarrow> stream_error + out_state" where
  "writeU16 t u = out_write t (putU16 u)"

definition writeU32 :: "(nat \<Rightarrow> int) \<Rightarrow> u32 \<Rightarrow> out_state \<Rightarrow> stream_error + out_state" where
  "writeU32 t u = out_write t (putU32 u)"

text \<open>
  The loop of \<open>writeBytes\<close>: each round asks for room for one byte and copies what fits.
  That it makes progress rests on \<open>overrun\<close>, so that it ends is a theorem, not a
  matter of its form.
\<close>

partial_function (option) writeBytes :: "(nat \<Rightarrow> int) \<Rightarrow> byte list \<Rightarrow> out_state \<Rightarrow> (stream_error + out_state) option" where
  "writeBytes t data s =
     (if data = [] then Some (Inr s)
      else case out_check t 1 s of
        Inl e \<Rightarrow> Some (Inl e)
      | Inr s' \<Rightarrow>
          (let n = min (length data) (out_avail (fst s'))
           in writeBytes t (drop n data) (append_bytes (take n data) s')))"

subsection \<open>What was written reaches the socket\<close>

definition out_wf :: "out_buffer \<Rightarrow> bool" where
  "out_wf b \<longleftrightarrow> sentUpTo b \<le> length (written b) \<and> length (written b) \<le> outSize b \<and>
     OUT_DEFAULT \<le> outSize b \<and> outSize b \<le> OUT_MAX"

text \<open>Everything written so far: what the socket was given and what is pending.\<close>

definition all_output :: "out_state \<Rightarrow> byte list" where
  "all_output = (\<lambda>(b, k, w). w @ pending b)"

text \<open>The invariant of the stream: \<open>length()\<close> is the number of bytes written.\<close>

definition out_inv :: "out_state \<Rightarrow> bool" where
  "out_inv = (\<lambda>(b, k, w). out_wf b \<and> outOffset b = length w)"

text \<open>An operation that adds no bytes keeps the output.\<close>

definition keeps_output :: "out_state \<Rightarrow> out_state \<Rightarrow> bool" where
  "keeps_output s s' \<longleftrightarrow> (out_inv s \<longrightarrow> out_inv s') \<and> all_output s' = all_output s"

lemma keeps_outputI: "(out_inv s \<Longrightarrow> out_inv s') \<Longrightarrow> all_output s' = all_output s \<Longrightarrow> keeps_output s s'"
  by (simp add: keeps_output_def)

lemma keeps_output_trans: "keeps_output x y \<Longrightarrow> keeps_output y z \<Longrightarrow> keeps_output x z"
  by (simp add: keeps_output_def)

lemma keeps_output_refl: "keeps_output s s"
  by (simp add: keeps_output_def)

lemma pending_sent:
  "n \<le> length (pending b) \<Longrightarrow> take n (pending b) @ pending (b\<lparr>sentUpTo := sentUpTo b + n\<rparr>) = pending b"
  by (simp add: pending_def) (metis add.commute append_take_drop_id drop_drop)

lemma flush_loop_keeps:
  assumes "flush_loop s = Inr s'"
  shows "keeps_output s s'"
  using assms
proof (induction s rule: flush_loop.induct)
  case (1 b k w)
  show ?case
  proof (cases "sentUpTo b < length (written b)")
    case False
    with 1(2) show ?thesis by (simp add: flush_loop.simps keeps_output_refl)
  next
    case True
    with 1(2) obtain ok b1 k1 w1 where f: "flushBuffer (b, k, w) = Inr (ok, b1, k1, w1)"
      and r: "(if \<not> ok then Inr (b1, k1, w1)
        else flush_loop (b1\<lparr>outOffset := outOffset b1 + (length (pending b) - length (pending b1))\<rparr>, k1, w1)) = Inr s'"
      unfolding flush_loop.simps [of b k w] by (cases "flushBuffer (b, k, w)") auto
    from f show ?thesis
    proof (cases rule: flushBuffer_cases)
      case stuck
      with r show ?thesis by (auto simp: keeps_output_def out_inv_def all_output_def)
    next
      case (moved n)
      let ?s1 = "(b1\<lparr>outOffset := outOffset b1 + (length (pending b) - length (pending b1))\<rparr>, k1, w1)"
      have "keeps_output ?s1 s'" by (rule 1(1) [OF True f refl refl refl]) (use moved r in auto)
      moreover have "keeps_output (b, k, w) ?s1"
        using moved(3) pending_sent [OF moved(3)]
        by (auto simp: moved(4,5) keeps_output_def out_inv_def out_wf_def all_output_def pending_def)
      ultimately show ?thesis by (rule keeps_output_trans [rotated])
    qed
  qed
qed

lemma out_new_size:
  assumes "needed \<le> OUT_MAX"
  shows "needed \<le> double_until needed OUT_DEFAULT"
    and "OUT_DEFAULT \<le> double_until needed OUT_DEFAULT"
    and "double_until needed OUT_DEFAULT \<le> OUT_MAX"
  using double_until_le [of needed 11 OUT_DEFAULT] double_until_ge [of OUT_DEFAULT needed]
    double_until_least [of OUT_DEFAULT needed] assms
  by (simp_all add: OUT_DEFAULT_def OUT_MAX_def)

lemma reset_sent_keeps: "keeps_output (b, k, w) (reset_sent b, k, w)"
  by (auto simp: keeps_output_def reset_sent_def out_inv_def out_wf_def all_output_def pending_def)

lemma out_shrink_keeps: "keeps_output (b, k, w) (out_shrink t b, k, w)"
proof (rule keeps_outputI)
  assume "out_inv (b, k, w)"
  then show "out_inv (out_shrink t b, k, w)" using out_new_size [of "outPeak b"]
    by (auto simp: out_inv_def out_wf_def out_shrink_def)
next
  show "all_output (out_shrink t b, k, w) = all_output (b, k, w)"
    by (simp add: all_output_def out_shrink_def pending_def)
qed

lemma flush_keeps:
  assumes "flush t s = Inr s'"
  shows "keeps_output s s'"
proof -
  obtain b k w where s: "s = (b, k, w)" by (cases s)
  show ?thesis
  proof (cases "corked b \<and> emulateCork b \<and> length (pending b) < 1024")
    case True
    with assms s show ?thesis by (simp add: keeps_output_refl)
  next
    case False
    with assms obtain b1 k1 w1 where l: "flush_loop (b, k, w) = Inr (b1, k1, w1)"
      and s': "s' = (out_shrink t (reset_sent b1), k1, w1)"
      unfolding s flush.simps by (auto simp: ebind_eq_Inr simp del: flush.simps split: if_splits)
    show ?thesis unfolding s s'
      by (rule keeps_output_trans [OF flush_loop_keeps [OF l]])
        (rule keeps_output_trans [OF reset_sent_keeps out_shrink_keeps])
  qed
qed

lemma set_corked_keeps: "keeps_output (b, k, w) (b\<lparr>corked := c\<rparr>, k, w)"
  by (auto simp: keeps_output_def out_inv_def out_wf_def all_output_def pending_def)

lemma cork_keeps:
  assumes "cork t c s = Inr s'"
  shows "keeps_output s s'"
proof -
  obtain b k w where s: "s = (b, k, w)" by (cases s)
  show ?thesis using assms unfolding s
    by (auto split: if_splits simp del: flush.simps
        intro: set_corked_keeps keeps_output_trans [OF set_corked_keeps flush_keeps])
qed

lemma make_room_ok:
  assumes "make_room t needed b = Inr b'"
  shows "keeps_output (b, k, w) (b', k, w)" and "out_wf b \<Longrightarrow> needed \<le> out_avail b'"
proof -
  let ?total = "needed + length (pending b)"
  define b1 where "b1 = (if ?total > outPeak b then b\<lparr>outPeak := ?total\<rparr> else b)"
  have b1: "pending b1 = pending b" "out_wf b1 = out_wf b" "outOffset b1 = outOffset b"
    "written b1 = written b" "sentUpTo b1 = sentUpTo b" "outSize b1 = outSize b"
    by (simp_all add: b1_def pending_def out_wf_def)
  from assms consider "b' = b1" "needed < out_avail b1"
    | "b' = b1\<lparr>written := pending b1, sentUpTo := 0\<rparr>" "needed < outSize b1 - length (pending b1)"
    | "b' = b1\<lparr>written := pending b1, sentUpTo := 0, outSize := double_until ?total OUT_DEFAULT,
          outSizeCheck := t 4, outPeak := ?total\<rparr>" "?total \<le> OUT_MAX"
    unfolding make_room_def Let_def b1_def [symmetric] by (auto simp: b1(1) split: if_splits)
  then have "(out_wf b \<longrightarrow> out_wf b' \<and> needed \<le> out_avail b') \<and> pending b' = pending b \<and> outOffset b' = outOffset b"
  proof cases
    case 1
    then show ?thesis using b1 by simp
  next
    case 2
    then show ?thesis by (auto simp: b1(3-) out_wf_def out_avail_def pending_def)
  next
    case 3
    then show ?thesis using out_new_size [OF 3(2)] by (auto simp: b1(3-) out_wf_def out_avail_def pending_def)
  qed
  then show "keeps_output (b, k, w) (b', k, w)" "out_wf b \<Longrightarrow> needed \<le> out_avail b'"
    by (auto simp: keeps_output_def out_inv_def all_output_def)
qed

lemma out_check_ok:
  assumes "out_inv s" and "out_check t n s = Inr s'"
  shows "out_inv s'" "all_output s' = all_output s" "n \<le> out_avail (fst s')"
proof -
  obtain b k w where s: "s = (b, k, w)" by (cases s)
  show "out_inv s'" "all_output s' = all_output s" "n \<le> out_avail (fst s')"
  proof (atomize (full), cases "n > out_avail b")
    case False
    with assms s show "out_inv s' \<and> all_output s' = all_output s \<and> n \<le> out_avail (fst s')" by auto
  next
    case True
    with assms(2) obtain s1 s2 b3 k3 w3 b4 where
      c: "cork t True s = Inr s1" and f: "flush t s1 = Inr s2"
      and d: "cork (\<lambda>i. t (i + 2)) (corked b) s2 = Inr (b3, k3, w3)"
      and m: "make_room t n b3 = Inr b4" and s': "s' = (b4, k3, w3)"
      unfolding s out_check.simps out_overrun.simps Let_def
      by (auto simp: ebind_eq_Inr simp del: flush.simps cork.simps)
    have k3: "keeps_output s (b3, k3, w3)"
      by (rule keeps_output_trans [OF cork_keeps [OF c] keeps_output_trans [OF flush_keeps [OF f] cork_keeps [OF d]]])
    then have "out_wf b3" using assms(1) by (simp add: keeps_output_def out_inv_def)
    with k3 make_room_ok(1) [OF m, of k3 w3] make_room_ok(2) [OF m] assms(1)
    show "out_inv s' \<and> all_output s' = all_output s \<and> n \<le> out_avail (fst s')"
      by (auto simp: s' keeps_output_def)
  qed
qed

lemma append_bytes_ok:
  assumes "out_inv s" and "length bs \<le> out_avail (fst s)"
  shows "out_inv (append_bytes bs s)" "all_output (append_bytes bs s) = all_output s @ bs"
  using assms
  by (cases s; auto simp: append_bytes_def out_inv_def out_wf_def out_avail_def all_output_def pending_def)+

lemma out_write_ok:
  assumes "out_inv s" and "out_write t bs s = Inr s'"
  shows "out_inv s'" "all_output s' = all_output s @ bs"
proof -
  from assms(2) obtain s1 where c: "out_check t (length bs) s = Inr s1" and s': "s' = append_bytes bs s1"
    by (auto simp: out_write_def ebind_eq_Inr)
  note s1 = out_check_ok [OF assms(1) c]
  from append_bytes_ok [OF s1(1,3)] show "out_inv s'" "all_output s' = all_output s @ bs"
    by (simp_all add: s' s1(2))
qed

lemma writeBytes_ok:
  assumes "out_inv s"
  shows "(\<exists>e. writeBytes t data s = Some (Inl e)) \<or>
    (\<exists>s'. writeBytes t data s = Some (Inr s') \<and> out_inv s' \<and> all_output s' = all_output s @ data)"
  using assms
proof (induction data arbitrary: s rule: length_induct)
  case (1 data)
  show ?case
  proof (cases "data = []")
    case True
    with 1(2) show ?thesis by (subst (1 2) writeBytes.simps) simp
  next
    case nonempty: False
    show ?thesis
    proof (cases "out_check t 1 s")
      case (Inl e)
      with nonempty show ?thesis by (subst (1) writeBytes.simps) simp
    next
      case (Inr s1)
      note s1 = out_check_ok [OF 1(2) Inr]
      define n where "n = min (length data) (out_avail (fst s1))"
      have n: "0 < n" "length (take n data) \<le> out_avail (fst s1)"
        using nonempty s1(3) by (simp_all add: n_def)
      note s2 = append_bytes_ok [OF s1(1) n(2)]
      have "length (drop n data) < length data" using n(1) nonempty by simp
      with 1(1) s2(1) have "(\<exists>e. writeBytes t (drop n data) (append_bytes (take n data) s1) = Some (Inl e)) \<or>
        (\<exists>s'. writeBytes t (drop n data) (append_bytes (take n data) s1) = Some (Inr s') \<and> out_inv s' \<and>
           all_output s' = all_output (append_bytes (take n data) s1) @ drop n data)" by blast
      moreover have "writeBytes t data s = writeBytes t (drop n data) (append_bytes (take n data) s1)"
        using nonempty Inr by (subst writeBytes.simps) (simp add: n_def Let_def)
      ultimately show ?thesis by (simp add: s2(2) s1(2))
    qed
  qed
qed

subsection \<open>Runs\<close>

text \<open>
  The calls a writer makes; \<open>WriteInt\<close> stands for \<open>writeU8\<close>, \<open>writeU16\<close> and
  \<open>writeU32\<close>, by the bytes they store. A call that throws ends the connection.
\<close>

datatype out_call =
    WriteInt "nat \<Rightarrow> int" "byte list"
  | WriteBytes "nat \<Rightarrow> int" "byte list"
  | Flush "nat \<Rightarrow> int"
  | Cork "nat \<Rightarrow> int" bool

fun call_bytes :: "out_call \<Rightarrow> byte list" where
  "call_bytes (WriteInt t bs) = bs"
| "call_bytes (WriteBytes t bs) = bs"
| "call_bytes _ = []"

fun out_call_result :: "out_state \<Rightarrow> out_call \<Rightarrow> (stream_error + out_state) option" where
  "out_call_result s (WriteInt t bs) = Some (out_write t bs s)"
| "out_call_result s (WriteBytes t bs) = writeBytes t bs s"
| "out_call_result s (Flush t) = Some (flush t s)"
| "out_call_result s (Cork t c) = Some (cork t c s)"

text \<open>The state of a run, with the bytes handed to it so far; it ends at the first throw.\<close>

fun out_step :: "(out_state \<times> byte list) option \<Rightarrow> out_call \<Rightarrow> (out_state \<times> byte list) option" where
  "out_step None c = None"
| "out_step (Some (s, given)) c =
     (case out_call_result s c of Some (Inr s') \<Rightarrow> Some (s', given @ call_bytes c) | _ \<Rightarrow> None)"

definition out_run_inv :: "(out_state \<times> byte list) option \<Rightarrow> bool" where
  "out_run_inv r = (case r of None \<Rightarrow> True | Some (s, given) \<Rightarrow> out_inv s \<and> all_output s = given)"

lemma out_call_ok:
  assumes "out_inv s" and "out_call_result s c = Some (Inr s')"
  shows "out_inv s' \<and> all_output s' = all_output s @ call_bytes c"
proof (cases c)
  case (WriteInt t bs)
  then show ?thesis using assms out_write_ok [OF assms(1)] by auto
next
  case (WriteBytes t bs)
  then show ?thesis using assms writeBytes_ok [OF assms(1), of t bs] by auto
next
  case (Flush t)
  then show ?thesis using assms flush_keeps [of t s s'] by (auto simp: keeps_output_def simp del: flush.simps)
next
  case (Cork t e)
  then show ?thesis using assms cork_keeps [of t e s s'] by (auto simp: keeps_output_def simp del: cork.simps)
qed

interpretation out: invariant_system out_step out_run_inv
proof unfold_locales
  fix r c assume i: "out_run_inv r"
  show "out_run_inv (out_step r c)"
  proof (cases r)
    case (Some sg)
    obtain s given where sg: "sg = (s, given)" by fastforce
    show ?thesis using i out_call_ok [of s c]
      by (auto simp: Some sg out_run_inv_def split: option.split sum.split)
  qed (simp add: out_run_inv_def)
qed

text \<open>
  C17: The output stream loses nothing: after any calls, with any answers of the socket, the
  bytes given to the socket followed by those still pending are exactly the bytes written, in
  order; \<open>length()\<close> is their number, and the buffer is at most 32 MiB.
\<close>

theorem output_stream_faithful:
  assumes "run out_step (Some ((new_out_buffer e now, k, []), [])) cs = Some ((b, k', sent), given)"
  shows "sent @ pending b = given \<and> out_length b = length given \<and> length (written b) \<le> outSize b \<and>
    outSize b \<le> 33554432"
proof -
  have "out_run_inv (Some ((new_out_buffer e now, k, []), []))"
    by (simp add: out_run_inv_def out_inv_def out_wf_def new_out_buffer_def all_output_def pending_def
        OUT_DEFAULT_def OUT_MAX_def)
  from out.run_inv [OF this, of cs] have "out_wf b" "outOffset b = length sent" "sent @ pending b = given"
    by (auto simp: assms out_run_inv_def out_inv_def all_output_def)
  moreover from this(2,3) have "out_length b = length given"
    by (auto simp: out_length_def pending_def)
  ultimately show ?thesis by (simp add: out_wf_def OUT_MAX_def)
qed

text \<open>
  C21: The copying loop of \<open>writeBytes\<close> always ends: \<open>overrun\<close> makes room for at
  least one byte in each round or throws. When it returns, the whole block is in the stream.
\<close>

theorem writeBytes_returns:
  assumes "out_wf b" and "outOffset b = length sent"
  shows "\<exists>r. writeBytes t data (b, k, sent) = Some r \<and>
    (\<forall>b' k' sent'. r = Inr (b', k', sent') \<longrightarrow> sent' @ pending b' = sent @ pending b @ data)"
proof -
  have "out_inv (b, k, sent)" using assms by (simp add: out_inv_def)
  from writeBytes_ok [OF this, of t data] show ?thesis by (auto simp: all_output_def)
qed

subsection \<open>Draining\<close>

definition taking :: "send_event list \<Rightarrow> bool" where
  "taking k \<longleftrightarrow> (\<forall>e\<in>set k. \<exists>n. e = Accept (Suc n))"

lemma writeFd_taking:
  assumes "taking k" and "k \<noteq> []" and "0 < len"
  obtains n k' where "writeFd len k = Inr (n, k')" "0 < n" "k' = tl k"
  using assms by (cases k) (auto simp: taking_def writeFd_def)

lemma flush_loop_taking:
  assumes "taking k" and "length (pending b) \<le> length k" and "sentUpTo b \<le> length (written b)"
  shows "\<exists>b' k'. flush_loop (b, k, w) = Inr (b', k', w @ pending b) \<and> sentUpTo b' = length (written b')"
  using assms
proof (induction "length (pending b)" arbitrary: b k w rule: less_induct)
  case less
  show ?case
  proof (cases "sentUpTo b < length (written b)")
    case False
    with less.prems(3) show ?thesis by (auto simp: flush_loop.simps pending_def)
  next
    case True
    then have p: "0 < length (pending b)" by (simp add: pending_def)
    then have "k \<noteq> []" using less.prems(2) by auto
    with less.prems(1) p obtain n where wr: "writeFd (length (pending b)) k = Inr (n, tl k)" and n: "0 < n"
      by (auto elim: writeFd_taking)
    from writeFd_count [OF wr] have le: "n \<le> length (pending b)" .
    let ?b1 = "b\<lparr>sentUpTo := sentUpTo b + n\<rparr>"
    let ?b2 = "?b1\<lparr>outOffset := outOffset ?b1 + (length (pending b) - length (pending ?b1))\<rparr>"
    have l: "flush_loop (b, k, w) = flush_loop (?b2, tl k, w @ take n (pending b))"
      using True wr n by (subst flush_loop.simps) simp
    have p2: "pending ?b2 = drop n (pending b)" by (simp add: pending_def add.commute)
    have "\<exists>b' k'. flush_loop (?b2, tl k, w @ take n (pending b)) =
        Inr (b', k', (w @ take n (pending b)) @ pending ?b2) \<and> sentUpTo b' = length (written b')"
    proof (rule less.hyps)
      show "length (pending ?b2) < length (pending b)" using p n by (simp only: p2 length_drop)
      show "taking (tl k)" using less.prems(1) \<open>k \<noteq> []\<close> by (cases k) (auto simp: taking_def)
      show "length (pending ?b2) \<le> length (tl k)" using less.prems(2) n by (simp only: p2 length_drop length_tl)
      show "sentUpTo ?b2 \<le> length (written ?b2)" using le less.prems(3) by (simp add: pending_def)
    qed
    then show ?thesis unfolding l p2 by simp
  qed
qed

text \<open>
  C20: A flush that is not held back by a cork empties the buffer as soon as the socket takes
  bytes, however few at a time: after as many acceptances as there are bytes, all of them are
  with the socket in order and nothing is left to flush.
\<close>

theorem flush_drains:
  assumes "taking k" and "length (pending b) \<le> length k" and "out_wf b"
    and "\<not> (corked b \<and> emulateCork b)"
  shows "\<exists>b' k'. flush t (b, k, sent) = Inr (b', k', sent @ pending b) \<and> \<not> hasBufferedData b'"
proof -
  have "sentUpTo b \<le> length (written b)" using assms(3) by (simp add: out_wf_def)
  from flush_loop_taking [OF assms(1,2) this] obtain b' k' where
    "flush_loop (b, k, sent) = Inr (b', k', sent @ pending b)" "sentUpTo b' = length (written b')" by blast
  then have "flush t (b, k, sent) = Inr (out_shrink t (reset_sent b'), k', sent @ pending b)"
    using assms(4) by auto
  moreover have "\<not> hasBufferedData (out_shrink t (reset_sent b'))"
    using \<open>sentUpTo b' = length (written b')\<close> by (simp add: hasBufferedData_def out_shrink_def reset_sent_def)
  ultimately show ?thesis by blast
qed

subsection \<open>Witnesses\<close>

definition demo_out :: out_buffer where
  "demo_out = (new_out_buffer True 0)\<lparr>written := [1, 2, 3], sentUpTo := 1, outOffset := 1\<rparr>"

lemma demo_out_wf: "out_wf demo_out" "pending demo_out = [2, 3]" "outOffset demo_out = 1"
  by (simp_all add: demo_out_def new_out_buffer_def out_wf_def pending_def OUT_DEFAULT_def OUT_MAX_def)

theorem output_stream_faithful_witness:
  "\<exists>b k' sent. run out_step (Some ((new_out_buffer True 0, [SendInterrupted, Accept 1], []), []))
       [WriteInt (\<lambda>_. 0) [7, 8], Flush (\<lambda>_. 0)] = Some ((b, k', sent), [7, 8]) \<and>
     sent = [7] \<and> sent @ pending b = [7, 8] \<and> out_length b = 2"
proof -
  let ?b = "(new_out_buffer True 0)\<lparr>written := [7, 8], sentUpTo := 1, outOffset := 1\<rparr>"
  have r: "run out_step (Some ((new_out_buffer True 0, [SendInterrupted, Accept 1], []), []))
       [WriteInt (\<lambda>_. 0) [7, 8], Flush (\<lambda>_. 0)] = Some ((?b, [], [7]), [7, 8])"
    by (simp add: new_out_buffer_def out_write_def out_avail_def append_bytes_def flush_loop.simps writeFd_def
        pending_def reset_sent_def out_shrink_def OUT_DEFAULT_def)
  from output_stream_faithful [OF r] r show ?thesis by auto
qed

theorem writeBytes_returns_witness:
  "\<exists>r. writeBytes (\<lambda>_. 0) [4, 5] (demo_out, [], [1]) = Some r \<and>
     (\<forall>b' k' sent'. r = Inr (b', k', sent') \<longrightarrow> sent' @ pending b' = [1, 2, 3, 4, 5])"
  using writeBytes_returns [OF demo_out_wf(1), of "[1]" "\<lambda>_. 0" "[4, 5]" "[]"] demo_out_wf(2,3) by simp

theorem flush_drains_witness:
  "\<exists>b' k'. flush (\<lambda>_. 0) (demo_out, [Accept 1, Accept 1], [1]) = Inr (b', k', [1, 2, 3]) \<and> \<not> hasBufferedData b'"
proof -
  have k: "taking [Accept 1, Accept 1]" "length (pending demo_out) \<le> length [Accept 1, Accept 1]"
    by (auto simp: taking_def demo_out_wf(2))
  have c: "\<not> (corked demo_out \<and> emulateCork demo_out)" by (simp add: demo_out_def new_out_buffer_def)
  from flush_drains [OF k demo_out_wf(1) c, of "\<lambda>_. 0" "[1]"] show ?thesis
    by (simp add: demo_out_wf(2) del: flush.simps)
qed

end
