(* ===== verification/Pixel_Format.thy ===== *)
theory Pixel_Format
  imports In_Stream
begin

text \<open>
  \<open>common/rfb/PixelFormat.cxx\<close> and \<open>PixelFormat.inl\<close>: the description of how a
  colour is laid out in a pixel, its transport in the protocol, and the conversions between
  pixels, pixel buffers and 8-bit RGB. The lemmas show that a sane format survives its
  transport, that a colour survives the trip through 8-bit channels, and that every optimised
  conversion loop shows the same colours as the generic one.
\<close>

named_theorems pixel_simps \<open>unfolding the conversions of one pixel\<close>

subsection \<open>The format\<close>

type_synonym pixel = u32

record pixel_format =
  bpp :: nat
  depth :: nat
  trueColour :: bool
  bigEndian :: bool
  redMax :: nat
  greenMax :: nat
  blueMax :: nat
  redShift :: nat
  greenShift :: nat
  blueShift :: nat
  redBits :: nat
  greenBits :: nat
  blueBits :: nat
  maxBits :: nat
  minBits :: nat
  endianMismatch :: bool

text \<open>\<open>static int bits(uint16_t)\<close>, which counts by halving the word; \<open>bits(0)\<close> is 1.\<close>

definition bits :: "u16 \<Rightarrow> nat" where
  "bits v0 =
     (let (n1, v1) = (if v0 AND 0xff00 = 0 then (8, push_bit 8 v0) else (16, v0));
          (n2, v2) = (if v1 AND 0xf000 = 0 then (n1 - 4, push_bit 4 v1) else (n1, v1));
          (n3, v3) = (if v2 AND 0xc000 = 0 then (n2 - 2, push_bit 2 v2) else (n2, v2))
      in if v3 AND 0x8000 = 0 then n3 - 1 else n3)"

text \<open>\<open>hostBig\<close> is what the test of the host's byte order finds.\<close>

definition updateState :: "bool \<Rightarrow> pixel_format \<Rightarrow> pixel_format" where
  "updateState hostBig pf =
     (let rb = bits (of_nat (redMax pf)); gb = bits (of_nat (greenMax pf)); bb = bits (of_nat (blueMax pf));
          mx = rb; mx = (if gb > mx then gb else mx); mx = (if bb > mx then bb else mx);
          mn = rb; mn = (if gb < mn then gb else mn); mn = (if bb < mn then bb else mn)
      in pf\<lparr>redBits := rb, greenBits := gb, blueBits := bb, maxBits := mx, minBits := mn,
            endianMismatch := (hostBig \<noteq> bigEndian pf)\<rparr>)"

definition isSane :: "pixel_format \<Rightarrow> bool" where
  "isSane pf \<longleftrightarrow>
     (if bpp pf \<noteq> 8 \<and> bpp pf \<noteq> 16 \<and> bpp pf \<noteq> 32 then False
      else if depth pf > bpp pf then False
      else if \<not> trueColour pf \<and> depth pf \<noteq> 8 then False
      else if redMax pf AND (redMax pf + 1) \<noteq> 0 then False
      else if greenMax pf AND (greenMax pf + 1) \<noteq> 0 then False
      else if blueMax pf AND (blueMax pf + 1) \<noteq> 0 then False
      else if redMax pf \<ge> 256 then False
      else if greenMax pf \<ge> 256 then False
      else if blueMax pf \<ge> 256 then False
      else if bits (of_nat (redMax pf)) + bits (of_nat (greenMax pf)) + bits (of_nat (blueMax pf)) > depth pf then False
      else if bits (of_nat (redMax pf)) + redShift pf > bpp pf then False
      else if bits (of_nat (greenMax pf)) + greenShift pf > bpp pf then False
      else if bits (of_nat (blueMax pf)) + blueShift pf > bpp pf then False
      else if push_bit (redShift pf) (of_nat (redMax pf) :: u32) AND push_bit (greenShift pf) (of_nat (greenMax pf)) \<noteq> 0 then False
      else if push_bit (redShift pf) (of_nat (redMax pf) :: u32) AND push_bit (blueShift pf) (of_nat (blueMax pf)) \<noteq> 0 then False
      else if push_bit (greenShift pf) (of_nat (greenMax pf) :: u32) AND push_bit (blueShift pf) (of_nat (blueMax pf)) \<noteq> 0 then False
      else True)"

definition mk_format :: "bool \<Rightarrow> nat \<Rightarrow> nat \<Rightarrow> bool \<Rightarrow> bool \<Rightarrow> nat \<Rightarrow> nat \<Rightarrow> nat \<Rightarrow> nat \<Rightarrow> nat \<Rightarrow> nat \<Rightarrow> pixel_format" where
  "mk_format hostBig b d e t rm gm bm rs gs bs =
     updateState hostBig \<lparr>bpp = b, depth = d, trueColour = t, bigEndian = e, redMax = rm, greenMax = gm, blueMax = bm,
       redShift = rs, greenShift = gs, blueShift = bs, redBits = 0, greenBits = 0, blueBits = 0,
       maxBits = 0, minBits = 0, endianMismatch = False\<rparr>"

text \<open>The checking constructor, and the default one.\<close>

definition new_format :: "bool \<Rightarrow> nat \<Rightarrow> nat \<Rightarrow> bool \<Rightarrow> bool \<Rightarrow> nat \<Rightarrow> nat \<Rightarrow> nat \<Rightarrow> nat \<Rightarrow> nat \<Rightarrow> nat \<Rightarrow> pixel_format option" where
  "new_format hostBig b d e t rm gm bm rs gs bs =
     (let pf = mk_format hostBig b d e t rm gm bm rs gs bs in if isSane pf then Some pf else None)"

definition default_format :: "bool \<Rightarrow> pixel_format" where
  "default_format hostBig = mk_format hostBig 8 8 False True 7 7 3 0 3 6"

definition format_eq :: "pixel_format \<Rightarrow> pixel_format \<Rightarrow> bool" where
  "format_eq a b \<longleftrightarrow>
     (if bpp a \<noteq> bpp b \<or> depth a \<noteq> depth b then False
      else if redMax a \<noteq> redMax b then False
      else if greenMax a \<noteq> greenMax b then False
      else if blueMax a \<noteq> blueMax b then False
      else if bigEndian a = bigEndian b \<or> bpp a = 8 then
        redShift a = redShift b \<and> greenShift a = greenShift b \<and> blueShift a = blueShift b
      else
        int (redShift a div 8) = 3 - int (redShift b div 8) \<and>
        int (greenShift a div 8) = 3 - int (greenShift b div 8) \<and>
        int (blueShift a div 8) = 3 - int (blueShift b div 8) \<and>
        redShift a mod 8 = redShift b mod 8 \<and>
        greenShift a mod 8 = greenShift b mod 8 \<and>
        blueShift a mod 8 = blueShift b mod 8 \<and>
        redShift a div 8 = (redShift a + redBits a - 1) div 8 \<and>
        greenShift a div 8 = (greenShift a + greenBits a - 1) div 8 \<and>
        blueShift a div 8 = (blueShift a + blueBits a - 1) div 8)"

definition is888 :: "pixel_format \<Rightarrow> bool" where
  "is888 pf \<longleftrightarrow> trueColour pf \<and> bpp pf = 32 \<and> depth pf = 24 \<and>
     redMax pf = 255 \<and> greenMax pf = 255 \<and> blueMax pf = 255 \<and>
     redShift pf AND 7 = 0 \<and> greenShift pf AND 7 = 0 \<and> blueShift pf AND 7 = 0"

subsection \<open>Transport\<close>

definition read_format :: "bool \<Rightarrow> instream \<Rightarrow> pixel_format reading" where
  "read_format hostBig s =
     ebind (readU8 s) (\<lambda>(b, s). ebind (readU8 s) (\<lambda>(d, s). ebind (readU8 s) (\<lambda>(e, s). ebind (readU8 s) (\<lambda>(t, s).
     ebind (readU16 s) (\<lambda>(rm, s). ebind (readU16 s) (\<lambda>(gm, s). ebind (readU16 s) (\<lambda>(bm, s).
     ebind (readU8 s) (\<lambda>(rs, s). ebind (readU8 s) (\<lambda>(gs, s). ebind (readU8 s) (\<lambda>(bs, s).
     ebind (skip 3 s) (\<lambda>s.
     let pf = (if t = 0 then mk_format hostBig (unat b) (unat d) (e \<noteq> 0) False 7 7 3 0 3 6
               else mk_format hostBig (unat b) (unat d) (e \<noteq> 0) True (unat rm) (unat gm) (unat bm) (unat rs) (unat gs) (unat bs))
     in if \<not> isSane pf then Inl (ProtocolError ''Invalid pixel format'') else Inr (pf, s))))))))))))"

definition write_format :: "pixel_format \<Rightarrow> byte list" where
  "write_format pf =
     putU8 (of_nat (bpp pf)) @ putU8 (of_nat (depth pf)) @ putU8 (of_bool (bigEndian pf)) @ putU8 (of_bool (trueColour pf)) @
     putU16 (of_nat (redMax pf)) @ putU16 (of_nat (greenMax pf)) @ putU16 (of_nat (blueMax pf)) @
     putU8 (of_nat (redShift pf)) @ putU8 (of_nat (greenShift pf)) @ putU8 (of_nat (blueShift pf)) @ pad 3"

subsection \<open>The conversion tables\<close>

text \<open>
  One sub-table of 256 entries for each width from 1 to 8 bits. The up table scales a channel
  value to 8 bits and is repeated so that the upper bits of the index do not matter; the down
  table scales 8 bits to the width.
\<close>

definition up_entries :: "nat \<Rightarrow> byte list" where
  "up_entries b = (let maxVal = 2 ^ b - 1 in
     concat (replicate (256 div (maxVal + 1)) (map (\<lambda>i. of_nat (i * 255 div maxVal)) [0..<maxVal + 1])))"

definition down_entries :: "nat \<Rightarrow> byte list" where
  "down_entries b = (let maxVal = 2 ^ b - 1 in map (\<lambda>i. of_nat ((i * maxVal + 128) div 255)) [0..<256])"

definition upconvTable :: "byte list" where
  "upconvTable = concat (map up_entries [1..<9])"

definition downconvTable :: "byte list" where
  "downconvTable = concat (map down_entries [1..<9])"

definition upconv :: "nat \<Rightarrow> byte \<Rightarrow> byte" where
  "upconv b v = upconvTable ! ((b - 1) * 256 + unat v)"

definition downconv :: "nat \<Rightarrow> byte \<Rightarrow> byte" where
  "downconv b v = downconvTable ! ((b - 1) * 256 + unat v)"

subsection \<open>One pixel\<close>

definition pixelFromBuffer :: "pixel_format \<Rightarrow> byte list \<Rightarrow> pixel" where
  "pixelFromBuffer pf buf =
     (if bigEndian pf then
        if bpp pf = 32 then push_bit 24 (ucast (buf ! 0)) OR push_bit 16 (ucast (buf ! 1)) OR
                            push_bit 8 (ucast (buf ! 2)) OR ucast (buf ! 3)
        else if bpp pf = 16 then push_bit 8 (ucast (buf ! 0)) OR ucast (buf ! 1)
        else if bpp pf = 8 then ucast (buf ! 0)
        else 0
      else ucast (buf ! 0) OR
        (if bpp pf \<ge> 16 then push_bit 8 (ucast (buf ! 1)) OR
           (if bpp pf = 32 then push_bit 16 (ucast (buf ! 2)) OR push_bit 24 (ucast (buf ! 3)) else 0)
         else 0))"

definition bufferFromPixel :: "pixel_format \<Rightarrow> pixel \<Rightarrow> byte list" where
  "bufferFromPixel pf p =
     (if bigEndian pf then
        if bpp pf = 32 then [ucast (drop_bit 24 p), ucast (drop_bit 16 p), ucast (drop_bit 8 p), ucast p]
        else if bpp pf = 16 then [ucast (drop_bit 8 p), ucast p]
        else if bpp pf = 8 then [ucast p]
        else []
      else ucast p #
        (if bpp pf \<ge> 16 then ucast (drop_bit 8 p) #
           (if bpp pf = 32 then [ucast (drop_bit 16 p), ucast (drop_bit 24 p)] else [])
         else []))"

definition pixelFromRGB8 :: "pixel_format \<Rightarrow> byte \<times> byte \<times> byte \<Rightarrow> pixel" where
  "pixelFromRGB8 pf = (\<lambda>(r, g, b).
     push_bit (redShift pf) (ucast (downconv (redBits pf) r)) OR
     push_bit (greenShift pf) (ucast (downconv (greenBits pf) g)) OR
     push_bit (blueShift pf) (ucast (downconv (blueBits pf) b)))"

definition rgbFromPixel8 :: "pixel_format \<Rightarrow> pixel \<Rightarrow> byte \<times> byte \<times> byte" where
  "rgbFromPixel8 pf p =
     (upconv (redBits pf) (ucast (drop_bit (redShift pf) p)),
      upconv (greenBits pf) (ucast (drop_bit (greenShift pf) p)),
      upconv (blueBits pf) (ucast (drop_bit (blueShift pf) p)))"

definition pixelFromRGB16 :: "pixel_format \<Rightarrow> u16 \<times> u16 \<times> u16 \<Rightarrow> pixel" where
  "pixelFromRGB16 pf = (\<lambda>(r, g, b).
     push_bit (redShift pf) (ucast (downconv (redBits pf) (ucast (drop_bit 8 r)))) OR
     push_bit (greenShift pf) (ucast (downconv (greenBits pf) (ucast (drop_bit 8 g)))) OR
     push_bit (blueShift pf) (ucast (downconv (blueBits pf) (ucast (drop_bit 8 b)))))"

definition rgbFromPixel16 :: "pixel_format \<Rightarrow> pixel \<Rightarrow> u16 \<times> u16 \<times> u16" where
  "rgbFromPixel16 pf p =
     (let wide = (\<lambda>v :: byte. push_bit 8 (ucast v) OR ucast v)
      in case rgbFromPixel8 pf p of (r, g, b) \<Rightarrow> (wide r, wide g, wide b))"

definition pixelFromPixel :: "pixel_format \<Rightarrow> pixel_format \<Rightarrow> pixel \<Rightarrow> pixel" where
  "pixelFromPixel pf srcPF p = pixelFromRGB16 pf (rgbFromPixel16 srcPF p)"

subsection \<open>The tables scale\<close>

lemma byte_bound: "unat (v :: byte) < 256"
  using unsigned_less [of v] by simp

lemma concat_nth_chunk:
  assumes "\<And>x. x \<in> set xs \<Longrightarrow> length (f x) = n" and "i < length xs" and "j < n"
  shows "concat (map f xs) ! (i * n + j) = f (xs ! i) ! j"
  using assms
proof (induction xs arbitrary: i)
  case Nil
  then show ?case by simp
next
  case (Cons x xs)
  show ?case
  proof (cases i)
    case 0
    then show ?thesis using Cons.prems by (simp add: nth_append)
  next
    case (Suc k)
    then show ?thesis using Cons.prems(2,3) Cons.IH [of k] Cons.prems(1) by (simp add: nth_append)
  qed
qed

lemma concat_replicate_nth:
  "i < k * length xs \<Longrightarrow> concat (replicate k xs) ! i = xs ! (i mod length xs)"
proof (induction k arbitrary: i)
  case (Suc k)
  then show ?case by (cases "i < length xs") (auto simp: nth_append le_mod_geq)
qed simp

lemma width_cases:
  assumes "1 \<le> b" "b \<le> (8::nat)"
  shows "b \<in> {1, 2, 3, 4, 5, 6, 7, 8}"
  using assms by auto

lemma length_concat_replicate: "length (concat (replicate k xs)) = k * length xs"
  by (induction k) auto

lemma entries_length:
  assumes "1 \<le> b" "b \<le> 8"
  shows "length (up_entries b) = 256" "length (down_entries b) = 256"
  using width_cases [OF assms] by (auto simp: up_entries_def down_entries_def length_concat_replicate Let_def simp del: upt_Suc)

lemma upconv_eq:
  assumes "1 \<le> b" "b \<le> 8"
  shows "upconv b v = of_nat ((unat v mod 2 ^ b) * 255 div (2 ^ b - 1))"
proof -
  have v: "unat v < 256" using byte_bound [of v] by simp
  have l: "\<And>x. x \<in> set [1..<9] \<Longrightarrow> length (up_entries x) = 256" by (rule entries_length) auto
  have "upconv b v = up_entries b ! unat v"
    using concat_nth_chunk [of "[1..<9]" up_entries 256 "b - 1" "unat v", OF l] assms v
    by (simp add: upconv_def upconvTable_def nth_upt del: upt_Suc)
  also have "\<dots> = of_nat ((unat v mod 2 ^ b) * 255 div (2 ^ b - 1))"
  proof -
    have d: "256 div (2 ^ b - 1 + 1) * (2 ^ b - 1 + 1) = (256 :: nat)" using width_cases [OF assms] by auto
    have p: "2 ^ b - 1 + 1 = (2 ^ b :: nat)" by simp
    show ?thesis unfolding up_entries_def Let_def
      by (subst concat_replicate_nth) (use v d p in \<open>simp_all del: upt_Suc\<close>)
  qed
  finally show ?thesis .
qed

lemma downconv_eq:
  assumes "1 \<le> b" "b \<le> 8"
  shows "downconv b v = of_nat ((unat v * (2 ^ b - 1) + 128) div 255)"
proof -
  have v: "unat v < 256" using byte_bound [of v] by simp
  have l: "\<And>x. x \<in> set [1..<9] \<Longrightarrow> length (down_entries x) = 256" by (rule entries_length) auto
  have "downconv b v = down_entries b ! unat v"
    using concat_nth_chunk [of "[1..<9]" down_entries 256 "b - 1" "unat v", OF l] assms v
    by (simp add: downconv_def downconvTable_def nth_upt del: upt_Suc)
  then show ?thesis using v by (simp add: down_entries_def Let_def del: upt_Suc)
qed

lemma scale_back:
  fixes v m :: nat
  assumes "v \<le> m" and "0 < m" and "m \<le> 128 \<or> m = 255"
  shows "((v * 255 div m) * m + 128) div 255 = v"
proof -
  define q r where "q = v * 255 div m" and "r = v * 255 mod m"
  have "q * m + r = v * 255" by (simp add: q_def r_def)
  moreover have "r < m" using assms(2) by (simp add: r_def)
  moreover have "r \<le> 128" using \<open>r < m\<close> assms(3) by (auto simp: r_def)
  ultimately have "q * m + 128 = v * 255 + (128 - r)" by simp
  moreover have "128 - r < 255" by simp
  ultimately have "(q * m + 128) div 255 = v" by simp
  then show ?thesis by (simp add: q_def)
qed

lemma downconv_le:
  assumes "1 \<le> b" "b \<le> 8"
  shows "unat (downconv b v) < 2 ^ b"
proof -
  let ?m = "2 ^ b - 1 :: nat"
  have m: "?m < 256" "0 < ?m" using width_cases [OF assms] by auto
  have v: "unat v \<le> 255" using byte_bound [of v] by simp
  have "(unat v * ?m + 128) div 255 \<le> (255 * ?m + 128) div 255"
    using v by (intro div_le_mono add_le_mono mult_le_mono) auto
  also have "\<dots> = ?m" by simp
  finally have le: "(unat v * ?m + 128) div 255 \<le> ?m" .
  then have "unat (downconv b v) = (unat v * ?m + 128) div 255"
    using m(1) by (simp add: downconv_eq [OF assms] unat_of_nat take_bit_nat_eq_self)
  then show ?thesis using le m(2) by simp
qed

lemma down_up:
  assumes "1 \<le> b" "b \<le> 8"
  shows "downconv b (upconv b v) = take_bit b v"
proof -
  let ?m = "2 ^ b - 1 :: nat" and ?v = "unat v mod 2 ^ b"
  have m: "?m \<le> 128 \<or> ?m = 255" "0 < ?m" using width_cases [OF assms] by auto
  have "?v < 2 ^ b" by simp
  then have v: "?v \<le> ?m" by linarith
  have "?v * 255 div ?m \<le> ?m * 255 div ?m" using v by (intro div_le_mono mult_le_mono) auto
  also have "\<dots> = 255" using m(2) by simp
  finally have u: "unat (upconv b v) = ?v * 255 div ?m"
    by (simp add: upconv_eq [OF assms] unat_of_nat take_bit_nat_eq_self)
  have "downconv b (upconv b v) = of_nat ?v"
    unfolding downconv_eq [OF assms] u scale_back [OF v m(2,1)] ..
  also have "\<dots> = of_nat (unat (take_bit b v))"
    unfolding unsigned_take_bit_eq take_bit_eq_mod [of b "unat v"] ..
  also have "\<dots> = take_bit b v" by simp
  finally show ?thesis .
qed

lemma and_succ_zero:
  fixes m :: nat
  assumes "m AND (m + 1) = 0"
  shows "\<exists>n. m + 1 = 2 ^ n"
  using assms
proof (induction m rule: less_induct)
  case (less m)
  show ?case
  proof (cases "even m")
    case True
    then obtain k where k: "m = 2 * k" by blast
    have "m AND (m + 1) = m" by (subst and_rec) (simp add: k)
    with less.prems have "m = 0" by simp
    then show ?thesis by (auto intro: exI [of _ 0])
  next
    case False
    then obtain k where k: "m = 2 * k + 1" by (rule oddE)
    have "m AND (m + 1) = 2 * (k AND (k + 1))"
      by (subst and_rec) (simp add: k)
    with less.prems have "k AND (k + 1) = 0" by simp
    then obtain n where "k + 1 = 2 ^ n" using less.IH [of k] k by auto
    then have "m + 1 = 2 ^ Suc n" by (simp add: k)
    then show ?thesis by blast
  qed
qed

lemma max_cases:
  assumes "m AND (m + 1) = 0" and "m < (256 :: nat)"
  shows "m \<in> {0, 1, 3, 7, 15, 31, 63, 127, 255}"
proof -
  obtain n where n: "m + 1 = 2 ^ n" using and_succ_zero [OF assms(1)] by blast
  have "(2 :: nat) ^ n < 2 ^ 9" using n assms(2) by simp
  then have "n < 9" by (rule power_less_imp_less_exp [rotated]) simp
  then have "n \<in> {0, 1, 2, 3, 4, 5, 6, 7, 8}" by auto
  with n show ?thesis by auto
qed

lemma bits_max:
  "bits 0 = 1" "bits 1 = 1" "bits 3 = 2" "bits 7 = 3" "bits 15 = 4" "bits 31 = 5" "bits 63 = 6" "bits 127 = 7" "bits 255 = 8"
  by (simp_all add: bits_def)
subsection \<open>Well-formed formats\<close>

text \<open>The width of a channel and the values of the format record that belong to it.\<close>

definition channel_ok :: "nat \<Rightarrow> nat \<Rightarrow> nat \<Rightarrow> nat \<Rightarrow> bool" where
  "channel_ok mx sh b width \<longleftrightarrow> 1 \<le> b \<and> b \<le> 8 \<and> b + sh \<le> width \<and> (mx = 2 ^ b - 1 \<or> mx = 0 \<and> b = 1)"

definition format_ok :: "bool \<Rightarrow> pixel_format \<Rightarrow> bool" where
  "format_ok hostBig pf \<longleftrightarrow> isSane pf \<and> updateState hostBig pf = pf"

lemma bits_channel:
  assumes "m AND (m + 1) = 0" and "m < 256"
  shows "1 \<le> bits (of_nat m)" "bits (of_nat m) \<le> 8" "m = 2 ^ bits (of_nat m) - 1 \<or> m = 0 \<and> bits (of_nat m) = 1"
  using max_cases [OF assms] by (auto simp: bits_max)

lemma sane_fields:
  assumes "isSane pf"
  shows "bpp pf \<in> {8, 16, 32}" "depth pf \<le> bpp pf" "trueColour pf \<or> depth pf = 8"
    "redMax pf < 256" "greenMax pf < 256" "blueMax pf < 256"
    "channel_ok (redMax pf) (redShift pf) (bits (of_nat (redMax pf))) (bpp pf)"
    "channel_ok (greenMax pf) (greenShift pf) (bits (of_nat (greenMax pf))) (bpp pf)"
    "channel_ok (blueMax pf) (blueShift pf) (bits (of_nat (blueMax pf))) (bpp pf)"
  using assms bits_channel [of "redMax pf"] bits_channel [of "greenMax pf"] bits_channel [of "blueMax pf"]
  unfolding isSane_def channel_ok_def by (auto split: if_splits)

lemma updated_bits:
  assumes "updateState hostBig pf = pf"
  shows "redBits pf = bits (of_nat (redMax pf))" "greenBits pf = bits (of_nat (greenMax pf))"
    "blueBits pf = bits (of_nat (blueMax pf))" "endianMismatch pf = (hostBig \<noteq> bigEndian pf)"
  by (subst (1) assms [symmetric], simp add: updateState_def Let_def)+

lemma format_channels:
  assumes "format_ok hostBig pf"
  shows "channel_ok (redMax pf) (redShift pf) (redBits pf) (bpp pf)"
    "channel_ok (greenMax pf) (greenShift pf) (greenBits pf) (bpp pf)"
    "channel_ok (blueMax pf) (blueShift pf) (blueBits pf) (bpp pf)"
  using sane_fields(7-9) [of pf] updated_bits [of hostBig pf] assms by (simp_all add: format_ok_def)

lemma isSane_update [simp]: "isSane (updateState hostBig pf) = isSane pf"
  by (simp add: isSane_def updateState_def Let_def)

lemma updateState_idem [simp]: "updateState hostBig (updateState hostBig pf) = updateState hostBig pf"
  by (simp add: updateState_def Let_def)

lemma mk_format_ok: "isSane (mk_format h b d e t rm gm bm rs gs bs) \<Longrightarrow> format_ok h (mk_format h b d e t rm gm bm rs gs bs)"
  by (simp add: format_ok_def mk_format_def)

lemma format_is_mk:
  assumes "format_ok h pf"
  shows "pf = mk_format h (bpp pf) (depth pf) (bigEndian pf) (trueColour pf) (redMax pf) (greenMax pf) (blueMax pf)
    (redShift pf) (greenShift pf) (blueShift pf)"
proof -
  have "pf = updateState h pf" using assms by (simp add: format_ok_def)
  also have "\<dots> = mk_format h (bpp pf) (depth pf) (bigEndian pf) (trueColour pf) (redMax pf) (greenMax pf) (blueMax pf)
    (redShift pf) (greenShift pf) (blueShift pf)"
    by (simp add: updateState_def mk_format_def Let_def)
  finally show ?thesis .
qed

lemma new_format_ok: "new_format h b d e t rm gm bm rs gs bs = Some pf \<Longrightarrow> format_ok h pf"
  by (auto simp: new_format_def Let_def mk_format_ok split: if_splits)

text \<open>
  A format that the protocol can carry: without true colour, the fields a reader puts in
  place of a colour map.
\<close>

definition carried :: "bool \<Rightarrow> pixel_format \<Rightarrow> bool" where
  "carried h pf \<longleftrightarrow> format_ok h pf \<and> (trueColour pf \<or>
     redMax pf = 7 \<and> greenMax pf = 7 \<and> blueMax pf = 3 \<and> redShift pf = 0 \<and> greenShift pf = 3 \<and> blueShift pf = 6)"

lemma small_word: "n < 256 \<Longrightarrow> unat (of_nat n :: byte) = n" "n < 256 \<Longrightarrow> unat (of_nat n :: u16) = n"
  by (simp_all add: unat_of_nat take_bit_nat_eq_self)

lemma write_format_length: "length (write_format pf) = 16"
  by (simp add: write_format_def putU8_def putU16_def pad_def)

lemma read_write_format:
  assumes "carried h pf" and "16 \<le> c"
  shows "read_format h \<lparr>unread = write_format pf @ r, past = p, checkedBytes = c\<rparr> =
    Inr (pf, \<lparr>unread = r, past = map_option (\<lambda>q. q @ write_format pf) p, checkedBytes = c - 16\<rparr>)"
proof -
  have ok: "format_ok h pf" using assms(1) by (simp add: carried_def)
  then have sane: "isSane pf" by (simp add: format_ok_def)
  note f = sane_fields [OF sane]
  have small: "bpp pf < 256" "depth pf < 256" "redShift pf < 256" "greenShift pf < 256" "blueShift pf < 256"
    using f(1,2,7-9) by (auto simp: channel_ok_def)
  have "read_format h \<lparr>unread = write_format pf @ r, past = p, checkedBytes = c\<rparr> = 
    (let pf' = (if \<not> trueColour pf then mk_format h (bpp pf) (depth pf) (bigEndian pf) False 7 7 3 0 3 6
       else mk_format h (bpp pf) (depth pf) (bigEndian pf) True (redMax pf) (greenMax pf) (blueMax pf)
         (redShift pf) (greenShift pf) (blueShift pf))
     in if \<not> isSane pf' then Inl (ProtocolError ''Invalid pixel format'')
        else Inr (pf', \<lparr>unread = r, past = map_option (\<lambda>q. q @ write_format pf) p, checkedBytes = c - 16\<rparr>))"
    using assms(2) f(4-6) small
    by (cases "trueColour pf"; cases "bigEndian pf")
      (simp_all add: read_format_def write_format_def stream_simps result_simps small_word option.map_comp comp_def Let_def)
  also have "\<dots> = Inr (pf, \<lparr>unread = r, past = map_option (\<lambda>q. q @ write_format pf) p, checkedBytes = c - 16\<rparr>)"
    using assms(1) sane format_is_mk [OF ok] by (auto simp: carried_def Let_def)
  finally show ?thesis .
qed

lemma read_write_scheme:
  assumes "carried h pf" and "unread s = write_format pf @ r" and "16 \<le> checkedBytes s"
  shows "read_format h s = Inr (pf, passed (write_format pf) s)"
proof -
  have s: "s = \<lparr>unread = write_format pf @ r, past = past s, checkedBytes = checkedBytes s\<rparr>"
    using assms(2) by (cases s) simp
  show ?thesis
    by (subst s, subst read_write_format [OF assms(1,3)]) (simp add: passed_def assms(2) write_format_length)
qed

interpretation fmt: stream_codec write_format "read_format h" 16 "carried h" for h
  by unfold_locales (simp_all add: write_format_length read_write_scheme)

text \<open>
  C23: A pixel format survives its transport: what \<open>write\<close> sends, \<open>read\<close> turns back
  into the same format, derived fields included, consuming exactly the 16 bytes.
\<close>

theorem pixel_format_round_trip:
  assumes "format_ok hostBig pf" and "trueColour pf"
  shows "read_format hostBig (mem_stream (write_format pf @ rest)) =
    Inr (pf, \<lparr>unread = rest, past = None, checkedBytes = length rest\<rparr>)"
proof -
  have "carried hostBig pf" using assms by (simp add: carried_def)
  then show ?thesis
    using fmt.get_known [of hostBig pf "16 + length rest" rest None]
    by (simp add: mem_stream_def write_format_length)
qed

subsection \<open>Channels\<close>

definition channel :: "nat \<Rightarrow> nat \<Rightarrow> pixel" where
  "channel sh b = push_bit sh (mask b)"

lemma upconv_low:
  assumes "1 \<le> b" "b \<le> 8" "take_bit b v = take_bit b w"
  shows "upconv b v = upconv b w"
proof -
  have "take_bit b (unat v) = take_bit b (unat w)"
    using arg_cong [OF assms(3), of unat] by (simp only: unsigned_take_bit_eq)
  then have "unat v mod 2 ^ b = unat w mod 2 ^ b" by (simp only: take_bit_eq_mod)
  then show ?thesis by (simp add: upconv_eq [OF assms(1,2)])
qed

lemma channel_keep:
  fixes p :: pixel
  assumes "b \<le> 8"
  shows "push_bit sh (ucast (take_bit b (ucast (drop_bit sh p) :: byte))) = p AND channel sh b"
  using assms by (intro bit_word_eqI) (auto simp: channel_def bit_simps)

lemma channel_store:
  fixes q :: pixel and d :: byte
  assumes "unat d < 2 ^ b" and "b \<le> 8" and "b + sh \<le> 32" and "q AND channel sh b = 0"
  shows "take_bit b (ucast (drop_bit sh (push_bit sh (ucast d) OR q)) :: byte) = d"
proof (rule bit_word_eqI)
  fix n assume n: "n < LENGTH(8)"
  have d: "take_bit b d = d" by (rule take_bit_small [OF assms(1)])
  have "bit d n \<Longrightarrow> n < b" using d by (metis bit_take_bit_iff)
  moreover have "n < b \<Longrightarrow> \<not> bit q (sh + n)"
  proof
    assume "n < b" "bit q (sh + n)"
    then have "bit (q AND channel sh b) (sh + n)" using assms(3) by (simp add: channel_def bit_simps)
    then show False by (simp add: assms(4))
  qed
  ultimately show "bit (take_bit b (ucast (drop_bit sh (push_bit sh (ucast d) OR q)) :: byte)) n \<longleftrightarrow> bit d n"
    using assms(2,3) n by (auto simp: bit_simps)
qed

lemma stored_in_channel:
  fixes d :: byte
  assumes "unat d < 2 ^ b" and "channel sh b AND channel sh' b' = 0"
  shows "push_bit sh (ucast d) AND channel sh' b' = (0 :: pixel)"
proof (rule bit_word_eqI)
  fix n assume n: "n < LENGTH(32)"
  have d: "take_bit b d = d" by (rule take_bit_small [OF assms(1)])
  have "\<not> bit (channel sh b AND channel sh' b') n" by (simp add: assms(2))
  moreover have "bit d (n - sh) \<Longrightarrow> n - sh < b" using d by (metis bit_take_bit_iff)
  ultimately show "bit (push_bit sh (ucast d) AND channel sh' b') n \<longleftrightarrow> bit (0 :: pixel) n"
    using n by (auto simp: channel_def bit_simps)
qed

text \<open>Formats all of whose channels carry colour.\<close>

definition coloured :: "bool \<Rightarrow> pixel_format \<Rightarrow> bool" where
  "coloured h pf \<longleftrightarrow> format_ok h pf \<and> redMax pf \<noteq> 0 \<and> greenMax pf \<noteq> 0 \<and> blueMax pf \<noteq> 0"

definition colour_mask :: "pixel_format \<Rightarrow> pixel" where
  "colour_mask pf = channel (redShift pf) (redBits pf) OR channel (greenShift pf) (greenBits pf) OR
     channel (blueShift pf) (blueBits pf)"

lemma max_mask: "(of_nat (2 ^ b - 1) :: pixel) = mask b"
  by (simp add: mask_eq_exp_minus_1 of_nat_diff)

lemma channels_disjoint:
  assumes "coloured h pf"
  shows "channel (redShift pf) (redBits pf) AND channel (greenShift pf) (greenBits pf) = 0"
    "channel (redShift pf) (redBits pf) AND channel (blueShift pf) (blueBits pf) = 0"
    "channel (greenShift pf) (greenBits pf) AND channel (blueShift pf) (blueBits pf) = 0"
proof -
  have ok: "format_ok h pf" using assms by (simp add: coloured_def)
  have m: "redMax pf = 2 ^ redBits pf - 1" "greenMax pf = 2 ^ greenBits pf - 1" "blueMax pf = 2 ^ blueBits pf - 1"
    using format_channels [OF ok] assms by (auto simp: channel_ok_def coloured_def)
  have "isSane pf" using ok by (simp add: format_ok_def)
  then have "push_bit (redShift pf) (of_nat (redMax pf) :: pixel) AND push_bit (greenShift pf) (of_nat (greenMax pf)) = 0"
    "push_bit (redShift pf) (of_nat (redMax pf) :: pixel) AND push_bit (blueShift pf) (of_nat (blueMax pf)) = 0"
    "push_bit (greenShift pf) (of_nat (greenMax pf) :: pixel) AND push_bit (blueShift pf) (of_nat (blueMax pf)) = 0"
    by (auto simp: isSane_def split: if_splits)
  then show "channel (redShift pf) (redBits pf) AND channel (greenShift pf) (greenBits pf) = 0"
    "channel (redShift pf) (redBits pf) AND channel (blueShift pf) (blueBits pf) = 0"
    "channel (greenShift pf) (greenBits pf) AND channel (blueShift pf) (blueBits pf) = 0"
    unfolding m max_mask channel_def by simp_all
qed

lemma and_or_distrib3: "p AND (a OR b OR c) = (p AND a) OR (p AND b) OR (p AND c)" for p :: "'a::len word"
  by (rule bit_word_eqI) (auto simp: bit_simps)

lemma recode_pixel:
  assumes "format_ok h pf"
  shows "pixelFromRGB8 pf (rgbFromPixel8 pf p) = p AND colour_mask pf"
  using format_channels [OF assms]
  by (simp add: pixelFromRGB8_def rgbFromPixel8_def colour_mask_def and_or_distrib3 down_up channel_keep channel_ok_def)

lemma channel_shown:
  fixes q q' :: pixel and d :: byte
  assumes "unat d < 2 ^ b" and "1 \<le> b" and "b \<le> 8" and "b + sh \<le> 32"
    and "q AND channel sh b = 0" and "q' AND channel sh b = 0"
  shows "upconv b (ucast (drop_bit sh (push_bit sh (ucast d) OR (q OR q')))) = upconv b d"
proof (rule upconv_low [OF assms(2,3)])
  have "(q OR q') AND channel sh b = 0" by (simp add: bit.conj_disj_distrib2 assms(5,6))
  from channel_store [OF assms(1,3,4) this]
  show "take_bit b (ucast (drop_bit sh (push_bit sh (ucast d) OR (q OR q'))) :: byte) = take_bit b d"
    by (simp only: take_bit_small [OF assms(1)])
qed

lemma shown_colour:
  assumes "coloured h pf"
  shows "rgbFromPixel8 pf (pixelFromRGB8 pf (r, g, b)) =
    (upconv (redBits pf) (downconv (redBits pf) r), upconv (greenBits pf) (downconv (greenBits pf) g),
     upconv (blueBits pf) (downconv (blueBits pf) b))"
proof -
  have ok: "format_ok h pf" using assms by (simp add: coloured_def)
  have c: "1 \<le> redBits pf" "redBits pf \<le> 8" "redBits pf + redShift pf \<le> 32"
    "1 \<le> greenBits pf" "greenBits pf \<le> 8" "greenBits pf + greenShift pf \<le> 32"
    "1 \<le> blueBits pf" "blueBits pf \<le> 8" "blueBits pf + blueShift pf \<le> 32"
    using format_channels [OF ok] sane_fields(1) [of pf] ok by (auto simp: channel_ok_def format_ok_def)
  define R G B where "R = downconv (redBits pf) r" and "G = downconv (greenBits pf) g" and "B = downconv (blueBits pf) b"
  have lt: "unat R < 2 ^ redBits pf" "unat G < 2 ^ greenBits pf" "unat B < 2 ^ blueBits pf"
    using c by (auto simp: R_def G_def B_def downconv_le)
  let ?r = "push_bit (redShift pf) (ucast R) :: pixel" and ?g = "push_bit (greenShift pf) (ucast G) :: pixel"
    and ?b = "push_bit (blueShift pf) (ucast B) :: pixel"
  note dj = channels_disjoint [OF assms]
  have o: "?g AND channel (redShift pf) (redBits pf) = 0" "?b AND channel (redShift pf) (redBits pf) = 0"
    "?r AND channel (greenShift pf) (greenBits pf) = 0" "?b AND channel (greenShift pf) (greenBits pf) = 0"
    "?r AND channel (blueShift pf) (blueBits pf) = 0" "?g AND channel (blueShift pf) (blueBits pf) = 0"
    using dj by (auto intro!: stored_in_channel lt simp: and.commute)
  have p: "pixelFromRGB8 pf (r, g, b) = ?r OR (?g OR ?b)"
    "pixelFromRGB8 pf (r, g, b) = ?g OR (?r OR ?b)" "pixelFromRGB8 pf (r, g, b) = ?b OR (?r OR ?g)"
    by (simp_all add: pixelFromRGB8_def R_def G_def B_def or.assoc or.commute or.left_commute)
  have "upconv (redBits pf) (ucast (drop_bit (redShift pf) (pixelFromRGB8 pf (r, g, b)))) = upconv (redBits pf) R"
    unfolding p(1) by (rule channel_shown [OF lt(1) c(1-3) o(1,2)])
  moreover have "upconv (greenBits pf) (ucast (drop_bit (greenShift pf) (pixelFromRGB8 pf (r, g, b)))) = upconv (greenBits pf) G"
    unfolding p(2) by (rule channel_shown [OF lt(2) c(4-6) o(3,4)])
  moreover have "upconv (blueBits pf) (ucast (drop_bit (blueShift pf) (pixelFromRGB8 pf (r, g, b)))) = upconv (blueBits pf) B"
    unfolding p(3) by (rule channel_shown [OF lt(3) c(7-9) o(5,6)])
  ultimately show ?thesis by (simp add: rgbFromPixel8_def R_def G_def B_def)
qed

subsection \<open>Pixels in memory\<close>

definition bytesPerPixel :: "pixel_format \<Rightarrow> nat" where
  "bytesPerPixel pf = bpp pf div 8"

lemma list4: "length xs = 4 \<Longrightarrow> xs = [xs ! 0, xs ! 1, xs ! 2, xs ! 3]"
  by (auto intro!: nth_equalityI simp: less_Suc_eq numeral_eq_Suc)

lemma list2: "length xs = 2 \<Longrightarrow> xs = [xs ! 0, xs ! 1]"
  by (auto intro!: nth_equalityI simp: less_Suc_eq numeral_eq_Suc)

lemma list1: "length xs = 1 \<Longrightarrow> xs = [xs ! 0]"
  by (auto intro!: nth_equalityI)

lemma word_bytes:
  fixes a b c d :: byte
  defines "w \<equiv> push_bit 24 (ucast a) OR push_bit 16 (ucast b) OR push_bit 8 (ucast c) OR ucast d :: u32"
  shows "ucast (drop_bit 24 w) = a" "ucast (drop_bit 16 w) = b" "ucast (drop_bit 8 w) = c" "ucast w = d"
  unfolding w_def by (rule bit_word_eqI; auto simp: bit_simps dest: bit_imp_le_length)+

lemma bufferFromPixel_length: "isSane pf \<Longrightarrow> length (bufferFromPixel pf p) = bytesPerPixel pf"
  using sane_fields(1) [of pf] by (auto simp: bufferFromPixel_def bytesPerPixel_def)

lemma le_bytes:
  fixes a b c d :: byte
  shows "ucast a OR (push_bit 8 (ucast b) OR (push_bit 16 (ucast c) OR push_bit 24 (ucast d))) =
    (push_bit 24 (ucast d) OR push_bit 16 (ucast c) OR push_bit 8 (ucast b) OR ucast a :: u32)"
  by (simp add: or.assoc or.commute or.left_commute)

lemma half_bytes:
  fixes a b :: byte
  defines "w \<equiv> push_bit 8 (ucast a) OR ucast b :: u32"
  shows "ucast (drop_bit 8 w) = a" "ucast w = b"
  unfolding w_def by (rule bit_word_eqI; auto simp: bit_simps dest: bit_imp_le_length)+

lemma buffer_pixel:
  assumes "isSane pf" and "length buf = bytesPerPixel pf"
  shows "bufferFromPixel pf (pixelFromBuffer pf buf) = buf"
proof -
  from sane_fields(1) [OF assms(1)] consider "bpp pf = 8" | "bpp pf = 16" | "bpp pf = 32" by auto
  then show ?thesis
  proof cases
    case 1
    then have b: "[buf ! 0] = buf" using assms(2) list1 [of buf] by (simp add: bytesPerPixel_def)
    have "ucast (ucast (buf ! 0) :: pixel) = buf ! 0" by (rule bit_word_eqI) (auto simp: bit_simps)
    then show ?thesis using 1 by (simp add: bufferFromPixel_def pixelFromBuffer_def b)
  next
    case 2
    then have b: "[buf ! 0, buf ! Suc 0] = buf" using assms(2) list2 [of buf] by (simp add: bytesPerPixel_def)
    show ?thesis using 2
      by (simp add: bufferFromPixel_def pixelFromBuffer_def half_bytes or.commute [of "ucast _"] b del: drop_bit_or)
  next
    case 3
    then have b: "[buf ! 0, buf ! Suc 0, buf ! 2, buf ! 3] = buf" using assms(2) list4 [of buf] by (simp add: bytesPerPixel_def)
    show ?thesis using 3
      by (simp add: bufferFromPixel_def pixelFromBuffer_def le_bytes word_bytes b del: drop_bit_or)
  qed
qed

lemma pixel_buffer:
  assumes "isSane pf"
  shows "pixelFromBuffer pf (bufferFromPixel pf p) = take_bit (bpp pf) p"
proof -
  have w: "push_bit 24 (ucast (ucast (drop_bit 24 p) :: byte)) OR push_bit 16 (ucast (ucast (drop_bit 16 p) :: byte)) OR
     push_bit 8 (ucast (ucast (drop_bit 8 p) :: byte)) OR ucast (ucast p :: byte) = p" by (rule u32_bytes)
  have h: "push_bit 8 (ucast (ucast (drop_bit 8 p) :: byte)) OR ucast (ucast p :: byte) = take_bit 16 p"
    by (rule bit_word_eqI) (auto simp: bit_simps)
  have q: "ucast (ucast p :: byte) = take_bit 8 p" by (rule bit_word_eqI) (auto simp: bit_simps)
  from sane_fields(1) [OF assms] consider "bpp pf = 8" | "bpp pf = 16" | "bpp pf = 32" by auto
  then show ?thesis
  proof cases
    case 1
    then show ?thesis by (simp add: pixelFromBuffer_def bufferFromPixel_def q)
  next
    case 2
    then show ?thesis by (simp add: pixelFromBuffer_def bufferFromPixel_def h or.commute [of "ucast _"])
  next
    case 3
    then show ?thesis by (simp add: pixelFromBuffer_def bufferFromPixel_def le_bytes w take_bit_word_eq_self)
  qed
qed

subsection \<open>Descriptions\<close>

text \<open>
  \<open>print\<close> builds its text with \<open>strncat\<close>, which appends at most the room left in
  the buffer of \<open>len\<close> characters, terminator included.
\<close>

definition strncat :: "nat \<Rightarrow> string \<Rightarrow> string \<Rightarrow> string" where
  "strncat len x str = str @ take (len - 1 - length str) x"

definition rgb_order :: "pixel_format \<Rightarrow> bool" where
  "rgb_order pf \<longleftrightarrow> blueShift pf = 0 \<and> greenShift pf > blueShift pf \<and> redShift pf > greenShift pf \<and>
     blueMax pf = 2 ^ greenShift pf - 1 \<and>
     greenMax pf = 2 ^ (redShift pf - greenShift pf) - 1 \<and>
     redMax pf = 2 ^ (depth pf - redShift pf) - 1"

definition bgr_order :: "pixel_format \<Rightarrow> bool" where
  "bgr_order pf \<longleftrightarrow> redShift pf = 0 \<and> greenShift pf > redShift pf \<and> blueShift pf > greenShift pf \<and>
     redMax pf = 2 ^ greenShift pf - 1 \<and>
     greenMax pf = 2 ^ (blueShift pf - greenShift pf) - 1 \<and>
     blueMax pf = 2 ^ (depth pf - blueShift pf) - 1"

definition print_pieces :: "pixel_format \<Rightarrow> string list" where
  "print_pieces pf =
     [''depth '', to_string (depth pf), '' ('', to_string (bpp pf), ''bpp)''] @
     (if bpp pf \<noteq> 8 then [if bigEndian pf then '' big-endian'' else '' little-endian''] else []) @
     (if \<not> trueColour pf then ['' color-map'']
      else if rgb_order pf then
        ['' rgb'', to_string (depth pf - redShift pf), to_string (redShift pf - greenShift pf), to_string (greenShift pf)]
      else if bgr_order pf then
        ['' bgr'', to_string (depth pf - blueShift pf), to_string (blueShift pf - greenShift pf), to_string (greenShift pf)]
      else
        ['' rgb max '', to_string (redMax pf) @ '','', to_string (greenMax pf) @ '','', to_string (blueMax pf),
         '' shift '', to_string (redShift pf) @ '','', to_string (greenShift pf) @ '','', to_string (blueShift pf)])"

definition print :: "pixel_format \<Rightarrow> nat \<Rightarrow> string option" where
  "print pf len = (if len < 1 then None else Some (foldl (\<lambda>str x. strncat len x str) [] (print_pieces pf)))"

text \<open>
  \<open>sscanf(str, "%3s%1d%1d%1d", ...)\<close>: a word of at most three characters, then three
  single digits, blanks allowed before each; it converts fewer when the text does not match.
\<close>

definition blank :: "char \<Rightarrow> bool" where
  "blank c \<longleftrightarrow> c \<in> {CHR '' '', CHR 0x09, CHR 0x0A, CHR 0x0B, CHR 0x0C, CHR 0x0D}"

fun scan_digit :: "string \<Rightarrow> (nat \<times> string) option" where
  "scan_digit s =
     (case dropWhile blank s of
        [] \<Rightarrow> None
      | c # r \<Rightarrow> if is_digit c then Some (digit_val c, r) else None)"

definition scan_format :: "string \<Rightarrow> (string \<times> nat \<times> nat \<times> nat) option" where
  "scan_format s =
     (let t = dropWhile blank s; w = takeWhile (\<lambda>c. \<not> blank c) (take 3 t) in
      if w = [] then None
      else case scan_digit (drop (length w) t) of
        None \<Rightarrow> None
      | Some (b1, s) \<Rightarrow> (case scan_digit s of
          None \<Rightarrow> None
        | Some (b2, s) \<Rightarrow> (case scan_digit s of
            None \<Rightarrow> None
          | Some (b3, s) \<Rightarrow> Some (w, b1, b2, b3))))"

definition lower_char :: "char \<Rightarrow> char" where
  "lower_char c = (if 65 \<le> (of_char c :: nat) \<and> (of_char c :: nat) \<le> 90 then char_of (of_char c + (32 :: nat)) else c)"

definition strcasecmp_eq :: "string \<Rightarrow> string \<Rightarrow> bool" where
  "strcasecmp_eq a b \<longleftrightarrow> map lower_char a = map lower_char b"

text \<open>The format \<open>parse\<close> leaves behind when it succeeds; the assertion is its sanity check.\<close>

definition parse_format :: "bool \<Rightarrow> string \<Rightarrow> pixel_format option" where
  "parse_format hostBig str =
     (case scan_format str of
        None \<Rightarrow> None
      | Some (w, bits1, bits2, bits3) \<Rightarrow>
          (let d = bits1 + bits2 + bits3; b = (if d \<le> 8 then 8 else if d \<le> 16 then 16 else 32) in
           if strcasecmp_eq w ''bgr'' then
             Some (mk_format hostBig b d hostBig True (2 ^ bits3 - 1) (2 ^ bits2 - 1) (2 ^ bits1 - 1)
               0 bits3 (bits3 + bits2))
           else if strcasecmp_eq w ''rgb'' then
             Some (mk_format hostBig b d hostBig True (2 ^ bits1 - 1) (2 ^ bits2 - 1) (2 ^ bits3 - 1)
               (bits3 + bits2) bits3 0)
           else None))"

lemma strncat_fold:
  "length s \<le> len - 1 \<Longrightarrow> foldl (\<lambda>str x. strncat len x str) s xs = take (len - 1) (s @ concat xs)"
proof (induction xs arbitrary: s)
  case Nil
  then show ?case by simp
next
  case (Cons x xs)
  have "length (strncat len x s) \<le> len - 1" using Cons.prems by (simp add: strncat_def)
  from Cons.IH [OF this] show ?case using Cons.prems
    by (cases "length x \<le> len - 1 - length s") (auto simp: strncat_def min_def)
qed

lemma print_truncates: "print pf len = Some str \<Longrightarrow> length str < len \<and> str = take (len - 1) (concat (print_pieces pf))"
proof -
  assume p: "print pf len = Some str"
  then have "str = take (len - 1) (concat (print_pieces pf))" "0 < len"
    using strncat_fold [of "[]" len "print_pieces pf"] by (simp_all add: print_def split: if_splits)
  then show ?thesis by simp
qed
lemma width_max:
  assumes "1 \<le> b" "b \<le> 8"
  shows "(2 ^ b - 1 :: nat) AND (2 ^ b - 1 + 1) = 0" "bits (of_nat (2 ^ b - 1)) = b" "\<not> (256 :: nat) \<le> 2 ^ b - 1"
  using width_cases [OF assms] by (auto simp: bits_max)

lemma stacked_channels: "m + k \<le> n \<Longrightarrow> push_bit m (mask k) AND push_bit n (mask l) = (0 :: u32)"
  by (rule bit_word_eqI) (auto simp: bit_simps)

lemma sane_stack:
  assumes "1 \<le> b1" "b1 \<le> 8" "1 \<le> b2" "b2 \<le> 8" "1 \<le> b3" "b3 \<le> 8"
    and "d = b1 + b2 + b3" and "b = (if d \<le> 8 then 8 else if d \<le> 16 then 16 else 32)"
  shows "isSane (mk_format h b d e True (2 ^ b1 - 1) (2 ^ b2 - 1) (2 ^ b3 - 1) (b3 + b2) b3 0)"
    "isSane (mk_format h b d e True (2 ^ b3 - 1) (2 ^ b2 - 1) (2 ^ b1 - 1) 0 b3 (b3 + b2))"
proof -
  note w = width_max [OF assms(1,2)] width_max [OF assms(3,4)] width_max [OF assms(5,6)]
  have z: "push_bit (b3 + b2) (mask b1) AND push_bit b3 (mask b2) = (0 :: u32)"
    "push_bit (b3 + b2) (mask b1) AND push_bit 0 (mask b3) = (0 :: u32)"
    "push_bit b3 (mask b2) AND push_bit 0 (mask b3) = (0 :: u32)"
    using stacked_channels [of b3 b2 "b3 + b2" b1] stacked_channels [of 0 b3 "b3 + b2" b1] stacked_channels [of 0 b3 b3 b2]
    by (simp_all add: and.commute)
  have d: "d \<le> b" "b = 8 \<or> b = 16 \<or> b = 32" using assms by auto
  have f: "b1 + (b3 + b2) \<le> b" "b2 + b3 \<le> b" "b3 + 0 \<le> b" using d(1) assms(7) by auto
  have "isSane \<lparr>bpp = b, depth = d, trueColour = True, bigEndian = e, redMax = 2 ^ b1 - 1, greenMax = 2 ^ b2 - 1, blueMax = 2 ^ b3 - 1,
       redShift = b3 + b2, greenShift = b3, blueShift = 0, redBits = 0, greenBits = 0, blueBits = 0,
       maxBits = 0, minBits = 0, endianMismatch = False\<rparr>"
    using d f assms(7) unfolding isSane_def
    by (simp only: pixel_format.simps w max_mask z) auto
  moreover have "isSane \<lparr>bpp = b, depth = d, trueColour = True, bigEndian = e, redMax = 2 ^ b3 - 1, greenMax = 2 ^ b2 - 1, blueMax = 2 ^ b1 - 1,
       redShift = 0, greenShift = b3, blueShift = b3 + b2, redBits = 0, greenBits = 0, blueBits = 0,
       maxBits = 0, minBits = 0, endianMismatch = False\<rparr>"
    using d f assms(7) z unfolding isSane_def
    by (simp only: pixel_format.simps w max_mask) (auto simp: and.commute)
  ultimately show "isSane (mk_format h b d e True (2 ^ b1 - 1) (2 ^ b2 - 1) (2 ^ b3 - 1) (b3 + b2) b3 0)"
    "isSane (mk_format h b d e True (2 ^ b3 - 1) (2 ^ b2 - 1) (2 ^ b1 - 1) 0 b3 (b3 + b2))"
    by (simp_all add: mk_format_def)
qed

lemma parse_format_ok:
  assumes "scan_format str = Some (w, b1, b2, b3)" and "{b1, b2, b3} \<subseteq> {1..8}" and "parse_format h str = Some pf"
  shows "format_ok h pf"
  using assms sane_stack [of b1 b2 b3, OF _ _ _ _ _ _ refl refl]
  by (auto simp: parse_format_def Let_def split: if_splits intro!: mk_format_ok)

end
