(* ===== verification/Pixel_Convert.thy ===== *)
theory Pixel_Convert
  imports Pixel_Format
begin

text \<open>
  The conversions of whole rectangles in \<open>PixelFormat.cxx\<close>: RGB to and from a buffer,
  and \<open>bufferFromBuffer\<close> with its trivial copy, its byte shuffling, its template
  functions for a 32-bit source or destination, and its generic loop. The lemmas show that
  all of them put the same colours on the screen, pixel by pixel.
\<close>

subsection \<open>Conversion loops\<close>

text \<open>
  The loops over a rectangle: \<open>h\<close> rows of \<open>w\<close> pixels, each pixel replaced by the
  body of the loop, with padding between the rows. Source and destination are separate
  buffers; an access outside of one is \<open>None\<close>.
\<close>

definition put_at :: "byte list \<Rightarrow> nat \<Rightarrow> byte list \<Rightarrow> byte list" where
  "put_at buf i bs = take i buf @ bs @ drop (i + length bs) buf"

definition px :: "nat \<Rightarrow> nat \<Rightarrow> byte list \<Rightarrow> byte list" where
  "px n i buf = take n (drop i buf)"

fun blit_row :: "(byte list \<Rightarrow> byte list \<Rightarrow> byte list) \<Rightarrow> nat \<Rightarrow> nat \<Rightarrow> byte list \<Rightarrow> nat \<Rightarrow>
    byte list \<times> nat \<times> nat \<Rightarrow> (byte list \<times> nat \<times> nat) option" where
  "blit_row body db sb src 0 st = Some st"
| "blit_row body db sb src (Suc w) (dst, d, s) =
     (if d + db \<le> length dst \<and> s + sb \<le> length src then
        blit_row body db sb src w (put_at dst d (body (px db d dst) (px sb s src)), d + db, s + sb)
      else None)"

fun blit :: "(byte list \<Rightarrow> byte list \<Rightarrow> byte list) \<Rightarrow> nat \<Rightarrow> nat \<Rightarrow> nat \<Rightarrow> nat \<Rightarrow> byte list \<Rightarrow> nat \<Rightarrow> nat \<Rightarrow>
    byte list \<times> nat \<times> nat \<Rightarrow> byte list option" where
  "blit body db sb dpad spad src w 0 (dst, d, s) = Some dst"
| "blit body db sb dpad spad src w (Suc h) st =
     (case blit_row body db sb src w st of
        None \<Rightarrow> None
      | Some (dst, d, s) \<Rightarrow> blit body db sb dpad spad src w h (dst, d + dpad, s + spad))"

text \<open>The byte of a 32-bit pixel that holds the channel with a given shift.\<close>

definition byte_of :: "pixel_format \<Rightarrow> nat \<Rightarrow> nat" where
  "byte_of pf sh = (if bigEndian pf then (24 - sh) div 8 else sh div 8)"

definition unused_shift :: "pixel_format \<Rightarrow> nat" where
  "unused_shift pf = 48 - redShift pf - greenShift pf - blueShift pf"

text \<open>Storing a colour byte by byte in a 32-bit pixel, as the loops for such formats do.\<close>

definition put888 :: "pixel_format \<Rightarrow> byte list \<Rightarrow> byte \<times> byte \<times> byte \<Rightarrow> byte list" where
  "put888 pf old = (\<lambda>(r, g, b).
     old[byte_of pf (redShift pf) := r, byte_of pf (greenShift pf) := g,
         byte_of pf (blueShift pf) := b, byte_of pf (unused_shift pf) := 0])"

definition get888 :: "pixel_format \<Rightarrow> byte list \<Rightarrow> byte \<times> byte \<times> byte" where
  "get888 pf s = (s ! byte_of pf (redShift pf), s ! byte_of pf (greenShift pf), s ! byte_of pf (blueShift pf))"

definition rgb_triple :: "byte list \<Rightarrow> byte \<times> byte \<times> byte" where
  "rgb_triple s = (s ! 0, s ! 1, s ! 2)"

definition triple_bytes :: "byte \<times> byte \<times> byte \<Rightarrow> byte list" where
  "triple_bytes = (\<lambda>(r, g, b). [r, g, b])"

definition bufferFromRGB :: "pixel_format \<Rightarrow> byte list \<Rightarrow> byte list \<Rightarrow> nat \<Rightarrow> nat \<Rightarrow> nat \<Rightarrow> byte list option" where
  "bufferFromRGB pf dst src w stride h =
     (if is888 pf then
        blit (\<lambda>old s. put888 pf old (rgb_triple s)) 4 3 ((stride - w) * 4) 0 src w h (dst, 0, 0)
      else
        blit (\<lambda>old s. bufferFromPixel pf (pixelFromRGB8 pf (rgb_triple s))) (bytesPerPixel pf) 3
          ((stride - w) * bpp pf div 8) 0 src w h (dst, 0, 0))"

definition rgbFromBuffer :: "pixel_format \<Rightarrow> byte list \<Rightarrow> byte list \<Rightarrow> nat \<Rightarrow> nat \<Rightarrow> nat \<Rightarrow> byte list option" where
  "rgbFromBuffer pf dst src w stride h =
     (if is888 pf then
        blit (\<lambda>old s. triple_bytes (get888 pf s)) 3 4 0 ((stride - w) * 4) src w h (dst, 0, 0)
      else
        blit (\<lambda>old s. triple_bytes (rgbFromPixel8 pf (pixelFromBuffer pf s))) 3 (bytesPerPixel pf)
          0 ((stride - w) * bpp pf div 8) src w h (dst, 0, 0))"

text \<open>\<open>swap\<close> on the three pixel types.\<close>

definition swap16 :: "u16 \<Rightarrow> u16" where
  "swap16 n = push_bit 8 (n AND 0xff) OR (drop_bit 8 n AND 0xff)"

definition swap32 :: "u32 \<Rightarrow> u32" where
  "swap32 n = drop_bit 24 n OR drop_bit 8 (n AND 0x00ff0000) OR push_bit 8 (n AND 0x0000ff00) OR push_bit 24 n"

text \<open>
  Stores and loads of \<open>uint8_t\<close>, \<open>uint16_t\<close> and \<open>uint32_t\<close> in the host's byte
  order, with the swap of the template functions.
\<close>

definition store_native :: "bool \<Rightarrow> nat \<Rightarrow> bool \<Rightarrow> u32 \<Rightarrow> byte list" where
  "store_native hostBig width mismatch d =
     (if width = 8 then [ucast d]
      else if width = 16 then
        (let t = (ucast d :: u16); t = (if mismatch then swap16 t else t)
         in if hostBig then [ucast (drop_bit 8 t), ucast t] else [ucast t, ucast (drop_bit 8 t)])
      else
        (let t = (if mismatch then swap32 d else d)
         in if hostBig then [ucast (drop_bit 24 t), ucast (drop_bit 16 t), ucast (drop_bit 8 t), ucast t]
            else [ucast t, ucast (drop_bit 8 t), ucast (drop_bit 16 t), ucast (drop_bit 24 t)]))"

definition load_native :: "bool \<Rightarrow> nat \<Rightarrow> bool \<Rightarrow> byte list \<Rightarrow> u32" where
  "load_native hostBig width mismatch s =
     (if width = 8 then ucast (s ! 0)
      else if width = 16 then
        (let t = (if hostBig then push_bit 8 (ucast (s ! 0)) OR ucast (s ! 1)
                  else push_bit 8 (ucast (s ! 1)) OR ucast (s ! 0) :: u16)
         in ucast (if mismatch then swap16 t else t))
      else
        (let t = (if hostBig then push_bit 24 (ucast (s ! 0)) OR push_bit 16 (ucast (s ! 1)) OR push_bit 8 (ucast (s ! 2)) OR ucast (s ! 3)
                  else push_bit 24 (ucast (s ! 3)) OR push_bit 16 (ucast (s ! 2)) OR push_bit 8 (ucast (s ! 1)) OR ucast (s ! 0))
         in if mismatch then swap32 t else t))"

definition from888_body :: "bool \<Rightarrow> pixel_format \<Rightarrow> pixel_format \<Rightarrow> byte list \<Rightarrow> byte list \<Rightarrow> byte list" where
  "from888_body hostBig pf srcPF old s =
     (case get888 srcPF s of (r, g, b) \<Rightarrow>
        store_native hostBig (bpp pf) (endianMismatch pf)
          (push_bit (redShift pf) (ucast (downconv (redBits pf) r)) OR
           push_bit (greenShift pf) (ucast (downconv (greenBits pf) g)) OR
           push_bit (blueShift pf) (ucast (downconv (blueBits pf) b))))"

definition to888_body :: "bool \<Rightarrow> pixel_format \<Rightarrow> pixel_format \<Rightarrow> byte list \<Rightarrow> byte list \<Rightarrow> byte list" where
  "to888_body hostBig pf srcPF old s =
     (let v = load_native hostBig (bpp srcPF) (endianMismatch srcPF) s
      in put888 pf old
           (upconv (redBits srcPF) (ucast (drop_bit (redShift srcPF) v AND 0xff)),
            upconv (greenBits srcPF) (ucast (drop_bit (greenShift srcPF) v AND 0xff)),
            upconv (blueBits srcPF) (ucast (drop_bit (blueShift srcPF) v AND 0xff))))"

text \<open>
  Byte shuffling between two such formats: \<open>d\<close> tells, for each byte of a source pixel,
  which byte of the destination pixel it goes to.
\<close>

definition shuffle_targets :: "pixel_format \<Rightarrow> pixel_format \<Rightarrow> nat list" where
  "shuffle_targets pf srcPF =
     (replicate 4 0)[byte_of srcPF (redShift srcPF) := byte_of pf (redShift pf),
       byte_of srcPF (greenShift srcPF) := byte_of pf (greenShift pf),
       byte_of srcPF (blueShift srcPF) := byte_of pf (blueShift pf),
       byte_of srcPF (unused_shift srcPF) := byte_of pf (unused_shift pf)]"

definition shuffle_body :: "pixel_format \<Rightarrow> pixel_format \<Rightarrow> byte list \<Rightarrow> byte list \<Rightarrow> byte list" where
  "shuffle_body pf srcPF old s =
     (let d = shuffle_targets pf srcPF in old[d ! 0 := s ! 0, d ! 1 := s ! 1, d ! 2 := s ! 2, d ! 3 := s ! 3])"

definition generic_body :: "pixel_format \<Rightarrow> pixel_format \<Rightarrow> byte list \<Rightarrow> byte list \<Rightarrow> byte list" where
  "generic_body pf srcPF old s = bufferFromPixel pf (pixelFromRGB8 pf (rgbFromPixel8 srcPF (pixelFromBuffer srcPF s)))"

definition bufferFromBuffer :: "bool \<Rightarrow> pixel_format \<Rightarrow> byte list \<Rightarrow> pixel_format \<Rightarrow> byte list \<Rightarrow> bool \<Rightarrow> bool \<Rightarrow>
    nat \<Rightarrow> nat \<Rightarrow> nat \<Rightarrow> nat \<Rightarrow> byte list option" where
  "bufferFromBuffer hostBig pf dst srcPF src dstAligned srcAligned w h dstStride srcStride =
     (if format_eq pf srcPF then
        blit (\<lambda>old s. s) (w * bpp pf div 8) (w * bpp pf div 8)
          (dstStride * bpp pf div 8 - w * bpp pf div 8) (srcStride * bpp srcPF div 8 - w * bpp pf div 8) src 1 h (dst, 0, 0)
      else if is888 pf \<and> is888 srcPF then
        blit (shuffle_body pf srcPF) 4 4 ((dstStride - w) * 4) ((srcStride - w) * 4) src w h (dst, 0, 0)
      else if dstAligned \<and> is888 srcPF then
        blit (from888_body hostBig pf srcPF) (bytesPerPixel pf) 4
          ((dstStride - w) * bytesPerPixel pf) ((srcStride - w) * 4) src w h (dst, 0, 0)
      else if srcAligned \<and> is888 pf then
        blit (to888_body hostBig pf srcPF) 4 (bytesPerPixel srcPF)
          ((dstStride - w) * 4) ((srcStride - w) * bytesPerPixel srcPF) src w h (dst, 0, 0)
      else
        blit (generic_body pf srcPF) (bytesPerPixel pf) (bytesPerPixel srcPF)
          ((dstStride - w) * bpp pf div 8) ((srcStride - w) * bpp srcPF div 8) src w h (dst, 0, 0))"

subsection \<open>Loops convert every pixel\<close>

lemma px_length: "i + n \<le> length buf \<Longrightarrow> length (px n i buf) = n"
  by (simp add: px_def)

lemma put_at_length: "i + length bs \<le> length buf \<Longrightarrow> length (put_at buf i bs) = length buf"
  by (simp add: put_at_def)

lemma px_put_at:
  assumes "i + length bs \<le> length buf"
  shows "px (length bs) i (put_at buf i bs) = bs"
    and "j + n \<le> i \<Longrightarrow> px n j (put_at buf i bs) = px n j buf"
    and "i + length bs \<le> j \<Longrightarrow> px n j (put_at buf i bs) = px n j buf"
proof -
  show "px (length bs) i (put_at buf i bs) = bs" using assms by (simp add: px_def put_at_def)
  show "px n j (put_at buf i bs) = px n j buf" if "j + n \<le> i"
  proof -
    have "take n (drop j (take i buf)) = take n (drop j buf)" using that by (simp add: take_drop min_absorb1 add.commute)
    moreover have "n \<le> length (drop j (take i buf))" using assms that by simp
    ultimately show ?thesis by (simp add: px_def put_at_def)
  qed
  show "px n j (put_at buf i bs) = px n j buf" if "i + length bs \<le> j"
    using assms that by (simp add: px_def put_at_def add.commute)
qed

lemma blit_row_ok:
  assumes "d + w * db \<le> length dst" and "s + w * sb \<le> length src"
    and body: "\<And>old v. length old = db \<Longrightarrow> length v = sb \<Longrightarrow> length (body old v) = db"
  shows "\<exists>dst'. blit_row body db sb src w (dst, d, s) = Some (dst', d + w * db, s + w * sb) \<and>
    length dst' = length dst \<and> (\<forall>n j. j + n \<le> d \<or> d + w * db \<le> j \<longrightarrow> px n j dst' = px n j dst) \<and>
    (\<forall>x<w. px db (d + x * db) dst' = body (px db (d + x * db) dst) (px sb (s + x * sb) src))"
  using assms(1,2)
proof (induction w arbitrary: dst d s)
  case 0
  then show ?case by simp
next
  case (Suc w)
  let ?bs = "body (px db d dst) (px sb s src)" and ?dst1 = "put_at dst d (body (px db d dst) (px sb s src))"
  have fit: "d + db \<le> length dst" "s + sb \<le> length src" using Suc.prems by auto
  have len: "length ?bs = db" using fit by (intro body px_length)
  have b1: "d + length ?bs \<le> length dst" using fit len by simp
  note p1 = px_put_at [OF b1, unfolded len]
  have l1: "length ?dst1 = length dst" by (rule put_at_length [OF b1])
  have "d + db + w * db \<le> length ?dst1" "s + sb + w * sb \<le> length src"
    using Suc.prems by (simp_all add: l1 add.assoc)
  from Suc.IH [OF this] obtain dst' where r: "blit_row body db sb src w (?dst1, d + db, s + sb) = Some (dst', d + db + w * db, s + sb + w * sb)"
    "length dst' = length ?dst1" "\<And>n j. j + n \<le> d + db \<or> d + db + w * db \<le> j \<Longrightarrow> px n j dst' = px n j ?dst1"
    "\<And>x. x < w \<Longrightarrow> px db (d + db + x * db) dst' = body (px db (d + db + x * db) ?dst1) (px sb (s + sb + x * sb) src)"
    by blast
  have "blit_row body db sb src (Suc w) (dst, d, s) = Some (dst', d + Suc w * db, s + Suc w * sb)"
    using r(1) fit by (simp add: add.assoc)
  moreover have "px n j dst' = px n j dst" if "j + n \<le> d \<or> d + Suc w * db \<le> j" for n j
    using that p1(2) [of j n] p1(3) [of j n] r(3) [of j n] by (auto simp: algebra_simps)
  moreover have "px db (d + x * db) dst' = body (px db (d + x * db) dst) (px sb (s + x * sb) src)" if "x < Suc w" for x
  proof (cases x)
    case 0
    then show ?thesis using r(3) [of d db] p1(1) by simp
  next
    case (Suc y)
    have "px db (d + db + y * db) ?dst1 = px db (d + db + y * db) dst" by (rule p1(3)) simp
    then show ?thesis using r(4) [of y] that Suc by (simp add: algebra_simps)
  qed
  ultimately show ?case using r(2) l1 by auto
qed

text \<open>
  A rectangle of \<open>h\<close> rows of \<open>w\<close> pixels of \<open>n\<close> bytes, the rows \<open>pitch\<close>
  bytes apart, lies within a buffer.
\<close>

definition fits :: "nat \<Rightarrow> nat \<Rightarrow> nat \<Rightarrow> nat \<Rightarrow> nat \<Rightarrow> byte list \<Rightarrow> bool" where
  "fits i n pitch w h buf \<longleftrightarrow> w * n \<le> pitch \<and> (0 < h \<longrightarrow> i + (h - 1) * pitch + w * n \<le> length buf)"

lemma blit_ok:
  assumes "fits d db dp w h dst" and "fits s sb sp w h src"
    and body: "\<And>old v. length old = db \<Longrightarrow> length v = sb \<Longrightarrow> length (body old v) = db"
  shows "\<exists>dst'. blit body db sb (dp - w * db) (sp - w * sb) src w h (dst, d, s) = Some dst' \<and>
    length dst' = length dst \<and> (\<forall>n j. j + n \<le> d \<longrightarrow> px n j dst' = px n j dst) \<and>
    (\<forall>y<h. \<forall>x<w. px db (d + y * dp + x * db) dst' =
      body (px db (d + y * dp + x * db) dst) (px sb (s + y * sp + x * sb) src))"
  using assms(1,2)
proof (induction h arbitrary: dst d s)
  case 0
  then show ?case by simp
next
  case (Suc h)
  have le: "w * db \<le> dp" "w * sb \<le> sp" using Suc.prems by (auto simp: fits_def)
  have "d + w * db \<le> length dst" "s + w * sb \<le> length src"
    using Suc.prems by (auto simp: fits_def algebra_simps)
  from blit_row_ok [where body = body, OF this body] obtain dst1 where r:
    "blit_row body db sb src w (dst, d, s) = Some (dst1, d + w * db, s + w * sb)" "length dst1 = length dst"
    "\<And>n j. j + n \<le> d \<or> d + w * db \<le> j \<Longrightarrow> px n j dst1 = px n j dst"
    "\<And>x. x < w \<Longrightarrow> px db (d + x * db) dst1 = body (px db (d + x * db) dst) (px sb (s + x * sb) src)"
    by blast
  have d1: "d + w * db + (dp - w * db) = d + dp" "s + w * sb + (sp - w * sb) = s + sp" using le by simp_all
  have "fits (d + dp) db dp w h dst1" "fits (s + sp) sb sp w h src"
    using Suc.prems r(2) by (cases h; auto simp: fits_def algebra_simps)+
  from Suc.IH [OF this] obtain dst' where b:
    "blit body db sb (dp - w * db) (sp - w * sb) src w h (dst1, d + dp, s + sp) = Some dst'"
    "length dst' = length dst1" "\<And>n j. j + n \<le> d + dp \<Longrightarrow> px n j dst' = px n j dst1"
    "\<And>y x. y < h \<Longrightarrow> x < w \<Longrightarrow> px db (d + dp + y * dp + x * db) dst' =
      body (px db (d + dp + y * dp + x * db) dst1) (px sb (s + sp + y * sp + x * sb) src)"
    by blast
  have "blit body db sb (dp - w * db) (sp - w * sb) src w (Suc h) (dst, d, s) = Some dst'"
    using r(1) b(1) by (simp add: d1)
  moreover have "px n j dst' = px n j dst" if "j + n \<le> d" for n j
    using b(3) [of j n] r(3) [of j n] that by simp
  moreover have "px db (d + y * dp + x * db) dst' =
      body (px db (d + y * dp + x * db) dst) (px sb (s + y * sp + x * sb) src)" if yx: "y < Suc h" "x < w" for y x
  proof (cases y)
    case 0
    have "Suc x * db \<le> w * db" using yx(2) by (intro mult_le_mono) auto
    then have "d + x * db + db \<le> d + dp" using le(1) by simp
    with b(3) have "px db (d + x * db) dst' = px db (d + x * db) dst1" by blast
    then show ?thesis using r(4) [OF yx(2)] 0 by simp
  next
    case (Suc z)
    have "px db (d + dp + z * dp + x * db) dst1 = px db (d + dp + z * dp + x * db) dst"
      by (rule r(3), rule disjI2) (use le(1) in linarith)
    then show ?thesis using b(4) [of z x] yx Suc by (simp add: algebra_simps)
  qed
  ultimately show ?case using b(2) r(2) by auto
qed

subsection \<open>Byte-aligned formats\<close>

lemma conv8: "upconv 8 v = v" "downconv 8 v = v"
proof -
  have v: "unat v < 256" by (rule byte_bound)
  show "upconv 8 v = v" using v by (simp add: upconv_eq)
  show "downconv 8 v = v" using v by (simp add: downconv_eq)
qed

definition byte_shift :: "nat \<Rightarrow> bool" where
  "byte_shift sh \<longleftrightarrow> sh \<in> {0, 8, 16, 24}"

lemma and7: "n AND 7 = 0 \<longleftrightarrow> n mod 8 = 0" for n :: nat
proof -
  have "n AND 7 = take_bit 3 n" by (simp add: take_bit_eq_mask mask_eq_exp_minus_1)
  then show ?thesis by (simp add: take_bit_eq_mod)
qed

lemma byte_shiftI: "n AND 7 = 0 \<Longrightarrow> 8 + n \<le> 32 \<Longrightarrow> byte_shift n"
proof -
  assume "n AND 7 = 0" "8 + n \<le> 32"
  then obtain k where "n = 8 * k" "k \<le> 3" unfolding and7 by fastforce
  then have "k \<in> {0, 1, 2, 3}" by auto
  with \<open>n = 8 * k\<close> show "byte_shift n" by (auto simp: byte_shift_def)
qed

lemma channel8: "byte_shift s \<Longrightarrow> byte_shift t \<Longrightarrow> channel s 8 AND channel t 8 = 0 \<Longrightarrow> s \<noteq> t"
proof
  assume "byte_shift s" "channel s 8 AND channel t 8 = 0" "s = t"
  then have "\<not> bit (channel s 8) s" by simp
  then show False using \<open>byte_shift s\<close> by (auto simp: channel_def bit_simps byte_shift_def)
qed

lemma is888_shifts:
  assumes "format_ok h pf" and "is888 pf"
  shows "byte_shift (redShift pf)" "byte_shift (greenShift pf)" "byte_shift (blueShift pf)"
    "redShift pf \<noteq> greenShift pf" "redShift pf \<noteq> blueShift pf" "greenShift pf \<noteq> blueShift pf"
    "redBits pf = 8" "greenBits pf = 8" "blueBits pf = 8" "bpp pf = 32"
proof -
  have m: "redMax pf = 255" "greenMax pf = 255" "blueMax pf = 255" "bpp pf = 32"
    using assms(2) by (auto simp: is888_def)
  have b: "redBits pf = 8" "greenBits pf = 8" "blueBits pf = 8"
    using updated_bits [of h pf] assms(1) m by (auto simp: format_ok_def bits_max)
  have c: "coloured h pf" using assms(1) m by (simp add: coloured_def)
  show s: "byte_shift (redShift pf)" "byte_shift (greenShift pf)" "byte_shift (blueShift pf)"
    using format_channels [OF assms(1)] assms(2) m b
    by (auto simp: is888_def channel_ok_def intro: byte_shiftI)
  note d = channels_disjoint [OF c, unfolded b]
  show "redShift pf \<noteq> greenShift pf" "redShift pf \<noteq> blueShift pf" "greenShift pf \<noteq> blueShift pf"
    using s d by (auto dest: channel8)
  show "redBits pf = 8" "greenBits pf = 8" "blueBits pf = 8" "bpp pf = 32" using b m by auto
qed

lemma byte_in_pixel:
  assumes "bpp pf = 32" and "byte_shift sh"
  shows "ucast (drop_bit sh (pixelFromBuffer pf s)) = s ! byte_of pf sh"
  using assms
  by (auto simp: pixelFromBuffer_def byte_of_def byte_shift_def le_bytes word_bytes simp del: drop_bit_or)

lemma get888_eq:
  assumes "format_ok h pf" and "is888 pf"
  shows "get888 pf s = rgbFromPixel8 pf (pixelFromBuffer pf s)"
  using is888_shifts [OF assms] by (simp add: get888_def rgbFromPixel8_def byte_in_pixel conv8)

lemma pixel_byte:
  assumes "bpp pf = 32" and "byte_shift sh"
  shows "bufferFromPixel pf p ! byte_of pf sh = ucast (drop_bit sh p)"
  using assms by (auto simp: bufferFromPixel_def byte_of_def byte_shift_def)

lemma stored_byte:
  fixes v :: byte
  assumes "byte_shift s" and "byte_shift t"
  shows "ucast (drop_bit t (push_bit s (ucast v) :: pixel)) = (if s = t then v else 0)"
  using assms unfolding byte_shift_def
  by (intro bit_word_eqI) (auto simp: bit_simps dest: bit_imp_le_length)

lemma byte_of_inj: "byte_shift s \<Longrightarrow> byte_shift t \<Longrightarrow> byte_of pf s = byte_of pf t \<longleftrightarrow> s = t"
  by (auto simp: byte_of_def byte_shift_def)

lemma byte_of_less: "byte_shift s \<Longrightarrow> byte_of pf s < 4"
  by (auto simp: byte_of_def byte_shift_def)

lemma unused_byte:
  assumes "byte_shift (redShift pf)" "byte_shift (greenShift pf)" "byte_shift (blueShift pf)"
    "redShift pf \<noteq> greenShift pf" "redShift pf \<noteq> blueShift pf" "greenShift pf \<noteq> blueShift pf"
  shows "byte_shift (unused_shift pf)" "unused_shift pf \<notin> {redShift pf, greenShift pf, blueShift pf}"
    "i < 4 \<Longrightarrow> \<exists>sh\<in>{redShift pf, greenShift pf, blueShift pf, unused_shift pf}. byte_of pf sh = i"
proof -
  show "byte_shift (unused_shift pf)" "unused_shift pf \<notin> {redShift pf, greenShift pf, blueShift pf}"
    using assms by (auto simp: byte_shift_def unused_shift_def)
  have cover: "{redShift pf, greenShift pf, blueShift pf, unused_shift pf} = {0, 8, 16, 24}"
    using assms by (auto simp: byte_shift_def unused_shift_def)
  have "i < 4 \<Longrightarrow> i \<in> {0, 1, 2, 3}" by auto
  then show "\<exists>sh\<in>{redShift pf, greenShift pf, blueShift pf, unused_shift pf}. byte_of pf sh = i" if "i < 4"
    unfolding cover using that by (cases "bigEndian pf") (auto simp: byte_of_def)
qed

lemma put888_eq:
  assumes "format_ok h pf" and "is888 pf" and "length old = 4"
  shows "put888 pf old rgb = bufferFromPixel pf (pixelFromRGB8 pf rgb)"
proof -
  note f = is888_shifts [OF assms(1,2)]
  note u = unused_byte [OF f(1-6)]
  obtain r g b where rgb: "rgb = (r, g, b)" by (cases rgb)
  show ?thesis
  proof (rule nth_equalityI)
    show l: "length (put888 pf old rgb) = length (bufferFromPixel pf (pixelFromRGB8 pf rgb))"
      using assms(3) f(10) by (simp add: put888_def rgb bufferFromPixel_def)
    fix i assume "i < length (put888 pf old rgb)"
    then have "i < 4" using assms(3) by (simp add: put888_def rgb)
    from u(3) [OF this] obtain sh where sh: "sh \<in> {redShift pf, greenShift pf, blueShift pf, unused_shift pf}"
      and i: "byte_of pf sh = i" by blast
    have bs: "byte_shift sh" using sh f(1-3) u(1) by auto
    have "bufferFromPixel pf (pixelFromRGB8 pf rgb) ! i =
        (if redShift pf = sh then r else 0) OR (if greenShift pf = sh then g else 0) OR (if blueShift pf = sh then b else 0)"
      unfolding i [symmetric] pixel_byte [OF f(10) bs]
      by (simp add: rgb pixelFromRGB8_def f(7-9) conv8 unsigned_or_eq stored_byte f(1-3) bs)
    moreover have "put888 pf old rgb ! i =
        (if redShift pf = sh then r else 0) OR (if greenShift pf = sh then g else 0) OR (if blueShift pf = sh then b else 0)"
      using sh f(4-6) u(2) assms(3)
      by (auto simp: rgb put888_def i [symmetric] nth_list_update byte_of_inj byte_of_less f(1-3) u(1))
    ultimately show "put888 pf old rgb ! i = bufferFromPixel pf (pixelFromRGB8 pf rgb) ! i" by simp
  qed
qed

subsection \<open>The template functions\<close>

lemma byte_masks:
  "(0xff :: 'a::len word) = mask 8" "(0xff00 :: u32) = push_bit 8 (mask 8)" "(0xff0000 :: u32) = push_bit 16 (mask 8)"
  by (simp_all add: mask_eq_exp_minus_1)

lemma swap16_bytes: "ucast (swap16 t) = (ucast (drop_bit 8 t) :: byte)" "ucast (drop_bit 8 (swap16 t)) = (ucast t :: byte)"
  unfolding swap16_def byte_masks by (rule bit_word_eqI; auto simp: bit_simps)+

lemma swap32_bytes:
  "ucast (swap32 t) = (ucast (drop_bit 24 t) :: byte)" "ucast (drop_bit 8 (swap32 t)) = (ucast (drop_bit 16 t) :: byte)"
  "ucast (drop_bit 16 (swap32 t)) = (ucast (drop_bit 8 t) :: byte)" "ucast (drop_bit 24 (swap32 t)) = (ucast t :: byte)"
  unfolding swap32_def byte_masks by (rule bit_word_eqI; auto simp: bit_simps)+

lemma store_native_eq:
  assumes "format_ok h pf"
  shows "store_native h (bpp pf) (endianMismatch pf) d = bufferFromPixel pf d"
proof -
  have m: "endianMismatch pf = (h \<noteq> bigEndian pf)" using assms by (auto simp: format_ok_def dest: updated_bits(4))
  have c: "ucast (ucast d :: u16) = (ucast d :: byte)" "ucast (drop_bit 8 (ucast d :: u16)) = (ucast (drop_bit 8 d) :: byte)"
    by (rule bit_word_eqI; auto simp: bit_simps)+
  have "bpp pf = 8 \<or> bpp pf = 16 \<or> bpp pf = 32" using sane_fields(1) [of pf] assms by (simp add: format_ok_def)
  then show ?thesis
    by (cases h; cases "bigEndian pf")
      (auto simp: store_native_def bufferFromPixel_def m Let_def swap16_bytes swap32_bytes c)
qed

lemma u16_eqI:
  fixes a b :: u16
  assumes "ucast a = (ucast b :: byte)" and "ucast (drop_bit 8 a) = (ucast (drop_bit 8 b) :: byte)"
  shows "a = b"
  using assms u16_bytes [of a] u16_bytes [of b] by metis

lemma u32_eqI:
  fixes a b :: u32
  assumes "ucast a = (ucast b :: byte)" and "ucast (drop_bit 8 a) = (ucast (drop_bit 8 b) :: byte)"
    and "ucast (drop_bit 16 a) = (ucast (drop_bit 16 b) :: byte)" and "ucast (drop_bit 24 a) = (ucast (drop_bit 24 b) :: byte)"
  shows "a = b"
  using assms u32_bytes [of a] u32_bytes [of b] by metis

lemma half16:
  fixes a b :: byte
  shows "ucast (drop_bit 8 (push_bit 8 (ucast a) OR ucast b :: u16)) = a" "ucast (push_bit 8 (ucast a) OR ucast b :: u16) = b"
    "ucast (push_bit 8 (ucast a) OR ucast b :: u16) = (push_bit 8 (ucast a) OR ucast b :: u32)"
  by (rule bit_word_eqI; auto simp: bit_simps dest: bit_imp_le_length)+

lemma swap16_pair: "swap16 (push_bit 8 (ucast a) OR ucast b) = push_bit 8 (ucast b) OR ucast a" for a b :: byte
  by (rule u16_eqI) (simp_all add: swap16_bytes half16 del: drop_bit_or)

lemma swap32_quad:
  fixes a b c d :: byte
  shows "swap32 (push_bit 24 (ucast a) OR push_bit 16 (ucast b) OR push_bit 8 (ucast c) OR ucast d) =
    push_bit 24 (ucast d) OR push_bit 16 (ucast c) OR push_bit 8 (ucast b) OR ucast a"
  by (rule u32_eqI) (simp_all add: swap32_bytes word_bytes del: drop_bit_or)

lemma load_native_eq:
  assumes "format_ok h pf"
  shows "load_native h (bpp pf) (endianMismatch pf) s = pixelFromBuffer pf s"
proof -
  have m: "endianMismatch pf = (h \<noteq> bigEndian pf)" using assms by (auto simp: format_ok_def dest: updated_bits(4))
  have "bpp pf = 8 \<or> bpp pf = 16 \<or> bpp pf = 32" using sane_fields(1) [of pf] assms by (simp add: format_ok_def)
  then show ?thesis
    by (cases h; cases "bigEndian pf")
      (auto simp: load_native_def pixelFromBuffer_def m Let_def swap16_pair swap32_quad half16(3) le_bytes
        or.commute [of "ucast _" "push_bit 8 _"])
qed

lemma from888_eq:
  assumes "format_ok h pf" and "format_ok h srcPF" and "is888 srcPF"
  shows "from888_body h pf srcPF old s = generic_body pf srcPF old s"
  by (simp add: from888_body_def generic_body_def get888_eq [OF assms(2,3)] store_native_eq [OF assms(1)]
      pixelFromRGB8_def split: prod.split)

lemma low_byte: "ucast (v AND 0xff) = (ucast v :: byte)" for v :: u32
  unfolding byte_masks by (rule bit_word_eqI) (auto simp: bit_simps)

lemma to888_eq:
  assumes "format_ok h pf" and "is888 pf" and "format_ok h srcPF" and "length old = 4"
  shows "to888_body h pf srcPF old s = generic_body pf srcPF old s"
  by (simp add: to888_body_def generic_body_def load_native_eq [OF assms(3)] put888_eq [OF assms(1,2,4)] low_byte
      rgbFromPixel8_def Let_def)

subsection \<open>Colours shown\<close>

text \<open>The colour a pixel shows, and the colour a format shows for a wanted one.\<close>

definition shown :: "pixel_format \<Rightarrow> byte list \<Rightarrow> byte \<times> byte \<times> byte" where
  "shown pf s = rgbFromPixel8 pf (pixelFromBuffer pf s)"

definition rendered :: "pixel_format \<Rightarrow> byte \<times> byte \<times> byte \<Rightarrow> byte \<times> byte \<times> byte" where
  "rendered pf rgb = rgbFromPixel8 pf (pixelFromRGB8 pf rgb)"

lemma rgb_take_bit:
  assumes "format_ok h pf"
  shows "rgbFromPixel8 pf (take_bit (bpp pf) p) = rgbFromPixel8 pf p"
proof -
  have "upconv b (ucast (drop_bit sh (take_bit (bpp pf) p))) = upconv b (ucast (drop_bit sh p))"
    if "channel_ok mx sh b (bpp pf)" for mx sh b
  proof (rule upconv_low)
    show "1 \<le> b" "b \<le> 8" using that by (auto simp: channel_ok_def)
    show "take_bit b (ucast (drop_bit sh (take_bit (bpp pf) p)) :: byte) = take_bit b (ucast (drop_bit sh p))"
      using that by (intro bit_word_eqI) (auto simp: channel_ok_def bit_simps)
  qed
  with format_channels [OF assms] show ?thesis by (auto simp: rgbFromPixel8_def)
qed

lemma generic_shows:
  assumes "format_ok h pf"
  shows "shown pf (generic_body pf srcPF old s) = rendered pf (shown srcPF s)"
proof -
  have "isSane pf" using assms by (simp add: format_ok_def)
  then show ?thesis
    by (simp add: shown_def rendered_def generic_body_def pixel_buffer rgb_take_bit [OF assms])
qed

lemma up_down_up: "1 \<le> b \<Longrightarrow> b \<le> 8 \<Longrightarrow> upconv b (downconv b (upconv b v)) = upconv b v"
  by (rule upconv_low) (simp_all add: down_up)

lemma shuffle_shows:
  assumes "format_ok h pf" "is888 pf" "format_ok h srcPF" "is888 srcPF" and "length old = 4"
  shows "shown pf (shuffle_body pf srcPF old s) = rendered pf (shown srcPF s)"
proof -
  note f = is888_shifts [OF assms(1,2)] and g = is888_shifts [OF assms(3,4)]
  note uf = unused_byte [OF f(1-6)] and ug = unused_byte [OF g(1-6)]
  let ?d = "shuffle_targets pf srcPF"
  have t: "?d ! byte_of srcPF (redShift srcPF) = byte_of pf (redShift pf)"
    "?d ! byte_of srcPF (greenShift srcPF) = byte_of pf (greenShift pf)"
    "?d ! byte_of srcPF (blueShift srcPF) = byte_of pf (blueShift pf)"
    "?d ! byte_of srcPF (unused_shift srcPF) = byte_of pf (unused_shift pf)"
    using g(4-6) ug(2)
    by (auto simp: shuffle_targets_def nth_list_update byte_of_inj byte_of_less g(1-3) ug(1))
  have target: "\<exists>a c. byte_shift a \<and> byte_of srcPF c = i \<and> ?d ! i = byte_of pf a \<and>
      (a, c) \<in> {(redShift pf, redShift srcPF), (greenShift pf, greenShift srcPF), (blueShift pf, blueShift srcPF),
        (unused_shift pf, unused_shift srcPF)}" if "i < 4" for i
    using ug(3) [OF that] t f(1-3) uf(1) by auto
  have inj: "i = j" if i: "i < 4" and j: "j < 4" and eq: "?d ! i = ?d ! j" for i j
  proof -
    from target [OF i] obtain a c where a: "byte_shift a" "byte_of srcPF c = i" "?d ! i = byte_of pf a"
      "(a, c) \<in> {(redShift pf, redShift srcPF), (greenShift pf, greenShift srcPF), (blueShift pf, blueShift srcPF),
        (unused_shift pf, unused_shift srcPF)}" by blast
    from target [OF j] obtain a' c' where a': "byte_shift a'" "byte_of srcPF c' = j" "?d ! j = byte_of pf a'"
      "(a', c') \<in> {(redShift pf, redShift srcPF), (greenShift pf, greenShift srcPF), (blueShift pf, blueShift srcPF),
        (unused_shift pf, unused_shift srcPF)}" by blast
    have "a = a'" using eq a(1,3) a'(1,3) by (simp add: byte_of_inj)
    then have "c = c'" using a(4) a'(4) f(4-6) uf(2) by auto
    then show ?thesis using a(2) a'(2) by simp
  qed
  have less: "?d ! i < 4" if "i < 4" for i
    using target [OF that] byte_of_less by auto
  have moved: "shuffle_body pf srcPF old s ! (?d ! i) = s ! i" if "i < 4" for i
  proof -
    have "i \<in> {0, 1, 2, 3}" using that by auto
    moreover have "?d ! 0 \<noteq> ?d ! 1" "?d ! 0 \<noteq> ?d ! 2" "?d ! 0 \<noteq> ?d ! 3" "?d ! 1 \<noteq> ?d ! 2" "?d ! 1 \<noteq> ?d ! 3" "?d ! 2 \<noteq> ?d ! 3"
      using inj [of 0 1] inj [of 0 2] inj [of 0 3] inj [of 1 2] inj [of 1 3] inj [of 2 3] by auto
    ultimately show ?thesis using less [of 0] less [of 1] less [of 2] less [of 3] assms(5)
      by (auto simp: shuffle_body_def Let_def nth_list_update)
  qed
  have "get888 pf (shuffle_body pf srcPF old s) = get888 srcPF s"
    using moved byte_of_less g(1-3) by (simp add: get888_def flip: t)
  then have "shown pf (shuffle_body pf srcPF old s) = shown srcPF s"
    by (simp add: shown_def get888_eq [OF assms(1,2), symmetric] get888_eq [OF assms(3,4), symmetric])
  moreover have "rendered pf c = c" for c
  proof -
    have "coloured h pf" using assms(1,2) by (simp add: coloured_def is888_def)
    from shown_colour [OF this] show ?thesis by (cases c) (simp add: rendered_def f(7-9) conv8)
  qed
  ultimately show ?thesis by simp
qed

lemma channel_in_byte:
  fixes p :: pixel
  assumes "m + b \<le> 8"
  shows "take_bit b (ucast (drop_bit (k + m) p) :: byte) = take_bit b (drop_bit m (ucast (drop_bit k p) :: byte))"
proof (rule bit_word_eqI)
  fix n assume "n < LENGTH(8)"
  have "bit (ucast (drop_bit (k + m) p) :: byte) n \<longleftrightarrow> n < 8 \<and> bit p (k + (m + n))"
    by (simp add: bit_simps add.assoc)
  then show "bit (take_bit b (ucast (drop_bit (k + m) p) :: byte)) n \<longleftrightarrow>
      bit (take_bit b (drop_bit m (ucast (drop_bit k p) :: byte))) n"
    using assms by (auto simp: bit_take_bit_iff bit_drop_bit_eq bit_ucast_iff)
qed

text \<open>One channel of two formats of opposite byte order that the code takes for equal.\<close>

lemma mirrored_channel:
  assumes "bpp a = 32" "bpp c = 32" "bigEndian a \<noteq> bigEndian c" "1 \<le> b" "b \<le> 8"
    and "b + sa \<le> 32" "b + sc \<le> 32"
    and "int (sa div 8) = 3 - int (sc div 8)" "sa mod 8 = sc mod 8" "sa div 8 = (sa + b - 1) div 8"
  shows "upconv b (ucast (drop_bit sa (pixelFromBuffer a s))) = upconv b (ucast (drop_bit sc (pixelFromBuffer c s)))"
proof (rule upconv_low [OF assms(4,5)])
  let ?m = "sa mod 8"
  have q: "sa div 8 \<le> 3" "sc div 8 = 3 - sa div 8" using assms(8) by linarith+
  have sa: "sa = 8 * (sa div 8) + ?m" by simp
  have "sa + b - 1 = 8 * (sa div 8) + (sa + b - 1) mod 8" unfolding assms(10) by simp
  then have m: "?m + b \<le> 8" using sa mod_less_divisor [of 8 "sa + b - 1"] by linarith
  have "sc = 8 * (sc div 8) + sc mod 8" by simp
  then have sc: "sc = 8 * (3 - sa div 8) + ?m" by (simp only: q(2) assms(9))
  have k: "sa div 8 \<in> {0, 1, 2, 3}" using q(1) by auto
  have "byte_shift (8 * (sa div 8))" "byte_shift (8 * (3 - sa div 8))" using k by (auto simp: byte_shift_def)
  note b = byte_in_pixel [OF assms(1) this(1), of s] byte_in_pixel [OF assms(2) this(2), of s]
  have "byte_of a (8 * (sa div 8)) = byte_of c (8 * (3 - sa div 8))"
    using k assms(3) by (auto simp: byte_of_def)
  then have "ucast (drop_bit (8 * (sa div 8)) (pixelFromBuffer a s)) = (ucast (drop_bit (8 * (3 - sa div 8)) (pixelFromBuffer c s)) :: byte)"
    using b by simp
  then have "take_bit b (ucast (drop_bit (8 * (sa div 8) + ?m) (pixelFromBuffer a s)) :: byte) =
      take_bit b (ucast (drop_bit (8 * (3 - sa div 8) + ?m) (pixelFromBuffer c s)))"
    by (simp only: channel_in_byte [OF m])
  then show "take_bit b (ucast (drop_bit sa (pixelFromBuffer a s)) :: byte) = take_bit b (ucast (drop_bit sc (pixelFromBuffer c s)))"
    by (simp only: sa [symmetric] sc [symmetric])
qed

lemma same_format_shows:
  assumes "format_ok h a" and "format_ok h c" and "format_eq a c"
  shows "shown a s = shown c s"
proof -
  have m: "bpp a = bpp c" "redMax a = redMax c" "greenMax a = greenMax c" "blueMax a = blueMax c"
    using assms(3) by (auto simp: format_eq_def split: if_splits)
  have b: "redBits a = redBits c" "greenBits a = greenBits c" "blueBits a = blueBits c"
    using updated_bits(1-3) [of h a] updated_bits(1-3) [of h c] assms(1,2) m by (auto simp: format_ok_def)
  have ca: "1 \<le> redBits a" "redBits a \<le> 8" "redBits a + redShift a \<le> bpp a" "redBits a + redShift c \<le> bpp a"
    "1 \<le> greenBits a" "greenBits a \<le> 8" "greenBits a + greenShift a \<le> bpp a" "greenBits a + greenShift c \<le> bpp a"
    "1 \<le> blueBits a" "blueBits a \<le> 8" "blueBits a + blueShift a \<le> bpp a" "blueBits a + blueShift c \<le> bpp a"
    using format_channels [OF assms(1)] format_channels [OF assms(2)] m b by (auto simp: channel_ok_def)
  show ?thesis
  proof (cases "bigEndian a = bigEndian c \<or> bpp a = 8")
    case True
    then have "redShift a = redShift c" "greenShift a = greenShift c" "blueShift a = blueShift c"
      using assms(3) by (auto simp: format_eq_def split: if_splits)
    moreover have "pixelFromBuffer a s = pixelFromBuffer c s" using True m(1) by (auto simp: pixelFromBuffer_def)
    ultimately show ?thesis by (simp add: shown_def rgbFromPixel8_def b)
  next
    case False
    then have e: "int (redShift a div 8) = 3 - int (redShift c div 8)" "redShift a mod 8 = redShift c mod 8"
      "redShift a div 8 = (redShift a + redBits a - 1) div 8"
      "int (greenShift a div 8) = 3 - int (greenShift c div 8)" "greenShift a mod 8 = greenShift c mod 8"
      "greenShift a div 8 = (greenShift a + greenBits a - 1) div 8"
      "int (blueShift a div 8) = 3 - int (blueShift c div 8)" "blueShift a mod 8 = blueShift c mod 8"
      "blueShift a div 8 = (blueShift a + blueBits a - 1) div 8"
      using assms(3) by (auto simp: format_eq_def split: if_splits)
    have "bpp a \<noteq> 16"
    proof
      assume "bpp a = 16"
      then have "redShift a div 8 < 2" "redShift c div 8 < 2" using ca(1,3,4) by (auto simp: div_less_iff_less_mult)
      then show False using e(1) by linarith
    qed
    then have w: "bpp a = 32" "bpp c = 32" using sane_fields(1) [of a] assms(1) False m(1) by (auto simp: format_ok_def)
    have n: "bigEndian a \<noteq> bigEndian c" using False by simp
    note ca' = ca [unfolded w(1)]
    show ?thesis
      using mirrored_channel [OF w n ca'(1-4) e(1-3)] mirrored_channel [OF w n ca'(5-8) e(4-6)]
        mirrored_channel [OF w n ca'(9-12) e(7-9)]
      by (simp add: shown_def rgbFromPixel8_def b)
  qed
qed

lemma rendered_shown:
  assumes "coloured h pf"
  shows "rendered pf (shown pf s) = shown pf s"
proof -
  have ok: "format_ok h pf" using assms by (simp add: coloured_def)
  have "rgbFromPixel8 pf (pixelFromRGB8 pf (rgbFromPixel8 pf p)) = rgbFromPixel8 pf p" for p
    using shown_colour [OF assms] format_channels [OF ok]
    by (simp add: rgbFromPixel8_def up_down_up channel_ok_def)
  then show ?thesis by (simp add: rendered_def shown_def)
qed

lemma whole_bytes:
  assumes "format_ok h pf"
  shows "bpp pf = 8 * bytesPerPixel pf" "0 < bytesPerPixel pf" "length (bufferFromPixel pf p) = bytesPerPixel pf"
proof -
  have s: "isSane pf" using assms by (simp add: format_ok_def)
  show "bpp pf = 8 * bytesPerPixel pf" "0 < bytesPerPixel pf"
    using sane_fields(1) [OF s] by (auto simp: bytesPerPixel_def)
  show "length (bufferFromPixel pf p) = bytesPerPixel pf" by (rule bufferFromPixel_length [OF s])
qed

lemma px_px: "i + n \<le> m \<Longrightarrow> px n i (px m j buf) = px n (j + i) buf"
  by (simp add: px_def drop_take min_absorb1 add.commute)

lemma fits_inside:
  assumes "fits 0 n (st * n) w h buf" and "y < h" and "x < w"
  shows "y * (st * n) + x * n + n \<le> length buf"
proof -
  have "y * (st * n) \<le> (h - 1) * (st * n)" using assms(2) by (intro mult_le_mono) auto
  moreover have "x * n + n \<le> w * n" using mult_le_mono1 [of "Suc x" w n] assms(3) by simp
  moreover have "(h - 1) * (st * n) + w * n \<le> length buf" using assms by (simp add: fits_def)
  ultimately show ?thesis by linarith
qed

text \<open>One conversion loop: every body that shows the wanted colour on each pixel does so in the rectangle.\<close>

lemma blit_shows:
  assumes "fits 0 db (ds * db) w h dst" and "fits 0 sb (ss * sb) w h src"
    and "\<And>old v. length old = db \<Longrightarrow> length v = sb \<Longrightarrow> length (body old v) = db"
    and "\<And>old v. length old = db \<Longrightarrow> length v = sb \<Longrightarrow> shown pf (body old v) = f v"
    and "dpad = ds * db - w * db" and "spad = ss * sb - w * sb"
  shows "\<exists>dst'. blit body db sb dpad spad src w h (dst, 0, 0) = Some dst' \<and> length dst' = length dst \<and>
    (\<forall>y<h. \<forall>x<w. shown pf (px db ((y * ds + x) * db) dst') = f (px sb ((y * ss + x) * sb) src))"
proof -
  from blit_ok [where body = body, OF assms(1-3)] obtain dst' where b:
    "blit body db sb dpad spad src w h (dst, 0, 0) = Some dst'" "length dst' = length dst"
    "\<And>y x. y < h \<Longrightarrow> x < w \<Longrightarrow> px db (y * (ds * db) + x * db) dst' =
      body (px db (y * (ds * db) + x * db) dst) (px sb (y * (ss * sb) + x * sb) src)"
    unfolding assms(5,6) by auto
  note inside = px_length [OF fits_inside]
  have "shown pf (px db ((y * ds + x) * db) dst') = f (px sb ((y * ss + x) * sb) src)" if "y < h" "x < w" for y x
    using b(3) [OF that] assms(4) [OF inside [OF assms(1) that] inside [OF assms(2) that]]
    by (simp add: add_mult_distrib mult.assoc)
  with b(1,2) show ?thesis by blast
qed

lemma copy_rows_shows:
  assumes "fits 0 n (ds * n) w h dst" and "fits 0 n (ss * n) w h src"
    and "\<And>v. length v = n \<Longrightarrow> shown pf v = f v"
  shows "\<exists>dst'. blit (\<lambda>old s. s) (w * n) (w * n) (ds * n - w * n) (ss * n - w * n) src 1 h (dst, 0, 0) = Some dst' \<and>
    length dst' = length dst \<and> (\<forall>y<h. \<forall>x<w. shown pf (px n ((y * ds + x) * n) dst') = f (px n ((y * ss + x) * n) src))"
proof -
  have rows: "fits 0 (w * n) (ds * n) 1 h dst" "fits 0 (w * n) (ss * n) 1 h src"
    using assms(1,2) by (simp_all add: fits_def)
  from blit_ok [where body = "\<lambda>old s. s", OF rows] obtain dst' where b:
    "blit (\<lambda>old s. s) (w * n) (w * n) (ds * n - 1 * (w * n)) (ss * n - 1 * (w * n)) src 1 h (dst, 0, 0) = Some dst'"
    "length dst' = length dst" "\<And>y. y < h \<Longrightarrow> px (w * n) (y * (ds * n)) dst' = px (w * n) (y * (ss * n)) src"
    by fastforce
  have "shown pf (px n ((y * ds + x) * n) dst') = f (px n ((y * ss + x) * n) src)" if y: "y < h" and x: "x < w" for y x
  proof -
    have le: "x * n + n \<le> w * n" using mult_le_mono1 [of "Suc x" w n] x by simp
    have "px n (y * (ds * n) + x * n) dst' = px n (x * n) (px (w * n) (y * (ds * n)) dst')"
      by (rule px_px [OF le, symmetric])
    also have "\<dots> = px n (y * (ss * n) + x * n) src" unfolding b(3) [OF y] by (rule px_px [OF le])
    finally have e: "px n (y * (ds * n) + x * n) dst' = px n (y * (ss * n) + x * n) src" .
    have "shown pf (px n (y * (ss * n) + x * n) src) = f (px n (y * (ss * n) + x * n) src)"
      by (rule assms(3), rule px_length, rule fits_inside [OF assms(2) y x])
    then show ?thesis unfolding add_mult_distrib mult.assoc e .
  qed
  with b(1,2) show ?thesis by auto
qed

text \<open>
  C22: Whatever path \<open>bufferFromBuffer\<close> takes for two sane formats (the plain copy of
  rows, the shuffling of bytes, the table-driven loops from or to a 32-bit format with their
  byte swapping, or the generic loop), it stays within rectangles that fit the buffers and
  every pixel of the result shows the colour of its source pixel as the destination format
  renders it.
\<close>

theorem conversion_shows_source:
  assumes "coloured hostBig pf" and "format_ok hostBig srcPF"
    and "fits 0 (bytesPerPixel pf) (ds * bytesPerPixel pf) w h dst"
    and "fits 0 (bytesPerPixel srcPF) (ss * bytesPerPixel srcPF) w h src"
  shows "\<exists>dst'. bufferFromBuffer hostBig pf dst srcPF src dstAligned srcAligned w h ds ss = Some dst' \<and>
    length dst' = length dst \<and>
    (\<forall>y<h. \<forall>x<w. shown pf (px (bytesPerPixel pf) ((y * ds + x) * bytesPerPixel pf) dst') =
      rendered pf (shown srcPF (px (bytesPerPixel srcPF) ((y * ss + x) * bytesPerPixel srcPF) src)))"
proof -
  have ok: "format_ok hostBig pf" using assms(1) by (simp add: coloured_def)
  let ?n = "bytesPerPixel pf" and ?m = "bytesPerPixel srcPF"
  note n = whole_bytes [OF ok] and m = whole_bytes [OF assms(2)]
  note loop = blit_shows [OF assms(3,4), of _ pf "\<lambda>v. rendered pf (shown srcPF v)", OF _ _ refl refl]
  have n4: "is888 pf \<Longrightarrow> ?n = 4" and m4: "is888 srcPF \<Longrightarrow> ?m = 4"
    by (simp_all add: is888_def bytesPerPixel_def)
  have gen: "length (generic_body pf srcPF old v) = ?n" for old v by (simp add: generic_body_def n(3))
  consider (same) "format_eq pf srcPF"
    | (shuffle) "\<not> format_eq pf srcPF" "is888 pf" "is888 srcPF"
    | (narrow) "\<not> format_eq pf srcPF" "\<not> (is888 pf \<and> is888 srcPF)" "dstAligned \<and> is888 srcPF"
    | (widen) "\<not> format_eq pf srcPF" "\<not> (is888 pf \<and> is888 srcPF)" "\<not> (dstAligned \<and> is888 srcPF)" "srcAligned \<and> is888 pf"
    | (generic) "\<not> format_eq pf srcPF" "\<not> (is888 pf \<and> is888 srcPF)" "\<not> (dstAligned \<and> is888 srcPF)" "\<not> (srcAligned \<and> is888 pf)"
    by blast
  then show ?thesis
  proof cases
    case same
    have e: "?m = ?n" "bpp srcPF = bpp pf" using same by (auto simp: format_eq_def bytesPerPixel_def split: if_splits)
    have "shown pf v = rendered pf (shown srcPF v)" for v
      using same_format_shows [OF ok assms(2) same] rendered_shown [OF assms(1)] by simp
    from copy_rows_shows [OF assms(3) assms(4) [unfolded e], of pf "\<lambda>v. rendered pf (shown srcPF v)", OF this]
    show ?thesis using same by (simp add: bufferFromBuffer_def e n(1) flip: mult.assoc)
  next
    case shuffle
    from loop [of "shuffle_body pf srcPF"] shuffle_shows [OF ok shuffle(2) assms(2) shuffle(3)] shuffle
    show ?thesis by (simp add: bufferFromBuffer_def n4 m4 shuffle_body_def Let_def diff_mult_distrib)
  next
    case narrow
    have "is888 srcPF" using narrow by simp
    note b = from888_eq [OF ok assms(2) this]
    from loop [of "from888_body hostBig pf srcPF"] gen generic_shows [OF ok] narrow
    show ?thesis by (simp add: bufferFromBuffer_def b m4 diff_mult_distrib)
  next
    case widen
    have "is888 pf" using widen by simp
    note b = to888_eq [OF ok this assms(2)]
    from loop [of "to888_body hostBig pf srcPF"] gen generic_shows [OF ok] widen
    show ?thesis by (simp add: bufferFromBuffer_def b n4 diff_mult_distrib)
  next
    case generic
    then have "bufferFromBuffer hostBig pf dst srcPF src dstAligned srcAligned w h ds ss =
        blit (generic_body pf srcPF) ?n ?m ((ds - w) * bpp pf div 8) ((ss - w) * bpp srcPF div 8) src w h (dst, 0, 0)"
      unfolding bufferFromBuffer_def by (simp only: if_False)
    moreover have "(ds - w) * bpp pf div 8 = ds * ?n - w * ?n" "(ss - w) * bpp srcPF div 8 = ss * ?m - w * ?m"
      by (simp_all add: n(1) m(1) mult.left_commute [of _ 8] diff_mult_distrib)
    ultimately show ?thesis using loop [of "generic_body pf srcPF"] gen generic_shows [OF ok] by simp
  qed
qed

lemma pitch_rgb: "(ds - w) * 4 = ds * 4 - w * (4 :: nat)"
  by (simp add: diff_mult_distrib)

text \<open>
  C24: Writing RGB data into a pixel buffer and reading it back, by whichever of the two loops
  each direction takes, gives for every pixel the colour the format renders.
\<close>

theorem rgb_round_trip:
  assumes "format_ok hostBig pf"
    and "fits 0 (bytesPerPixel pf) (stride * bytesPerPixel pf) w h dst"
    and "length rgb = h * (w * 3)" and "length back = h * (w * 3)"
  shows "\<exists>buf out. bufferFromRGB pf dst rgb w stride h = Some buf \<and> rgbFromBuffer pf back buf w stride h = Some out \<and>
    length buf = length dst \<and>
    (\<forall>y<h. \<forall>x<w. px 3 ((y * w + x) * 3) out = triple_bytes (rendered pf (rgb_triple (px 3 ((y * w + x) * 3) rgb))))"
proof -
  let ?n = "bytesPerPixel pf"
  note n = whole_bytes [OF assms(1)]
  have sane: "isSane pf" using assms(1) by (simp add: format_ok_def)
  have n4: "is888 pf \<Longrightarrow> ?n = 4" by (simp add: is888_def bytesPerPixel_def)
  have fit3: "fits 0 3 (w * 3) w h buf" if "length buf = h * (w * 3)" for buf
    using that by (cases h) (simp_all add: fits_def algebra_simps)
  have pad: "(stride - w) * bpp pf div 8 = stride * ?n - w * ?n"
    by (simp add: n(1) mult.left_commute [of _ 8] diff_mult_distrib)
  let ?to = "\<lambda>old s. bufferFromPixel pf (pixelFromRGB8 pf (rgb_triple s))"
  have "\<exists>buf. bufferFromRGB pf dst rgb w stride h = Some buf \<and> length buf = length dst \<and>
    (\<forall>y<h. \<forall>x<w. shown pf (px ?n ((y * stride + x) * ?n) buf) = rendered pf (rgb_triple (px 3 ((y * w + x) * 3) rgb)))"
  proof (cases "is888 pf")
    case True
    have "\<And>old v. length old = ?n \<Longrightarrow> put888 pf old v = bufferFromPixel pf (pixelFromRGB8 pf v)"
      using put888_eq [OF assms(1) True] n4 [OF True] by simp
    with blit_shows [OF assms(2) fit3 [OF assms(3)], of "\<lambda>old s. put888 pf old (rgb_triple s)" pf "\<lambda>s. rendered pf (rgb_triple s)" _ 0]
      True n(3) n4 [OF True] pixel_buffer [OF sane] rgb_take_bit [OF assms(1)]
    show ?thesis by (simp add: bufferFromRGB_def pitch_rgb shown_def rendered_def)
  next
    case False
    with blit_shows [OF assms(2) fit3 [OF assms(3)], of ?to pf "\<lambda>s. rendered pf (rgb_triple s)" _ 0]
      n(3) pixel_buffer [OF sane] rgb_take_bit [OF assms(1)]
    show ?thesis by (simp add: bufferFromRGB_def pad shown_def rendered_def)
  qed
  then obtain buf where buf: "bufferFromRGB pf dst rgb w stride h = Some buf" "length buf = length dst"
    "\<And>y x. y < h \<Longrightarrow> x < w \<Longrightarrow> shown pf (px ?n ((y * stride + x) * ?n) buf) = rendered pf (rgb_triple (px 3 ((y * w + x) * 3) rgb))"
    by blast
  have fitb: "fits 0 ?n (stride * ?n) w h buf" using assms(2) buf(2) by (simp add: fits_def)
  have "rgbFromBuffer pf back buf w stride h =
      blit (\<lambda>old s. triple_bytes (shown pf s)) 3 ?n (w * 3 - w * 3) (stride * ?n - w * ?n) buf w h (back, 0, 0)"
    using get888_eq [OF assms(1)] n4 by (simp add: rgbFromBuffer_def shown_def pad pitch_rgb)
  moreover have "length (triple_bytes c) = 3" for c by (cases c) (simp add: triple_bytes_def)
  moreover note blit_ok [OF fit3 [OF assms(4)] fitb, of "\<lambda>old s. triple_bytes (shown pf s)"]
  ultimately obtain out where out: "rgbFromBuffer pf back buf w stride h = Some out"
    "\<And>y x. y < h \<Longrightarrow> x < w \<Longrightarrow> px 3 (y * (w * 3) + x * 3) out = triple_bytes (shown pf (px ?n (y * (stride * ?n) + x * ?n) buf))"
    by auto
  have "px 3 ((y * w + x) * 3) out = triple_bytes (rendered pf (rgb_triple (px 3 ((y * w + x) * 3) rgb)))"
    if "y < h" "x < w" for y x
    using out(2) [OF that] buf(3) [OF that] by (simp add: add_mult_distrib mult.assoc)
  with buf out show ?thesis by blast
qed

text \<open>
  Taking a pixel apart into 8-bit channels and putting it together again keeps exactly the
  bits that carry colour, for every sane format and every pixel value.
\<close>

theorem pixel_recoded:
  assumes "format_ok hostBig pf"
  shows "pixelFromRGB8 pf (rgbFromPixel8 pf p) = p AND colour_mask pf"
  by (rule recode_pixel [OF assms])

subsection \<open>Witnesses\<close>

definition rgb565 :: pixel_format where
  "rgb565 = mk_format False 16 16 True True 31 63 31 11 5 0"

definition rgb888 :: pixel_format where
  "rgb888 = mk_format False 32 24 False True 255 255 255 16 8 0"

lemma demo_formats: "isSane rgb565" "isSane rgb888"
  by (simp_all add: rgb565_def rgb888_def mk_format_def, simp_all add: isSane_def bits_max push_bit_eq_mult)

lemma demo_formats_ok: "coloured False rgb565" "format_ok False rgb565" "format_ok False rgb888"
  using demo_formats mk_format_ok unfolding rgb565_def rgb888_def
  by (auto simp: coloured_def) (auto simp: mk_format_def updateState_def Let_def)

theorem pixel_format_round_trip_witness:
  "read_format False (mem_stream (write_format rgb565 @ [9])) =
     Inr (rgb565, \<lparr>unread = [9], past = None, checkedBytes = 1\<rparr>)"
  using pixel_format_round_trip [OF demo_formats_ok(2), of "[9]"]
  by (simp add: rgb565_def mk_format_def updateState_def Let_def)

lemma demo_sizes: "bytesPerPixel rgb565 = 2" "bytesPerPixel rgb888 = 4"
  by (simp_all add: bytesPerPixel_def rgb565_def rgb888_def mk_format_def updateState_def Let_def)

theorem conversion_shows_source_witness:
  "\<exists>dst'. bufferFromBuffer False rgb565 [0, 0] rgb888 [255, 128, 0, 7] True True 1 1 1 1 = Some dst' \<and>
     length dst' = 2 \<and> shown rgb565 (px 2 0 dst') = rendered rgb565 (shown rgb888 [255, 128, 0, 7])"
proof -
  have f: "fits 0 (bytesPerPixel rgb565) (1 * bytesPerPixel rgb565) 1 1 [0 :: byte, 0]"
    "fits 0 (bytesPerPixel rgb888) (1 * bytesPerPixel rgb888) 1 1 [255 :: byte, 128, 0, 7]"
    by (simp_all add: fits_def demo_sizes)
  from conversion_shows_source [OF demo_formats_ok(1,3) f, of True True] show ?thesis
    by (simp add: demo_sizes px_def numeral_2_eq_2)
qed

theorem rgb_round_trip_witness:
  "\<exists>buf out. bufferFromRGB rgb565 [0, 0] [10, 20, 30] 1 1 1 = Some buf \<and> rgbFromBuffer rgb565 [0, 0, 0] buf 1 1 1 = Some out \<and>
     px 3 0 out = triple_bytes (rendered rgb565 (10, 20, 30))"
proof -
  have f: "fits 0 (bytesPerPixel rgb565) (1 * bytesPerPixel rgb565) 1 1 [0 :: byte, 0]"
    by (simp add: fits_def demo_sizes)
  from rgb_round_trip [OF demo_formats_ok(2) f, of "[10, 20, 30]" "[0, 0, 0]"] show ?thesis
    by (auto simp: px_def rgb_triple_def)
qed

theorem pixel_recoded_witness:
  "pixelFromRGB8 rgb565 (rgbFromPixel8 rgb565 0xabcd1234) = 0xabcd1234 AND colour_mask rgb565"
  by (rule pixel_recoded [OF demo_formats_ok(2)])

end
