(* ===== verification/Cursor_Images.thy ===== *)
theory Cursor_Images
  imports Pixel_Convert
begin

text \<open>
  The images of the cursor messages: \<open>CMsgReader::readSetXCursor\<close>,
  \<open>readSetCursor\<close>, \<open>readSetCursorWithAlpha\<close> and \<open>readSetVMwareCursor\<close> turn
  what the server sent into four bytes per pixel for the handler.
\<close>

definition maxCursorSize :: nat where
  "maxCursorSize = 256"

text \<open>The loops over the rows and columns, each round writing the pixel \<open>f x y\<close>.\<close>

definition each_pixel :: "nat \<Rightarrow> nat \<Rightarrow> (nat \<Rightarrow> nat \<Rightarrow> byte list) \<Rightarrow> byte list" where
  "each_pixel w h f = concat (map (\<lambda>y. concat (map (\<lambda>x. f x y) [0..<w])) [0..<h])"

definition mask_len :: "nat \<Rightarrow> nat \<Rightarrow> nat" where
  "mask_len w h = (w + 7) div 8 * h"

definition mask_bit :: "nat \<Rightarrow> byte list \<Rightarrow> nat \<Rightarrow> nat \<Rightarrow> bool" where
  "mask_bit w bs x y = bit (bs ! (y * ((w + 7) div 8) + x div 8)) (7 - x mod 8)"

definition xcursor_image :: "nat \<Rightarrow> nat \<Rightarrow> byte list \<Rightarrow> byte list \<Rightarrow> byte list \<Rightarrow> byte list \<Rightarrow> byte list" where
  "xcursor_image w h primary secondary bitmap msk = each_pixel w h (\<lambda>x y.
     (if mask_bit w bitmap x y then primary else secondary) @ [if mask_bit w msk x y then 255 else 0])"

text \<open>\<open>rgbFromBuffer(out, in, 1)\<close>\<close>

definition rgb_of :: "pixel_format \<Rightarrow> byte list \<Rightarrow> byte list" where
  "rgb_of pf pixel = (case rgbFromBuffer pf [0, 0, 0] pixel 1 1 1 of None \<Rightarrow> [] | Some rgb \<Rightarrow> rgb)"

definition pixel_at :: "pixel_format \<Rightarrow> nat \<Rightarrow> byte list \<Rightarrow> nat \<Rightarrow> nat \<Rightarrow> byte list" where
  "pixel_at pf w data x y = px (bpp pf div 8) ((y * w + x) * (bpp pf div 8)) data"

definition cursor_image :: "pixel_format \<Rightarrow> nat \<Rightarrow> nat \<Rightarrow> byte list \<Rightarrow> byte list \<Rightarrow> byte list" where
  "cursor_image pf w h data msk = each_pixel w h (\<lambda>x y.
     rgb_of pf (pixel_at pf w data x y) @ [if mask_bit w msk x y then 255 else 0])"

text \<open>The inverting pixels of the AND and XOR masks come out black.\<close>

definition vmware_image :: "pixel_format \<Rightarrow> nat \<Rightarrow> nat \<Rightarrow> byte list \<Rightarrow> byte list \<Rightarrow> byte list" where
  "vmware_image pf w h andMask xorMask = each_pixel w h (\<lambda>x y.
     let andPixel = pixelFromBuffer pf (pixel_at pf w andMask x y);
         xorPixel = pixelFromBuffer pf (pixel_at pf w xorMask x y)
     in if andPixel = 0 then triple_bytes (rgbFromPixel8 pf xorPixel) @ [0xff]
        else if xorPixel = 0 then [0, 0, 0, 0]
        else [0, 0, 0, 0xff])"

text \<open>Four bytes at a time, from premultiplied alpha.\<close>

fun unpremultiply :: "byte list \<Rightarrow> byte list" where
  "unpremultiply (r # g # b # a # rest) =
     (let alpha = (if a = 0 then 1 else unat a); scale = (\<lambda>v :: byte. of_nat (unat v * 255 div alpha))
      in scale r # scale g # scale b # a # unpremultiply rest)"
| "unpremultiply rest = rest"

end
