(* ===== verification/Message_Parts.thy ===== *)
theory Message_Parts
  imports Pixel_Format Core_String
begin

text \<open>
  What the messages of both directions are made of: rectangles and screens, the outcome of
  reading a message from what has arrived, fences, and the extended clipboard messages, whose
  format and code are the same in \<open>CMsgWriter.cxx\<close>, \<open>SMsgWriter.cxx\<close>,
  \<open>SMsgReader.cxx\<close> and \<open>CMsgReader.cxx\<close>. A reader call either finds a message
  incomplete, and then leaves the stream as it was, or consumes it.
\<close>

subsection \<open>Data\<close>

record rect =
  tl_x :: int
  tl_y :: int
  br_x :: int
  br_y :: int

definition mk_rect :: "int \<Rightarrow> int \<Rightarrow> int \<Rightarrow> int \<Rightarrow> rect" where
  "mk_rect x y w h = \<lparr>tl_x = x, tl_y = y, br_x = x + w, br_y = y + h\<rparr>"

definition rect_width :: "rect \<Rightarrow> int" where
  "rect_width r = br_x r - tl_x r"

definition rect_height :: "rect \<Rightarrow> int" where
  "rect_height r = br_y r - tl_y r"

record screen =
  screen_id :: u32
  dimensions :: rect
  screen_flags :: u32

definition clipboardCaps :: u32 where "clipboardCaps = 0x01000000"
definition clipboardRequest :: u32 where "clipboardRequest = 0x02000000"
definition clipboardPeek :: u32 where "clipboardPeek = 0x04000000"
definition clipboardNotify :: u32 where "clipboardNotify = 0x08000000"
definition clipboardProvide :: u32 where "clipboardProvide = 0x10000000"
definition clipboardActionMask :: u32 where "clipboardActionMask = 0xff000000"
definition fenceFlagsSupported :: u32 where "fenceFlagsSupported = 0x80000007"

text \<open>The formats named by the low 16 bits of the clipboard flags.\<close>

definition clip_formats :: "u32 \<Rightarrow> nat list" where
  "clip_formats flags = filter (\<lambda>i. bit flags i) [0..<16]"

subsection \<open>Writing\<close>

datatype write_error = WriteLogic string | OutOfRange string | InvalidArgument string | AssertFailed

type_synonym writing = "write_error + byte list"

definition startMsg :: "nat \<Rightarrow> byte list" where
  "startMsg t = putU8 (of_nat t)"

definition put16 :: "int \<Rightarrow> byte list" where
  "put16 i = putU16 (word_of_int i)"

definition put_screen :: "screen \<Rightarrow> byte list" where
  "put_screen sc = putU32 (screen_id sc) @ put16 (tl_x (dimensions sc)) @ put16 (tl_y (dimensions sc)) @
     put16 (rect_width (dimensions sc)) @ put16 (rect_height (dimensions sc)) @ putU32 (screen_flags sc)"

text \<open>The fence and clipboard messages behind their type byte.\<close>

definition put_fence :: "u32 \<Rightarrow> byte list \<Rightarrow> byte list" where
  "put_fence flags data = pad 3 @ putU32 flags @ putU8 (of_nat (length data)) @ data"

definition put_text :: "byte list \<Rightarrow> byte list" where
  "put_text latin1 = pad 3 @ putU32 (of_nat (length latin1)) @ latin1"

definition put_extended :: "u32 \<Rightarrow> byte list \<Rightarrow> byte list" where
  "put_extended flags bs = pad 3 @ putS32 (- int (4 + length bs)) @ putU32 flags @ bs"

definition put_caps :: "u32 \<Rightarrow> u32 list \<Rightarrow> byte list" where
  "put_caps caps lengths = put_extended (caps OR clipboardCaps) (concat (map putU32 (take (length (clip_formats caps)) lengths)))"

text \<open>\<open>deflate\<close> is what zlib makes of the bytes written to the compressing stream.\<close>

definition put_provide :: "(byte list \<Rightarrow> byte list) \<Rightarrow> u32 \<Rightarrow> byte list list \<Rightarrow> byte list" where
  "put_provide deflate flags data = put_extended (flags OR clipboardProvide)
     (deflate (concat (map (\<lambda>d. putU32 (of_nat (length d)) @ d) (take (length (clip_formats flags)) data))))"

text \<open>
  The text of a cut-text message. \<open>str\<close> is the text without its terminating zero, which
  is behind it in memory; the conversion is called without a length, that is with the
  largest one.
\<close>

definition write_text :: "nat \<Rightarrow> byte list \<Rightarrow> writing" where
  "write_text t str =
     (if CR \<in> set str then Inl (InvalidArgument ''Invalid carriage return in clipboard data'')
      else case utf8ToLatin1 (str @ [0]) (2 ^ 64 - 1) of
        None \<Rightarrow> Inl (OutOfRange ''read past the end of the text'')
      | Some latin1 \<Rightarrow> Inr (startMsg t @ put_text latin1))"

subsection \<open>Reading\<close>

text \<open>
  What a read of a message comes to: not all of it has arrived (the functions return
  false), or it has been consumed, with a call of the handler or, when it is ignored, none.
\<close>

datatype 'c outcome = Incomplete | Done "'c option"

text \<open>\<open>if (!is->hasData(n)) return false;\<close>, and the variant that rewinds.\<close>

definition need :: "nat \<Rightarrow> instream \<Rightarrow> (instream \<Rightarrow> 'c outcome reading) \<Rightarrow> 'c outcome reading" where
  "need n s k = (case hasData n s of (ok, s) \<Rightarrow> if \<not> ok then Inr (Incomplete, s) else k s)"

definition need_or_restore :: "nat \<Rightarrow> instream \<Rightarrow> (instream \<Rightarrow> 'c outcome reading) \<Rightarrow> 'c outcome reading" where
  "need_or_restore n s k =
     ebind (hasDataOrRestore n s) (\<lambda>(ok, s). if \<not> ok then Inr (Incomplete, s) else k s)"

text \<open>A message of two parts: what the inner reader reports decides over the restore point.\<close>

definition settle :: "(instream \<Rightarrow> 'c outcome reading) \<Rightarrow> instream \<Rightarrow> 'c outcome reading" where
  "settle f s = ebind (f s) (\<lambda>(r, s).
     case r of
       Incomplete \<Rightarrow> ebind (gotoRestorePoint s) (\<lambda>s. Inr (Incomplete, s))
     | Done c \<Rightarrow> ebind (clearRestorePoint s) (\<lambda>s. Inr (Done c, s)))"

definition get16 :: "instream \<Rightarrow> int reading" where
  "get16 s = ebind (readU16 s) (\<lambda>(u, s). Inr (uint u, s))"

definition read_screen :: "instream \<Rightarrow> screen reading" where
  "read_screen s =
     ebind (readU32 s) (\<lambda>(i, s). ebind (get16 s) (\<lambda>(sx, s). ebind (get16 s) (\<lambda>(sy, s).
     ebind (get16 s) (\<lambda>(sw, s). ebind (get16 s) (\<lambda>(sh, s). ebind (readU32 s) (\<lambda>(fl, s).
     Inr (\<lparr>screen_id = i, dimensions = mk_rect sx sy sw sh, screen_flags = fl\<rparr>, s)))))))"

definition read_fence :: "(u32 \<Rightarrow> byte list \<Rightarrow> 'c) \<Rightarrow> instream \<Rightarrow> 'c outcome reading" where
  "read_fence wrap s = need (3 + 4 + 1) s (\<lambda>s.
     ebind (setRestorePoint s) (\<lambda>s. ebind (skip 3 s) (\<lambda>s.
     ebind (readU32 s) (\<lambda>(flags, s). ebind (readU8 s) (\<lambda>(len, s).
     need_or_restore (unat len) s (\<lambda>s. ebind (clearRestorePoint s) (\<lambda>s.
     if unat len > 64 then ebind (skip (unat len) s) (\<lambda>s. Inr (Done None, s))
     else ebind (readBytes (unat len) s) (\<lambda>(data, s). Inr (Done (Some (wrap flags data)), s)))))))))"

text \<open>The handler calls of extended clipboard messages.\<close>

datatype clip_call =
    ClipboardCaps u32 "u32 list"
  | ClipboardRequest u32
  | ClipboardPeek
  | ClipboardNotify u32
  | ClipboardProvide u32 "byte list list"

text \<open>
  Draining a clipboard format that is too large from the decompressed data, as far as it is
  at hand at a time.
\<close>

function drain :: "nat \<Rightarrow> instream \<Rightarrow> stream_error + instream" where
  "drain n z =
     (if n = 0 then Inr z
      else case hasData 1 z of
        (False, _) \<Rightarrow> Inl (ProtocolError ''Invalid extended clipboard message'')
      | (True, z1) \<Rightarrow>
          (case avail z1 of (a, z2) \<Rightarrow>
             (case skip (min a n) z2 of
                Inl e \<Rightarrow> Inl e
              | Inr z3 \<Rightarrow> drain (n - min a n) z3)))"
  by pat_completeness auto
termination
  by (relation "measure fst") (auto simp: hasData_def avail_def split: if_splits)

declare drain.simps [simp del]

text \<open>The formats of a provide message: what is kept of the flags, and the data kept.\<close>

fun read_provided :: "nat \<Rightarrow> nat list \<Rightarrow> instream \<Rightarrow> u32 \<Rightarrow> stream_error + u32 \<times> byte list list" where
  "read_provided maxCutText [] z flags = Inr (flags, [])"
| "read_provided maxCutText (i # is) z flags =
     (case hasData 4 z of (ok, z) \<Rightarrow>
        if \<not> ok then Inl (ProtocolError ''Invalid extended clipboard message'')
        else ebind (readU32 z) (\<lambda>(len, z).
          if unat len > maxCutText then
            ebind (drain (unat len) z) (\<lambda>z. read_provided maxCutText is z (flags AND NOT (push_bit i 1)))
          else case hasData (unat len) z of (ok, z) \<Rightarrow>
            if \<not> ok then Inl (ProtocolError ''Invalid extended clipboard message'')
            else ebind (readBytes (unat len) z) (\<lambda>(data, z).
              ebind (read_provided maxCutText is z flags) (\<lambda>(flags, ds). Inr (flags, data # ds)))))"

text \<open>
  \<open>inflate\<close> is what zlib makes of the whole payload, \<open>None\<close> when it is damaged.
\<close>

definition extended_action ::
    "(clip_call \<Rightarrow> 'c) \<Rightarrow> (byte list \<Rightarrow> byte list option) \<Rightarrow> nat \<Rightarrow> int \<Rightarrow> u32 \<Rightarrow> instream \<Rightarrow> 'c outcome reading" where
  "extended_action wrap inflate maxCutText len flags s =
     (let action = flags AND clipboardActionMask; formats = clip_formats flags in
       if action AND clipboardCaps \<noteq> 0 then
         if len < int (4 + 4 * length formats) then Inl (ProtocolError ''Invalid extended clipboard message'')
         else ebind (read_n (length formats) readU32 s) (\<lambda>(lengths, s).
           Inr (Done (Some (wrap (ClipboardCaps flags lengths))), s))
       else if action = clipboardProvide then
         ebind (readBytes (nat (len - 4)) s) (\<lambda>(payload, s).
           case inflate payload of
             None \<Rightarrow> Inl (ProtocolError ''Failed to decompress data'')
           | Some out \<Rightarrow> ebind (read_provided maxCutText formats (mem_stream out) flags) (\<lambda>(flags, ds).
               Inr (Done (Some (wrap (ClipboardProvide flags ds))), s)))
       else if action = clipboardRequest then Inr (Done (Some (wrap (ClipboardRequest flags))), s)
       else if action = clipboardPeek then Inr (Done (Some (wrap ClipboardPeek)), s)
       else if action = clipboardNotify then Inr (Done (Some (wrap (ClipboardNotify flags))), s)
       else Inl (ProtocolError ''Invalid extended clipboard message''))"

text \<open>A negative length becomes a huge \<open>size_t\<close> in the first test.\<close>

definition readExtendedClipboard ::
    "(clip_call \<Rightarrow> 'c) \<Rightarrow> (byte list \<Rightarrow> byte list option) \<Rightarrow> nat \<Rightarrow> int \<Rightarrow> instream \<Rightarrow> 'c outcome reading" where
  "readExtendedClipboard wrap inflate maxCutText len s = need (nat (len mod 2 ^ 64)) s (\<lambda>s.
     if len < 4 then Inl (ProtocolError ''Invalid extended clipboard message'')
     else if len > int maxCutText then ebind (skip (nat len) s) (\<lambda>s. Inr (Done None, s))
     else ebind (readU32 s) (\<lambda>(flags, s). extended_action wrap inflate maxCutText len flags s))"

text \<open>The text of a clipboard message: Latin-1 to UTF-8, line endings, up to a zero byte.\<close>

definition cut_text :: "byte list \<Rightarrow> byte list option" where
  "cut_text ca = (case latin1ToUTF8 ca (length ca) of
     None \<Rightarrow> None
   | Some utf8 \<Rightarrow> map_option append_buf (convertLF utf8 (length utf8)))"

end
