(* ===== verification/Reader_Logic.thy ===== *)
theory Reader_Logic
  imports Message_Parts
begin

text \<open>
  Two views of message readers, each closed under the ways the readers are put together.
  \<open>local\<close>: what a reader has decided does not change when more bytes arrive behind.
  \<open>triple\<close>: from a stream in a known state a reader throws nothing but protocol errors
  and ends in a known state; the state tells how many bytes have been checked for, and what a
  rewind would bring back.
\<close>

named_theorems local_rules \<open>composition of readers that do not look ahead\<close>
named_theorems triple_rules \<open>composition of reader specifications\<close>

lemma arrive_simps [simp]:
  "unread (arrive b s) = unread s @ b" "past (arrive b s) = past s" "checkedBytes (arrive b s) = checkedBytes s"
  by (simp_all add: arrive_def)

subsection \<open>Later bytes do not matter\<close>

definition local_read :: "(instream \<Rightarrow> 'a reading) \<Rightarrow> bool" where
  "local_read f \<longleftrightarrow>
     (\<forall>s b x s'. f s = Inr (x, s') \<longrightarrow> f (arrive b s) = Inr (x, arrive b s')) \<and>
     (\<forall>s b m. f s = Inl (ProtocolError m) \<longrightarrow> f (arrive b s) = Inl (ProtocolError m))"

definition local_move :: "(instream \<Rightarrow> stream_error + instream) \<Rightarrow> bool" where
  "local_move f \<longleftrightarrow>
     (\<forall>s b s'. f s = Inr s' \<longrightarrow> f (arrive b s) = Inr (arrive b s')) \<and>
     (\<forall>s b m. f s = Inl (ProtocolError m) \<longrightarrow> f (arrive b s) = Inl (ProtocolError m))"

text \<open>A reader of messages may change its mind only on an incomplete one.\<close>

definition local_msg :: "(instream \<Rightarrow> 'c outcome reading) \<Rightarrow> bool" where
  "local_msg f \<longleftrightarrow>
     (\<forall>s b c s'. f s = Inr (Done c, s') \<longrightarrow> f (arrive b s) = Inr (Done c, arrive b s')) \<and>
     (\<forall>s b m. f s = Inl (ProtocolError m) \<longrightarrow> f (arrive b s) = Inl (ProtocolError m))"

lemma local_readD:
  "local_read f \<Longrightarrow> f s = Inr (x, s') \<Longrightarrow> f (arrive b s) = Inr (x, arrive b s')"
  "local_read f \<Longrightarrow> f s = Inl (ProtocolError m) \<Longrightarrow> f (arrive b s) = Inl (ProtocolError m)"
  by (simp_all add: local_read_def)

lemma local_moveD:
  "local_move f \<Longrightarrow> f s = Inr s' \<Longrightarrow> f (arrive b s) = Inr (arrive b s')"
  "local_move f \<Longrightarrow> f s = Inl (ProtocolError m) \<Longrightarrow> f (arrive b s) = Inl (ProtocolError m)"
  by (simp_all add: local_move_def)

lemma local_msgD:
  "local_msg f \<Longrightarrow> f s = Inr (Done c, s') \<Longrightarrow> f (arrive b s) = Inr (Done c, arrive b s')"
  "local_msg f \<Longrightarrow> f s = Inl (ProtocolError m) \<Longrightarrow> f (arrive b s) = Inl (ProtocolError m)"
  by (simp_all add: local_msg_def)

lemma local_return [local_rules]: "local_read (\<lambda>s. Inr (x, s))" "local_msg (\<lambda>s. Inr (r, s))"
  by (simp_all add: local_read_def local_msg_def)

lemma local_throw [local_rules]: "local_read (\<lambda>s. Inl e)" "local_msg (\<lambda>s. Inl e)"
  by (simp_all add: local_read_def local_msg_def)

lemma local_bind [local_rules]:
  assumes f: "local_read f"
  shows "(\<And>x. local_read (g x)) \<Longrightarrow> local_read (\<lambda>s. ebind (f s) (\<lambda>(x, s). g x s))"
    and "(\<And>x. local_msg (h x)) \<Longrightarrow> local_msg (\<lambda>s. ebind (f s) (\<lambda>(x, s). h x s))"
  unfolding local_read_def local_msg_def
  by (auto simp: ebind_eq_Inr ebind_eq_Inl local_readD [OF f] local_read_def local_msg_def)

lemma local_bind_move [local_rules]:
  assumes f: "local_move f"
  shows "local_read g \<Longrightarrow> local_read (\<lambda>s. ebind (f s) g)"
    and "local_msg h \<Longrightarrow> local_msg (\<lambda>s. ebind (f s) h)"
  unfolding local_read_def local_msg_def
  by (auto simp: ebind_eq_Inr ebind_eq_Inl local_moveD [OF f] local_read_def local_msg_def)

lemma arrive_update:
  "(arrive b s)\<lparr>checkedBytes := n\<rparr> = arrive b (s\<lparr>checkedBytes := n\<rparr>)"
  "(arrive b s)\<lparr>past := p\<rparr> = arrive b (s\<lparr>past := p\<rparr>)"
  by (simp_all add: arrive_def)

lemma hasData_arrive: "hasData n s = (True, s') \<Longrightarrow> hasData n (arrive b s) = (True, arrive b s')"
  by (auto simp: hasData_def arrive_update split: if_splits)

lemma local_msgI:
  assumes "\<And>s b c s'. f s = Inr (Done c, s') \<Longrightarrow> f (arrive b s) = Inr (Done c, arrive b s')"
    and "\<And>s b m. f s = Inl (ProtocolError m) \<Longrightarrow> f (arrive b s) = Inl (ProtocolError m)"
  shows "local_msg f"
  using assms by (simp add: local_msg_def)

text \<open>The common core of \<open>need\<close> and \<open>need_or_restore\<close>.\<close>

lemma local_guard:
  assumes "local_msg k"
    and "\<And>s s1. hasData n s = (True, s1) \<Longrightarrow> f s = k s1"
    and "\<And>s s1 c s'. hasData n s = (False, s1) \<Longrightarrow> f s \<noteq> Inr (Done c, s')"
    and "\<And>s s1 m. hasData n s = (False, s1) \<Longrightarrow> f s \<noteq> Inl (ProtocolError m)"
  shows "local_msg f"
proof (rule local_msgI)
  fix s b c s' assume f: "f s = Inr (Done c, s')"
  obtain ok s1 where h: "hasData n s = (ok, s1)" by fastforce
  with f assms(3) have ok by (cases ok) auto
  with h have h: "hasData n s = (True, s1)" by simp
  with f assms(2) have "k s1 = Inr (Done c, s')" by simp
  from local_msgD(1) [OF assms(1) this] show "f (arrive b s) = Inr (Done c, arrive b s')"
    using assms(2) [OF hasData_arrive [OF h]] by simp
next
  fix s b m assume f: "f s = Inl (ProtocolError m)"
  obtain ok s1 where h: "hasData n s = (ok, s1)" by fastforce
  with f assms(4) have ok by (cases ok) auto
  with h have h: "hasData n s = (True, s1)" by simp
  with f assms(2) have "k s1 = Inl (ProtocolError m)" by simp
  from local_msgD(2) [OF assms(1) this] show "f (arrive b s) = Inl (ProtocolError m)"
    using assms(2) [OF hasData_arrive [OF h]] by simp
qed

lemma local_need [local_rules]: "local_msg k \<Longrightarrow> local_msg (\<lambda>s. need n s k)"
  by (erule local_guard [where n = n]) (auto simp: need_def)

lemma local_check_advance:
  "local_read (\<lambda>s. ebind (check n s) (\<lambda>s. case advance n s of (bs, s) \<Rightarrow> Inr (f bs, s)))"
  by (auto simp: local_read_def check_def advance_def arrive_def split: if_splits)

lemma local_reads [local_rules]: "local_read readU8" "local_read readU16" "local_read readU32"
  using local_check_advance [of 1 "\<lambda>b. b ! 0"]
    local_check_advance [of 2 "\<lambda>b. push_bit 8 (ucast (b ! 0)) OR ucast (b ! 1)"]
    local_check_advance [of 4 "\<lambda>b. push_bit 24 (ucast (b ! 0)) OR push_bit 16 (ucast (b ! 1)) OR push_bit 8 (ucast (b ! 2)) OR ucast (b ! 3)"]
  unfolding readU8_def [abs_def] readU16_def [abs_def] readU32_def [abs_def] by simp_all

lemma local_readBytes [local_rules]: "local_read (readBytes n)"
  using local_check_advance [of n "\<lambda>b. b"]
  by (cases "n = 0") (simp_all add: local_read_def readBytes_def [abs_def])

lemma local_skip [local_rules]: "local_move (skip n)"
  by (auto simp: local_move_def skip_def check_def advance_def arrive_def split: if_splits)

lemma local_restore [local_rules]: "local_move setRestorePoint" "local_move clearRestorePoint" "local_move gotoRestorePoint"
  by (auto simp: local_move_def setRestorePoint_def clearRestorePoint_def gotoRestorePoint_def arrive_def
      split: if_splits option.splits)

lemma local_need_or_restore [local_rules]: "local_msg k \<Longrightarrow> local_msg (\<lambda>s. need_or_restore n s k)"
  by (erule local_guard [where n = n])
    (auto simp: need_or_restore_def hasDataOrRestore_def gotoRestorePoint_def clearRestorePoint_def
      split: option.splits if_splits)

lemma local_read_n [local_rules]:
  assumes "local_read get"
  shows "local_read (read_n n get)"
proof (induction n)
  case 0
  show ?case unfolding read_n.simps [abs_def] by (rule local_rules)
next
  case (Suc n)
  show ?case unfolding read_n.simps [abs_def]
    by (intro local_rules assms Suc)
qed

lemma local_if [local_rules]:
  "local_read f \<Longrightarrow> local_read g \<Longrightarrow> local_read (\<lambda>s. if b then f s else g s)"
  "local_msg h \<Longrightarrow> local_msg k \<Longrightarrow> local_msg (\<lambda>s. if b then h s else k s)"
  by (cases b; simp)+

lemma local_get16 [local_rules]: "local_read get16"
  unfolding get16_def [abs_def] by (intro local_rules)

lemma local_read_format [local_rules]: "local_read (read_format hostBig)"
  unfolding read_format_def [abs_def] Let_def by (intro local_rules)

lemma local_read_screen [local_rules]: "local_read read_screen"
  unfolding read_screen_def [abs_def] by (intro local_rules)

lemma restore_errors: "gotoRestorePoint s \<noteq> Inl (ProtocolError m)" "clearRestorePoint s \<noteq> Inl (ProtocolError m)"
  by (auto simp: gotoRestorePoint_def clearRestorePoint_def split: option.splits if_splits)

lemma local_settle [local_rules]:
  assumes f: "local_msg f"
  shows "local_msg (settle f)"
proof (rule local_msgI)
  fix s b c s' assume s: "settle f s = Inr (Done c, s')"
  then obtain r s1 where r: "f s = Inr (r, s1)" by (cases "f s") (auto simp: settle_def)
  from s r obtain "r = Done c" "clearRestorePoint s1 = Inr s'"
    by (cases r) (auto simp: settle_def ebind_eq_Inr)
  then show "settle f (arrive b s) = Inr (Done c, arrive b s')"
    using r local_msgD(1) [OF f, of s c s1 b] local_moveD(1) [OF local_restore(2), of s1 s' b] by (simp add: settle_def)
next
  fix s b m assume s: "settle f s = Inl (ProtocolError m)"
  have "f s = Inl (ProtocolError m)"
  proof (cases "f s")
    case (Inl e)
    then show ?thesis using s by (simp add: settle_def)
  next
    case (Inr z)
    then obtain r s1 where "f s = Inr (r, s1)" by (cases z) simp
    then show ?thesis using s by (cases r) (auto simp: settle_def ebind_eq_Inl restore_errors)
  qed
  then show "settle f (arrive b s) = Inl (ProtocolError m)"
    using local_msgD(2) [OF f, of s m b] by (simp add: settle_def)
qed

lemma local_option [local_rules]:
  "local_msg f \<Longrightarrow> (\<And>x. local_msg (g x)) \<Longrightarrow> local_msg (\<lambda>s. case v of None \<Rightarrow> f s | Some x \<Rightarrow> g x s)"
  by (cases v) simp_all

lemma local_pure [local_rules]:
  assumes "\<And>x y. local_msg (g x y)"
  shows "local_msg (\<lambda>s. ebind r (\<lambda>(x, y). g x y s))"
proof (cases r)
  case (Inl e)
  then show ?thesis by (simp add: local_rules)
next
  case (Inr z)
  then show ?thesis using assms by (cases z) simp
qed

lemma local_extended [local_rules]: "local_msg (readExtendedClipboard wrap inflate maxCutText len)"
  unfolding readExtendedClipboard_def [abs_def] extended_action_def Let_def by (intro local_rules)+

lemma local_fence [local_rules]: "local_msg (read_fence wrap)"
  unfolding read_fence_def [abs_def] by (intro local_rules)

subsection \<open>Reader specifications\<close>

text \<open>
  The state of a stream amid a message: whether a restore point is set, the bytes that were
  there when the message started, and the number of bytes checked for, at least.
\<close>

type_synonym mode = "bool \<times> byte list"

definition stat :: "mode \<Rightarrow> nat \<Rightarrow> instream \<Rightarrow> bool" where
  "stat m c s \<longleftrightarrow>
     (\<exists>p. p @ unread s = snd m \<and> past s = (if fst m then Some p else None)) \<and>
     c \<le> checkedBytes s \<and> checkedBytes s \<le> length (unread s)"

definition is_protocol :: "stream_error \<Rightarrow> bool" where
  "is_protocol e \<longleftrightarrow> (\<exists>m. e = ProtocolError m)"

definition reads :: "mode \<Rightarrow> nat \<Rightarrow> nat \<Rightarrow> (instream \<Rightarrow> 'a reading) \<Rightarrow> bool" where
  "reads m c c' f \<longleftrightarrow> (\<forall>s. stat m c s \<longrightarrow> (case f s of Inr (x, s') \<Rightarrow> stat m c' s' | Inl e \<Rightarrow> is_protocol e))"

definition moves :: "mode \<Rightarrow> nat \<Rightarrow> mode \<Rightarrow> nat \<Rightarrow> (instream \<Rightarrow> stream_error + instream) \<Rightarrow> bool" where
  "moves m c m' c' f \<longleftrightarrow> (\<forall>s. stat m c s \<longrightarrow> (case f s of Inr s' \<Rightarrow> stat m' c' s' | Inl e \<Rightarrow> is_protocol e))"

definition outcome_ok :: "mode \<Rightarrow> stream_error + 'c outcome \<times> instream \<Rightarrow> bool" where
  "outcome_ok m r = (case r of
     Inl e \<Rightarrow> is_protocol e
   | Inr (Done c, s') \<Rightarrow> past s' = None \<and> (\<exists>p. p @ unread s' = snd m)
   | Inr (Incomplete, s') \<Rightarrow> past s' = None \<and> m = (True, unread s'))"

definition messages :: "mode \<Rightarrow> nat \<Rightarrow> (instream \<Rightarrow> 'c outcome reading) \<Rightarrow> bool" where
  "messages m c f \<longleftrightarrow> (\<forall>s. stat m c s \<longrightarrow> outcome_ok m (f s))"

text \<open>A message reader called between messages.\<close>

definition message_reader :: "(instream \<Rightarrow> 'c outcome reading) \<Rightarrow> bool" where
  "message_reader f \<longleftrightarrow> (\<forall>s. past s = None \<longrightarrow> outcome_ok (True, unread s) (f s))"

lemma reads_return [triple_rules]: "c' \<le> c \<Longrightarrow> reads m c c' (\<lambda>s. Inr (x, s))"
  by (auto simp: reads_def stat_def)

lemma reads_throw [triple_rules]: "reads m c c' (\<lambda>s. Inl (ProtocolError e))"
  by (simp add: reads_def is_protocol_def)

lemma reads_bind [triple_rules]:
  assumes "reads m c c1 f" and "\<And>x. reads m c1 c2 (g x)"
  shows "reads m c c2 (\<lambda>s. ebind (f s) (\<lambda>(x, s). g x s))"
  unfolding reads_def
proof (intro allI impI)
  fix s assume "stat m c s"
  with assms(1) have f: "case f s of Inr (x, s') \<Rightarrow> stat m c1 s' | Inl e \<Rightarrow> is_protocol e" by (simp add: reads_def)
  show "case ebind (f s) (\<lambda>(x, s). g x s) of Inr (x, s') \<Rightarrow> stat m c2 s' | Inl e \<Rightarrow> is_protocol e"
    using f assms(2) by (cases "f s") (auto simp: reads_def)
qed

lemma reads_bind_move [triple_rules]:
  assumes "moves m c m1 c1 f" and "reads m1 c1 c2 g" and "m1 = m"
  shows "reads m c c2 (\<lambda>s. ebind (f s) g)"
  unfolding reads_def
proof (intro allI impI)
  fix s assume "stat m c s"
  with assms(1) have f: "case f s of Inr s' \<Rightarrow> stat m1 c1 s' | Inl e \<Rightarrow> is_protocol e" by (simp add: moves_def)
  show "case ebind (f s) g of Inr (x, s') \<Rightarrow> stat m c2 s' | Inl e \<Rightarrow> is_protocol e"
    using f assms(2,3) by (cases "f s") (auto simp: reads_def)
qed

lemma reads_if [triple_rules]:
  "(b \<Longrightarrow> reads m c c' f) \<Longrightarrow> (\<not> b \<Longrightarrow> reads m c c' g) \<Longrightarrow> reads m c c' (\<lambda>s. if b then f s else g s)"
  by (cases b) simp_all

lemma messages_bind [triple_rules]:
  assumes "reads m c c1 f" and "\<And>x. messages m c1 (g x)"
  shows "messages m c (\<lambda>s. ebind (f s) (\<lambda>(x, s). g x s))"
  unfolding messages_def
proof (intro allI impI)
  fix s assume "stat m c s"
  with assms(1) have f: "case f s of Inr (x, s') \<Rightarrow> stat m c1 s' | Inl e \<Rightarrow> is_protocol e" by (simp add: reads_def)
  show "outcome_ok m (ebind (f s) (\<lambda>(x, s). g x s))"
    using f assms(2) by (cases "f s") (auto simp: messages_def outcome_ok_def)
qed

lemma messages_bind_move [triple_rules]:
  assumes "moves m c m1 c1 f" and "messages m1 c1 g" and "m1 = m \<or> m1 = (False, snd m)"
  shows "messages m c (\<lambda>s. ebind (f s) g)"
  unfolding messages_def
proof (intro allI impI)
  fix s assume "stat m c s"
  with assms(1) have f: "case f s of Inr s' \<Rightarrow> stat m1 c1 s' | Inl e \<Rightarrow> is_protocol e" by (simp add: moves_def)
  have w: "outcome_ok (False, snd m) r \<Longrightarrow> outcome_ok m r" for r
    by (auto simp: outcome_ok_def split: sum.splits prod.splits outcome.splits)
  show "outcome_ok m (ebind (f s) g)"
  proof (cases "f s")
    case (Inl e)
    then show ?thesis using f by (simp add: outcome_ok_def)
  next
    case (Inr s')
    then have "outcome_ok m1 (g s')" using f assms(2) by (simp add: messages_def)
    then show ?thesis using Inr assms(3) w by auto
  qed
qed

lemma messages_if [triple_rules]:
  "(b \<Longrightarrow> messages m c f) \<Longrightarrow> (\<not> b \<Longrightarrow> messages m c g) \<Longrightarrow> messages m c (\<lambda>s. if b then f s else g s)"
  by (cases b) simp_all

lemma messages_done [triple_rules]: "messages (False, u) c (\<lambda>s. Inr (Done x, s))"
  by (simp add: messages_def outcome_ok_def stat_def)

lemma messages_throw [triple_rules]: "messages m c (\<lambda>s. Inl (ProtocolError e))"
  by (simp add: messages_def outcome_ok_def is_protocol_def)

subsection \<open>Specifications of the stream operations\<close>

lemma stat_weaken: "stat m c s \<Longrightarrow> c' \<le> c \<Longrightarrow> stat m c' s"
  by (auto simp: stat_def)

lemma stat_check:
  assumes "stat m c s" and "n \<le> c"
  shows "check n s = Inr (s\<lparr>checkedBytes := checkedBytes s - n\<rparr>)"
    and "stat m (c - n) (snd (advance n (s\<lparr>checkedBytes := checkedBytes s - n\<rparr>)))"
proof -
  from assms(1) obtain p where p: "p @ unread s = snd m" "past s = (if fst m then Some p else None)"
      and c: "c \<le> checkedBytes s" "checkedBytes s \<le> length (unread s)"
    by (auto simp: stat_def)
  with assms(2) show "check n s = Inr (s\<lparr>checkedBytes := checkedBytes s - n\<rparr>)"
    by (simp add: check_def)
  have "(p @ take n (unread s)) @ drop n (unread s) = snd m" using p by simp
  moreover have "c - n \<le> checkedBytes s - n" "checkedBytes s - n \<le> length (unread s) - n" using c by auto
  ultimately show "stat m (c - n) (snd (advance n (s\<lparr>checkedBytes := checkedBytes s - n\<rparr>)))"
    unfolding stat_def advance_def using p by (auto intro: exI [of _ "p @ take n (unread s)"])
qed

lemma reads_check_advance:
  assumes "n \<le> c"
  shows "reads m c (c - n) (\<lambda>s. ebind (check n s) (\<lambda>s. case advance n s of (bs, s) \<Rightarrow> Inr (f bs, s)))"
  unfolding reads_def
proof (intro allI impI)
  fix s assume "stat m c s"
  from stat_check [OF this assms]
  show "case ebind (check n s) (\<lambda>s. case advance n s of (bs, s) \<Rightarrow> Inr (f bs, s)) of
      Inr (x, s') \<Rightarrow> stat m (c - n) s' | Inl e \<Rightarrow> is_protocol e"
    by (cases "advance n (s\<lparr>checkedBytes := checkedBytes s - n\<rparr>)") simp
qed

lemma reads_widths [triple_rules]:
  "1 \<le> c \<Longrightarrow> reads m c (c - 1) readU8" "2 \<le> c \<Longrightarrow> reads m c (c - 2) readU16" "4 \<le> c \<Longrightarrow> reads m c (c - 4) readU32"
  using reads_check_advance [of 1 c m "\<lambda>b. b ! 0"]
    reads_check_advance [of 2 c m "\<lambda>b. push_bit 8 (ucast (b ! 0)) OR ucast (b ! 1)"]
    reads_check_advance [of 4 c m "\<lambda>b. push_bit 24 (ucast (b ! 0)) OR push_bit 16 (ucast (b ! 1)) OR push_bit 8 (ucast (b ! 2)) OR ucast (b ! 3)"]
  unfolding readU8_def [abs_def] readU16_def [abs_def] readU32_def [abs_def] by simp_all

lemma reads_bytes [triple_rules]: "n \<le> c \<Longrightarrow> reads m c (c - n) (readBytes n)"
  using reads_check_advance [of n c m "\<lambda>b. b"]
  by (cases "n = 0") (auto simp: readBytes_def [abs_def] reads_def)

lemma moves_skip [triple_rules]: "n \<le> c \<Longrightarrow> moves m c m (c - n) (skip n)"
  using reads_check_advance [of n c m "\<lambda>b. ()"]
  unfolding reads_def moves_def skip_def [abs_def]
  by (auto simp: check_def advance_def)

lemma moves_clear [triple_rules]: "moves (True, u) c (False, u) c clearRestorePoint"
  by (auto simp: moves_def stat_def clearRestorePoint_def)

lemma reads_get16 [triple_rules]: "2 \<le> c \<Longrightarrow> reads m c (c - 2) get16"
  unfolding get16_def [abs_def] by (rule triple_rules | simp)+

lemma reads_read_format [triple_rules]: "16 \<le> c \<Longrightarrow> reads m c (c - 16) (read_format hostBig)"
  unfolding read_format_def [abs_def] Let_def by (rule triple_rules | simp)+

lemma reads_read_screen [triple_rules]: "16 \<le> c \<Longrightarrow> reads m c (c - 16) read_screen"
  unfolding read_screen_def [abs_def] by (rule triple_rules | simp)+

lemma reads_read_n [triple_rules]:
  assumes get: "\<And>c. w \<le> c \<Longrightarrow> reads m c (c - w) get" and "n * w \<le> c"
  shows "reads m c (c - n * w) (read_n n get)"
  using assms(2)
proof (induction n arbitrary: c)
  case 0
  show ?case unfolding read_n.simps [abs_def] by (rule triple_rules | simp)+
next
  case (Suc n)
  have "reads m c (c - w) get" "reads m (c - w) (c - w - n * w) (read_n n get)"
    using Suc(1) [of "c - w"] Suc(2) get by simp_all
  then have "reads m c (c - w - n * w) (\<lambda>s. ebind (get s) (\<lambda>(x, s). ebind (read_n n get s) (\<lambda>(xs, s). Inr (x # xs, s))))"
    by (auto intro: reads_bind reads_return)
  then show ?case by (simp add: diff_diff_left)
qed

lemma reads_need [triple_rules]: "reads m n 0 k \<Longrightarrow> reads m c 0 (\<lambda>s. need n s k)"
  by (cases m) (auto simp: reads_def need_def hasData_def stat_def)

lemma messages_settle [triple_rules]: "reads (True, u) c 0 f \<Longrightarrow> messages (True, u) c (settle f)"
  unfolding messages_def
proof (intro allI impI)
  fix s assume f: "reads (True, u) c 0 f" and s: "stat (True, u) c s"
  show "outcome_ok (True, u) (settle f s)"
  proof (cases "f s")
    case (Inl e)
    then show ?thesis using f s by (auto simp: reads_def settle_def outcome_ok_def)
  next
    case (Inr z)
    then obtain r s1 where z: "f s = Inr (r, s1)" by (cases z) simp
    then have "stat (True, u) 0 s1" using f s by (auto simp: reads_def)
    then show ?thesis using z
      by (cases r) (auto simp: settle_def outcome_ok_def stat_def gotoRestorePoint_def clearRestorePoint_def)
  qed
qed

lemma messages_need_or_restore [triple_rules]:
  "messages (True, u) n k \<Longrightarrow> messages (True, u) c (\<lambda>s. need_or_restore n s k)"
  by (auto simp: messages_def need_or_restore_def hasDataOrRestore_def hasData_def stat_def outcome_ok_def
      gotoRestorePoint_def clearRestorePoint_def)

text \<open>The two ways a message starts.\<close>

lemma reader_restore:
  assumes "\<And>u. messages (True, u) n g"
  shows "message_reader (\<lambda>s. need n s (\<lambda>s. ebind (setRestorePoint s) g))"
  using assms
  by (auto simp: message_reader_def need_def hasData_def setRestorePoint_def messages_def stat_def outcome_ok_def)

lemma reader_plain:
  assumes "\<And>u. messages (False, u) n k"
  shows "message_reader (\<lambda>s. need n s k)"
  unfolding message_reader_def
proof (intro allI impI)
  fix s :: instream assume p: "past s = None"
  have w: "outcome_ok (False, u) r \<Longrightarrow> outcome_ok (True, u) r" for r u
    by (auto simp: outcome_ok_def split: sum.splits prod.splits outcome.splits)
  show "outcome_ok (True, unread s) (need n s k)"
  proof (cases "n \<le> length (unread s)")
    case True
    then have "outcome_ok (False, unread s) (k (s\<lparr>checkedBytes := n\<rparr>))"
      using assms p by (auto simp: messages_def stat_def)
    then show ?thesis using True w by (simp add: need_def hasData_def)
  next
    case False
    then show ?thesis using p by (simp add: need_def hasData_def outcome_ok_def)
  qed
qed

subsection \<open>Clipboard data\<close>

text \<open>The decompressed data of a provide message, a stream of its own.\<close>

lemma drain_stat: "stat (False, u) 0 z \<Longrightarrow> case drain n z of Inr z' \<Rightarrow> stat (False, u) 0 z' | Inl e \<Rightarrow> is_protocol e"
proof (induction n z rule: drain.induct)
  case (1 n z)
  show ?case
  proof (cases "n = 0 \<or> unread z = []")
    case True
    then show ?thesis using 1(2) by (subst drain.simps) (auto simp: hasData_def is_protocol_def)
  next
    case False
    define a where "a = length (unread z)"
    define z2 where "z2 = z\<lparr>checkedBytes := length (unread z)\<rparr>"
    have z: "hasData 1 z = (True, z\<lparr>checkedBytes := 1\<rparr>)" "avail (z\<lparr>checkedBytes := 1\<rparr>) = (a, z2)"
      using False by (simp_all add: hasData_def avail_def a_def z2_def Suc_le_eq)
    have "stat (False, u) a z2" using 1(2) by (simp add: stat_def a_def z2_def)
    then obtain z3 where z3: "skip (min a n) z2 = Inr z3" "stat (False, u) 0 z3"
      using stat_check [of "(False, u)" a z2 "min a n"] stat_weaken [of "(False, u)" "a - min a n" _ 0]
      by (auto simp: skip_def)
    have "case drain (n - min a n) z3 of Inr z' \<Rightarrow> stat (False, u) 0 z' | Inl e \<Rightarrow> is_protocol e"
      using False z z3 by (intro 1(1)) auto
    then show ?thesis using False z z3 by (subst drain.simps) simp
  qed
qed

definition ends :: "nat \<Rightarrow> (instream \<Rightarrow> stream_error + 'a) \<Rightarrow> bool" where
  "ends c f \<longleftrightarrow> (\<forall>u z. stat (False, u) c z \<longrightarrow> (\<forall>e. f z = Inl e \<longrightarrow> is_protocol e))"

lemma ends_rules:
  "ends c (\<lambda>z. Inr x)"
  "(b \<Longrightarrow> ends c f) \<Longrightarrow> (\<not> b \<Longrightarrow> ends c g) \<Longrightarrow> ends c (\<lambda>z. if b then f z else g z)"
  "ends n k \<Longrightarrow> ends c (\<lambda>z. case hasData n z of (ok, z) \<Rightarrow> if \<not> ok then Inl (ProtocolError e) else k z)"
  "ends c f \<Longrightarrow> ends c (\<lambda>z. ebind (f z) (\<lambda>(x, y). Inr (h x y)))"
proof -
  show "ends c (\<lambda>z. case hasData n z of (ok, z) \<Rightarrow> if \<not> ok then Inl (ProtocolError e) else k z)" if k: "ends n k"
    unfolding ends_def
  proof (intro allI impI)
    fix u and z :: instream and e' assume "stat (False, u) c z" and e': "(case hasData n z of (ok, z) \<Rightarrow> if \<not> ok then Inl (ProtocolError e) else k z) = Inl e'"
    then have "stat (False, u) n (z\<lparr>checkedBytes := n\<rparr>)" if "n \<le> length (unread z)" using that by (simp add: stat_def)
    with k e' show "is_protocol e'" by (auto simp: ends_def hasData_def is_protocol_def split: if_splits)
  qed
qed (cases b; auto simp: ends_def ebind_eq_Inl)+

lemma ends_bind:
  assumes "\<And>u. reads (False, u) c c1 f" and "\<And>x. ends c1 (g x)"
  shows "ends c (\<lambda>z. ebind (f z) (\<lambda>(x, z). g x z))"
  unfolding ends_def
proof (intro allI impI)
  fix u z e assume "stat (False, u) c z" and e: "ebind (f z) (\<lambda>(x, z). g x z) = Inl e"
  with assms(1) have f: "case f z of Inr (x, s') \<Rightarrow> stat (False, u) c1 s' | Inl e \<Rightarrow> is_protocol e" by (simp add: reads_def)
  show "is_protocol e" using f e assms(2) by (cases "f z") (auto simp: ends_def)
qed

lemma ends_drain:
  assumes "ends 0 g"
  shows "ends c (\<lambda>z. ebind (drain n z) g)"
  unfolding ends_def
proof (intro allI impI)
  fix u z e assume "stat (False, u) c z" and e: "ebind (drain n z) g = Inl e"
  then have "stat (False, u) 0 z" by (simp add: stat_def)
  from drain_stat [OF this, of n] show "is_protocol e"
    using e assms by (cases "drain n z") (auto simp: ends_def)
qed

lemma ends_read_provided: "ends c (\<lambda>z. read_provided maxCutText is z flags)"
proof (induction "is" arbitrary: flags c)
  case Nil
  show ?case by (simp add: ends_rules)
next
  case (Cons i "is")
  show ?case unfolding read_provided.simps
    by (rule ends_rules ends_drain ends_bind triple_rules Cons | simp)+
qed

lemma reads_provided [triple_rules]:
  assumes "\<And>x y. reads m c c' (g x y)"
  shows "reads m c c' (\<lambda>s. ebind (read_provided maxCutText is (mem_stream out) flags) (\<lambda>(x, y). g x y s))"
proof (cases "read_provided maxCutText is (mem_stream out) flags")
  case (Inl e)
  moreover have "stat (False, out) 0 (mem_stream out)" by (simp add: stat_def mem_stream_def)
  ultimately have "is_protocol e" using ends_read_provided by (auto simp: ends_def)
  then show ?thesis using Inl by (simp add: reads_def)
next
  case (Inr z)
  then show ?thesis using assms by (cases z) simp
qed

lemma reads_option [triple_rules]:
  "reads m c c' f \<Longrightarrow> (\<And>x. reads m c c' (g x)) \<Longrightarrow> reads m c c' (\<lambda>s. case v of None \<Rightarrow> f s | Some x \<Rightarrow> g x s)"
  by (cases v) simp_all

lemma reads_extended:
  assumes "len < 2 ^ 31"
  shows "reads m c 0 (readExtendedClipboard wrap inflate maxCutText len)"
proof -
  have "nat (len mod 2 ^ 64) = nat len" if "\<not> len < 4" using assms that by simp
  then show ?thesis unfolding readExtendedClipboard_def [abs_def] extended_action_def Let_def
    by - (rule triple_rules | simp)+
qed

text \<open>The two conversions of a clipboard text never look behind it.\<close>

lemma latin1_char_Cons [simp]: "latin1_char (b # bs) n = Some (1, ucast b)"
  by (simp add: latin1_char_def)

lemma latin1_total: "\<exists>w. conv_loop latin1_char emit ca (length ca) = Some w"
proof (induction ca)
  case Nil
  then show ?case by (simp add: conv_loop.simps)
next
  case (Cons b ca)
  then show ?case
    by (subst conv_loop.simps) auto
qed

lemma convertLF_total: "n \<le> length s \<Longrightarrow> \<exists>u. convertLF s n = Some u"
proof (induction s arbitrary: n)
  case (Cons c s)
  then have "\<exists>u. convertLF s (n - 1) = Some u" by simp
  then show ?case using Cons.prems by (cases s) auto
qed simp

lemma cut_text_total: "\<exists>text. cut_text ca = Some text"
proof -
  obtain u where u: "latin1ToUTF8 ca (length ca) = Some u" using latin1_total by (auto simp: latin1ToUTF8_def)
  obtain v where "convertLF u (length u) = Some v" using convertLF_total [of "length u" u] by auto
  with u show ?thesis by (simp add: cut_text_def)
qed

lemma cut_text_known:
  "(\<lambda>s. case cut_text ca of None \<Rightarrow> Inl e | Some text \<Rightarrow> Inr (Done (Some (wrap text)), s)) =
   (\<lambda>s. Inr (Done (Some (wrap (the (cut_text ca)))), s))"
  using cut_text_total [of ca] by auto

end
