(* ===== verification/Message_Loop.thy ===== *)
theory Message_Loop
  imports Reader_Logic
begin

text \<open>
  Readers with a state of their own that are called again when more bytes have arrived:
  \<open>SMsgReader::readMsg\<close>, \<open>CMsgReader::readMsg\<close>, and the decoders of rectangles. The
  contract of such a reader is stated once, as \<open>resumes\<close>, and is closed under the ways
  the readers are put together; the locale \<open>message_loop\<close> has what the loop around a
  reader owes to it.
\<close>

type_synonym 'st reading_step = "'st \<Rightarrow> instream \<Rightarrow> stream_error + bool \<times> 'st \<times> instream"

subsection \<open>The loop\<close>

text \<open>\<open>while (processMsg());\<close>, run on what has arrived.\<close>

partial_function (option) drive ::
    "'st reading_step \<Rightarrow> 'st \<Rightarrow> instream \<Rightarrow> (stream_error + 'st \<times> instream) option" where
  "drive step r s = (case step r s of
      Inl e \<Rightarrow> Some (Inl e)
    | Inr (ok, r, s) \<Rightarrow> if ok then drive step r s else Some (Inr (r, s)))"

text \<open>Each chunk that arrives is followed by the loop; an error ends the connection.\<close>

fun deliver :: "'st reading_step \<Rightarrow> 'st \<Rightarrow> instream \<Rightarrow> byte list list \<Rightarrow> (stream_error + 'st \<times> instream) option" where
  "deliver step r s [] = Some (Inr (r, s))"
| "deliver step r s (chunk # chunks) = (case drive step r (arrive chunk s) of
      None \<Rightarrow> None
    | Some (Inl e) \<Rightarrow> Some (Inl e)
    | Some (Inr (r, s)) \<Rightarrow> deliver step r s chunks)"

subsection \<open>Message readers without a state\<close>

text \<open>What is unread in one stream is a tail of what is unread in another.\<close>

definition behind :: "instream \<Rightarrow> instream \<Rightarrow> bool" where
  "behind s' s \<longleftrightarrow> (\<exists>p. p @ unread s' = unread s)"

lemma behind_refl [simp]: "behind s s"
  by (simp add: behind_def)

lemma behind_same: "unread s' = unread s \<Longrightarrow> behind s' s"
  by (simp add: behind_def)

lemma behind_trans: "behind s2 s1 \<Longrightarrow> behind s1 s \<Longrightarrow> behind s2 s"
  unfolding behind_def by (metis append.assoc)

lemma behind_length: "behind s' s \<Longrightarrow> length (unread s') \<le> length (unread s)"
  by (metis behind_def le_add2 length_append)

lemma behind_same_length: "behind s' s \<Longrightarrow> length (unread s') = length (unread s) \<Longrightarrow> unread s' = unread s"
  unfolding behind_def by (metis append_eq_append_conv append_Nil)

definition sound_reader :: "(instream \<Rightarrow> 'c outcome reading) \<Rightarrow> bool" where
  "sound_reader f \<longleftrightarrow> (\<forall>s b. past s = None \<longrightarrow> (case f s of
     Inl e \<Rightarrow> is_protocol e \<and> f (arrive b s) = Inl e
   | Inr (Done c, s1) \<Rightarrow> past s1 = None \<and> behind s1 s \<and> f (arrive b s) = Inr (Done c, arrive b s1)
   | Inr (Incomplete, s1) \<Rightarrow> past s1 = None \<and> unread s1 = unread s \<and> f (arrive b s) = f (arrive b s1)))"

named_theorems sound_rules \<open>message readers that keep the contract\<close>

lemma sound_done [sound_rules]: "sound_reader (\<lambda>s. Inr (Done c, s))"
  by (simp add: sound_reader_def)

lemma sound_throw [sound_rules]: "sound_reader (\<lambda>s. Inl (ProtocolError m))"
  by (simp add: sound_reader_def is_protocol_def)

lemma sound_if [sound_rules]:
  "sound_reader f \<Longrightarrow> sound_reader g \<Longrightarrow> sound_reader (\<lambda>s. if b then f s else g s)"
  by (cases b) simp_all

lemma need_checked: "need n (s\<lparr>checkedBytes := c\<rparr>) k = need n s k"
  by (simp add: need_def hasData_def)

text \<open>A reader that starts by asking for the fixed part of its message.\<close>

lemma sound_need:
  assumes reader: "message_reader (\<lambda>s. need n s k)" and l: "local_msg (\<lambda>s. need n s k)"
  shows "sound_reader (\<lambda>s. need n s k)"
  unfolding sound_reader_def
proof (intro allI impI)
  fix s :: instream and b assume p: "past s = None"
  let ?f = "\<lambda>s. need n s k"
  have ok: "outcome_ok (True, unread s) (?f s)" using reader p by (simp add: message_reader_def)
  show "case ?f s of
      Inl e \<Rightarrow> is_protocol e \<and> ?f (arrive b s) = Inl e
    | Inr (Done c, s1) \<Rightarrow> past s1 = None \<and> behind s1 s \<and> ?f (arrive b s) = Inr (Done c, arrive b s1)
    | Inr (Incomplete, s1) \<Rightarrow> past s1 = None \<and> unread s1 = unread s \<and> ?f (arrive b s) = ?f (arrive b s1)"
  proof (cases "?f s")
    case (Inl e)
    then obtain m where "e = ProtocolError m" using ok by (auto simp: outcome_ok_def is_protocol_def)
    then show ?thesis using Inl local_msgD(2) [OF l] by (simp add: is_protocol_def)
  next
    case (Inr z)
    then obtain res s1 where z: "?f s = Inr (res, s1)" by (cases z) simp
    show ?thesis
    proof (cases res)
      case (Done c)
      then show ?thesis using z ok local_msgD(1) [OF l] by (auto simp: outcome_ok_def behind_def)
    next
      case Incomplete
      then have "past s1 = None" "unread s1 = unread s" using z ok by (auto simp: outcome_ok_def)
      moreover from this have "s1 = s\<lparr>checkedBytes := checkedBytes s1\<rparr>" using p by (cases s; cases s1) simp
      then have "?f (arrive b s1) = ?f (arrive b s)" by (metis arrive_update(1) need_checked)
      ultimately show ?thesis using z Incomplete by simp
    qed
  qed
qed

subsection \<open>Steps\<close>

definition resumes :: "'st reading_step \<Rightarrow> bool" where
  "resumes step \<longleftrightarrow> (\<forall>r s b. past s = None \<longrightarrow> (case step r s of
     Inl e \<Rightarrow> is_protocol e \<and> step r (arrive b s) = Inl e
   | Inr (ok, r1, s1) \<Rightarrow> past s1 = None \<and> behind s1 s \<and>
       step r (arrive b s) = (if ok then Inr (True, r1, arrive b s1) else step r1 (arrive b s1))))"

lemma resumesI:
  assumes "\<And>r s b e. past s = None \<Longrightarrow> step r s = Inl e \<Longrightarrow> is_protocol e \<and> step r (arrive b s) = Inl e"
    and "\<And>r s b r1 s1. past s = None \<Longrightarrow> step r s = Inr (True, r1, s1) \<Longrightarrow>
      past s1 = None \<and> behind s1 s \<and> step r (arrive b s) = Inr (True, r1, arrive b s1)"
    and "\<And>r s b r1 s1. past s = None \<Longrightarrow> step r s = Inr (False, r1, s1) \<Longrightarrow>
      past s1 = None \<and> behind s1 s \<and> step r (arrive b s) = step r1 (arrive b s1)"
  shows "resumes step"
  unfolding resumes_def
proof (intro allI impI)
  fix r and s :: instream and b assume p: "past s = None"
  show "case step r s of
     Inl e \<Rightarrow> is_protocol e \<and> step r (arrive b s) = Inl e
   | Inr (ok, r1, s1) \<Rightarrow> past s1 = None \<and> behind s1 s \<and>
       step r (arrive b s) = (if ok then Inr (True, r1, arrive b s1) else step r1 (arrive b s1))"
  proof (cases "step r s")
    case (Inl e)
    then show ?thesis using assms(1) [OF p] by simp
  next
    case (Inr z)
    then obtain ok r1 s1 where z: "step r s = Inr (ok, r1, s1)" by (cases z) auto
    then show ?thesis using assms(2,3) [OF p, of r r1 s1 b] by (cases ok) simp_all
  qed
qed

lemma resumesD:
  assumes "resumes step" and "past s = None"
  shows "step r s = Inl e \<Longrightarrow> is_protocol e \<and> step r (arrive b s) = Inl e"
    and "step r s = Inr (True, r1, s1) \<Longrightarrow>
      past s1 = None \<and> behind s1 s \<and> step r (arrive b s) = Inr (True, r1, arrive b s1)"
    and "step r s = Inr (False, r1, s1) \<Longrightarrow>
      past s1 = None \<and> behind s1 s \<and> step r (arrive b s) = step r1 (arrive b s1)"
  using assms(1) [unfolded resumes_def, rule_format, OF assms(2), of r b] by simp_all

text \<open>
  A message reader that, by the state, leaves the state alone until the message is complete,
  and a state that ends it.
\<close>

definition run_body :: "('st \<Rightarrow> instream \<Rightarrow> 'c outcome reading) \<Rightarrow> ('c option \<Rightarrow> 'st \<Rightarrow> 'st) \<Rightarrow> 'st reading_step" where
  "run_body body finish r s = ebind (body r s) (\<lambda>(res, s). case res of
       Incomplete \<Rightarrow> Inr (False, r, s)
     | Done c \<Rightarrow> Inr (True, finish c r, s))"

lemma run_body_cases:
  "run_body body finish r s = (case body r s of
     Inl e \<Rightarrow> Inl e
   | Inr (Incomplete, s1) \<Rightarrow> Inr (False, r, s1)
   | Inr (Done c, s1) \<Rightarrow> Inr (True, finish c r, s1))"
  by (auto simp: run_body_def split: sum.splits outcome.splits)

lemma resumes_body:
  assumes "\<And>r. sound_reader (body r)"
  shows "resumes (run_body body finish)"
proof -
  have f: "case body r s of
     Inl e \<Rightarrow> is_protocol e \<and> body r (arrive b s) = Inl e
   | Inr (Done c, s1) \<Rightarrow> past s1 = None \<and> behind s1 s \<and> body r (arrive b s) = Inr (Done c, arrive b s1)
   | Inr (Incomplete, s1) \<Rightarrow> past s1 = None \<and> unread s1 = unread s \<and> body r (arrive b s) = body r (arrive b s1)"
    if "past s = None" for r s b
    using assms [of r] that unfolding sound_reader_def by blast
  show ?thesis
    unfolding resumes_def
  proof (intro allI impI)
    fix r and s :: instream and b assume p: "past s = None"
    show "case run_body body finish r s of
       Inl e \<Rightarrow> is_protocol e \<and> run_body body finish r (arrive b s) = Inl e
     | Inr (ok, r1, s1) \<Rightarrow> past s1 = None \<and> behind s1 s \<and>
         run_body body finish r (arrive b s) =
           (if ok then Inr (True, r1, arrive b s1) else run_body body finish r1 (arrive b s1))"
    proof (cases "body r s")
      case (Inl e)
      then show ?thesis using f [OF p, of r b] by (simp add: run_body_cases)
    next
      case (Inr z)
      then obtain res s1 where z: "body r s = Inr (res, s1)" by (cases z) simp
      show ?thesis using f [OF p, of r b] z
        by (cases res) (auto simp: run_body_cases behind_same)
    qed
  qed
qed

text \<open>One step after the other.\<close>

definition andthen :: "'st reading_step \<Rightarrow> 'st reading_step \<Rightarrow> 'st reading_step" where
  "andthen f g r s = ebind (f r s) (\<lambda>(ok, r, s). if ok then g r s else Inr (False, r, s))"

lemma andthen_cases:
  "andthen f g r s = (case f r s of
     Inl e \<Rightarrow> Inl e
   | Inr (ok, r1, s1) \<Rightarrow> if ok then g r1 s1 else Inr (False, r1, s1))"
  by (auto simp: andthen_def split: sum.splits)

text \<open>
  A later call passes through the first part again: it must not do anything in a state that
  the second part has stopped in.
\<close>

lemma resumes_andthen:
  assumes f: "resumes f" and g: "resumes g"
    and pass: "\<And>r s r1 s1 r2 s2 s'. f r s = Inr (True, r1, s1) \<Longrightarrow> g r1 s1 = Inr (False, r2, s2) \<Longrightarrow>
      f r2 s' = Inr (True, r2, s')"
  shows "resumes (andthen f g)"
proof (rule resumesI)
  fix r s b e assume p: "past s = None" and e: "andthen f g r s = Inl e"
  show "is_protocol e \<and> andthen f g r (arrive b s) = Inl e"
  proof (cases "f r s")
    case (Inl e')
    then show ?thesis using e resumesD(1) [OF f p] by (simp add: andthen_cases)
  next
    case (Inr z)
    then obtain ok r1 s1 where z: "f r s = Inr (ok, r1, s1)" by (cases z) auto
    then have ok and g1: "g r1 s1 = Inl e" using e by (auto simp: andthen_cases split: if_splits)
    with z resumesD(2) [OF f p] have "past s1 = None" "f r (arrive b s) = Inr (True, r1, arrive b s1)" by auto
    then show ?thesis using resumesD(1) [OF g _ g1] by (simp add: andthen_cases)
  qed
next
  fix r s b r2 s2 assume p: "past s = None" and e: "andthen f g r s = Inr (True, r2, s2)"
  then obtain r1 s1 where z: "f r s = Inr (True, r1, s1)" "g r1 s1 = Inr (True, r2, s2)"
    by (auto simp: andthen_cases split: sum.splits if_splits)
  from resumesD(2) [OF f p z(1), of b] have p1: "past s1 = None" "behind s1 s"
      "f r (arrive b s) = Inr (True, r1, arrive b s1)" by simp_all
  from resumesD(2) [OF g p1(1) z(2), of b] have p2: "past s2 = None" "behind s2 s1"
      "g r1 (arrive b s1) = Inr (True, r2, arrive b s2)" by simp_all
  have "behind s2 s" using p2(2) p1(2) by (rule behind_trans)
  then show "past s2 = None \<and> behind s2 s \<and> andthen f g r (arrive b s) = Inr (True, r2, arrive b s2)"
    using p1(3) p2(1,3) by (auto simp: andthen_cases)
next
  fix r s b r2 s2 assume p: "past s = None" and e: "andthen f g r s = Inr (False, r2, s2)"
  show "past s2 = None \<and> behind s2 s \<and> andthen f g r (arrive b s) = andthen f g r2 (arrive b s2)"
  proof (cases "f r s")
    case (Inl e')
    then show ?thesis using e by (simp add: andthen_cases)
  next
    case (Inr z)
    then obtain ok r1 s1 where z: "f r s = Inr (ok, r1, s1)" by (cases z) auto
    show ?thesis
    proof (cases ok)
      case False
      then have "f r s = Inr (False, r2, s2)" using z e by (simp add: andthen_cases)
      from resumesD(3) [OF f p this, of b] show ?thesis by (auto simp: andthen_cases)
    next
      case True
      then have z: "f r s = Inr (True, r1, s1)" "g r1 s1 = Inr (False, r2, s2)"
        using z e by (simp_all add: andthen_cases)
      from resumesD(2) [OF f p z(1), of b] have p1: "past s1 = None" "behind s1 s"
          "f r (arrive b s) = Inr (True, r1, arrive b s1)" by simp_all
      from resumesD(3) [OF g p1(1) z(2), of b] have p2: "past s2 = None" "behind s2 s1"
          "g r1 (arrive b s1) = g r2 (arrive b s2)" by simp_all
      have "behind s2 s" using p2(2) p1(2) by (rule behind_trans)
      then show ?thesis using p1(3) p2(1,3) pass [OF z] by (auto simp: andthen_cases)
    qed
  qed
qed

text \<open>A part that is passed by outside the states it is for.\<close>

definition in_state :: "('st \<Rightarrow> bool) \<Rightarrow> 'st reading_step \<Rightarrow> 'st reading_step" where
  "in_state st f r s = (if st r then f r s else Inr (True, r, s))"

lemma resumes_in_state:
  assumes f: "resumes f"
    and stay: "\<And>r s r1 s1. st r \<Longrightarrow> f r s = Inr (False, r1, s1) \<Longrightarrow> st r1"
  shows "resumes (in_state st f)"
proof (rule resumesI)
  fix r s b e assume p: "past s = None" and e: "in_state st f r s = Inl e"
  then show "is_protocol e \<and> in_state st f r (arrive b s) = Inl e"
    using resumesD(1) [OF f p] by (auto simp: in_state_def split: if_splits)
next
  fix r s b r1 s1 assume p: "past s = None" and e: "in_state st f r s = Inr (True, r1, s1)"
  then show "past s1 = None \<and> behind s1 s \<and> in_state st f r (arrive b s) = Inr (True, r1, arrive b s1)"
    using resumesD(2) [OF f p] by (auto simp: in_state_def split: if_splits)
next
  fix r s b r1 s1 assume p: "past s = None" and e: "in_state st f r s = Inr (False, r1, s1)"
  then show "past s1 = None \<and> behind s1 s \<and> in_state st f r (arrive b s) = in_state st f r1 (arrive b s1)"
    using resumesD(3) [OF f p, of r r1 s1 b] stay [of r s r1 s1] by (auto simp: in_state_def split: if_splits)
qed

lemma resumes_choose:
  assumes f: "resumes f" and g: "resumes g"
    and stay: "\<And>r s r1 s1. st r \<Longrightarrow> f r s = Inr (False, r1, s1) \<Longrightarrow> st r1"
      "\<And>r s r1 s1. \<not> st r \<Longrightarrow> g r s = Inr (False, r1, s1) \<Longrightarrow> \<not> st r1"
  shows "resumes (\<lambda>r s. if st r then f r s else g r s)"
  unfolding resumes_def
proof (intro allI impI)
  fix r and s :: instream and b assume p: "past s = None"
  let ?h = "\<lambda>r s. if st r then f r s else g r s"
  show "case ?h r s of
     Inl e \<Rightarrow> is_protocol e \<and> ?h r (arrive b s) = Inl e
   | Inr (ok, r1, s1) \<Rightarrow> past s1 = None \<and> behind s1 s \<and>
       ?h r (arrive b s) = (if ok then Inr (True, r1, arrive b s1) else ?h r1 (arrive b s1))"
    using resumesD [OF f p, where r = r and b = b] resumesD [OF g p, where r = r and b = b] stay [of r s]
    by (cases "st r") (force split: sum.split)+
qed

lemma resumes_throw: "resumes (\<lambda>r s. Inl (ProtocolError m))"
  by (rule resumesI) (auto simp: is_protocol_def)

text \<open>A change of the state that a later call makes again.\<close>

lemma resumes_enter:
  assumes f: "resumes f" and again: "\<And>r s r1 s1. f (g r) s = Inr (False, r1, s1) \<Longrightarrow> g r1 = r1"
  shows "resumes (\<lambda>r. f (g r))"
proof (rule resumesI)
  fix r s b r1 s1 assume "past s = None" and "f (g r) s = Inr (False, r1, s1)"
  with resumesD(3) [OF f this, of b] again
  show "past s1 = None \<and> behind s1 s \<and> f (g r) (arrive b s) = f (g r1) (arrive b s1)" by metis
qed (use resumesD(1,2) [OF f] in blast)+

text \<open>A loop inside a reader, with what it does at its end.\<close>

lemma resumes_loop:
  assumes eq: "\<And>r s. loop r s = (if stop r then Inr (True, fin r, s) else case step r s of
        Inl e \<Rightarrow> Inl e
      | Inr (ok, r, s) \<Rightarrow> if ok then loop r s else Inr (False, r, s))"
    and step: "resumes step"
    and stay: "\<And>r s r1 s1. \<not> stop r \<Longrightarrow> step r s = Inr (False, r1, s1) \<Longrightarrow> \<not> stop r1"
    and less: "\<And>r s r1 s1. past s = None \<Longrightarrow> \<not> stop r \<Longrightarrow> step r s = Inr (True, r1, s1) \<Longrightarrow>
      (m r1 s1 :: nat) < m r s"
  shows "resumes loop"
proof -
  have "case loop r s of
     Inl e \<Rightarrow> is_protocol e \<and> loop r (arrive b s) = Inl e
   | Inr (ok, r1, s1) \<Rightarrow> past s1 = None \<and> behind s1 s \<and>
       loop r (arrive b s) = (if ok then Inr (True, r1, arrive b s1) else loop r1 (arrive b s1))"
    if "past s = None" for r s b
    using that
  proof (induction "m r s" arbitrary: r s rule: less_induct)
    case less': less
    show ?case
    proof (cases "stop r")
      case True
      then show ?thesis using less'.prems by (simp add: eq)
    next
      case False
      note res = resumesD [OF step less'.prems, where r = r and b = b]
      show ?thesis
      proof (cases "step r s")
        case (Inl e)
        then show ?thesis using res(1) [OF Inl] False by (simp add: eq [of r])
      next
        case (Inr z)
        then obtain ok r1 s1 where z: "step r s = Inr (ok, r1, s1)" by (cases z) auto
        show ?thesis
        proof (cases ok)
          case False
          then have z: "step r s = Inr (False, r1, s1)" using z by simp
          have "\<not> stop r1" by (rule stay [OF \<open>\<not> stop r\<close> z])
          then have "loop r s = Inr (False, r1, s1)" "loop r (arrive b s) = loop r1 (arrive b s1)"
            using z res(3) [OF z] \<open>\<not> stop r\<close> by (simp_all add: eq [of r] eq [of r1])
          then show ?thesis using res(3) [OF z] by simp
        next
          case True
          then have z: "step r s = Inr (True, r1, s1)" using z by simp
          have l: "loop r s = loop r1 s1" "loop r (arrive b s) = loop r1 (arrive b s1)"
            using z res(2) [OF z] \<open>\<not> stop r\<close> by (simp_all add: eq [of r])
          have p: "past s1 = None" "behind s1 s" using res(2) [OF z] by simp_all
          show ?thesis
            using less'.hyps [OF less [OF less'.prems \<open>\<not> stop r\<close> z] p(1)] behind_trans [OF _ p(2)]
            unfolding l by (auto split: sum.splits)
        qed
      qed
    qed
  qed
  then show ?thesis by (simp add: resumes_def)
qed

lemma run_body_stays: "run_body body finish r s = Inr (False, r1, s1) \<Longrightarrow> r1 = r"
  by (auto simp: run_body_cases split: sum.splits outcome.splits)

lemma resumes_pass: "resumes (\<lambda>r s. Inr (True, g r, s))"
  by (rule resumesI) auto

text \<open>A reader that works on a part of the state, chosen by the rest of it.\<close>

definition on_part ::
    "('st \<Rightarrow> 'd) \<Rightarrow> ('d \<Rightarrow> 'st \<Rightarrow> 'st) \<Rightarrow> ('st \<Rightarrow> 'st) \<Rightarrow> ('st \<Rightarrow> 'd reading_step) \<Rightarrow> 'st reading_step" where
  "on_part get put finish f r s = ebind (f r (get r) s) (\<lambda>(ok, d, s).
     Inr (ok, (if ok then finish (put d r) else put d r), s))"

lemma resumes_part:
  assumes f: "\<And>r. resumes (f r)"
    and put: "\<And>d r. get (put d r) = d" "\<And>d d' r. put d (put d' r) = put d r" "\<And>d r. f (put d r) = f r"
  shows "resumes (on_part get put finish f)"
proof -
  have eq: "on_part get put finish f r s = (case f r (get r) s of
      Inl e \<Rightarrow> Inl e
    | Inr (ok, d, s) \<Rightarrow> Inr (ok, (if ok then finish (put d r) else put d r), s))" for r s
    by (auto simp: on_part_def split: sum.splits)
  show ?thesis
  proof (rule resumesI)
    fix r s b e assume p: "past s = None" and "on_part get put finish f r s = Inl e"
    then have "f r (get r) s = Inl e" by (auto simp: eq split: sum.splits)
    from resumesD(1) [OF f p this]
    show "is_protocol e \<and> on_part get put finish f r (arrive b s) = Inl e" by (simp add: eq)
  next
    fix r s b r1 s1 assume p: "past s = None" and "on_part get put finish f r s = Inr (True, r1, s1)"
    then obtain d where d: "f r (get r) s = Inr (True, d, s1)" "r1 = finish (put d r)"
      by (auto simp: eq split: sum.splits)
    from resumesD(2) [OF f p d(1)]
    show "past s1 = None \<and> behind s1 s \<and> on_part get put finish f r (arrive b s) = Inr (True, r1, arrive b s1)"
      by (simp add: eq d(2))
  next
    fix r s b r1 s1 assume p: "past s = None" and "on_part get put finish f r s = Inr (False, r1, s1)"
    then obtain d where d: "f r (get r) s = Inr (False, d, s1)" "r1 = put d r"
      by (auto simp: eq split: sum.splits)
    from resumesD(3) [OF f p d(1)]
    show "past s1 = None \<and> behind s1 s \<and> on_part get put finish f r (arrive b s) = on_part get put finish f r1 (arrive b s1)"
      by (auto simp: eq d(2) put split: sum.split)
  qed
qed


subsection \<open>What the loop owes to its step\<close>

text \<open>
  A step that resumes, and whose rank and unread bytes go down with every completed round.
\<close>

locale message_loop =
  fixes step :: "'st reading_step" and rank :: "'st \<Rightarrow> nat"
  assumes resumes: "resumes step"
    and progress: "past s = None \<Longrightarrow> step r s = Inr (True, r1, s1) \<Longrightarrow>
      rank r1 + 2 * length (unread s1) < rank r + 2 * length (unread s)"
begin

lemma drive_later:
  assumes "past s = None"
  shows "\<exists>res. drive step r s = Some res \<and>
    (case res of
       Inl e \<Rightarrow> is_protocol e \<and> drive step r (arrive b s) = Some (Inl e)
     | Inr (r1, s1) \<Rightarrow> past s1 = None \<and> drive step r (arrive b s) = drive step r1 (arrive b s1))"
  using assms
proof (induction "rank r + 2 * length (unread s)" arbitrary: r s rule: less_induct)
  case less
  note later = resumesD [OF resumes less.prems, of r]
  show ?case
  proof (cases "step r s")
    case (Inl e)
    then show ?thesis using later(1) [OF Inl, of b] by (simp add: drive.simps [of step r])
  next
    case (Inr z)
    then obtain ok r1 s1 where z: "step r s = Inr (ok, r1, s1)" by (cases z) auto
    show ?thesis
    proof (cases ok)
      case False
      with z later(3) [of r1 s1 b] have "past s1 = None" "step r (arrive b s) = step r1 (arrive b s1)" by simp_all
      then show ?thesis using z False by (auto simp: drive.simps)
    next
      case True
      with z later(2) [of r1 s1 b] have p: "past s1 = None" "step r (arrive b s) = Inr (True, r1, arrive b s1)" by simp_all
      have "step r s = Inr (True, r1, s1)" using z True by simp
      note IH = less.hyps [OF progress [OF less.prems this] p(1)]
      have "drive step r s = drive step r1 s1" "drive step r (arrive b s) = drive step r1 (arrive b s1)"
        using z p True by (simp_all add: drive.simps [of step r])
      then show ?thesis
        unfolding \<open>drive step r s = _\<close> \<open>drive step r (arrive b s) = _\<close> using IH by blast
    qed
  qed
qed

lemma drive_returns:
  assumes "past s = None"
  shows "\<exists>res. drive step r s = Some res \<and>
    (case res of Inl e \<Rightarrow> is_protocol e | Inr (r1, s1) \<Rightarrow> past s1 = None)"
  using drive_later [OF assms, of r "[]"] by (auto split: sum.splits prod.splits)

lemma deliver_whole:
  assumes "past s = None" and "cs \<noteq> []"
  shows "deliver step r s cs = drive step r (arrive (concat cs) s)"
  using assms
proof (induction cs arbitrary: r s)
  case (Cons c cs)
  have p: "past (arrive c s) = None" using Cons.prems(1) by simp
  have a: "arrive (concat cs) (arrive c s) = arrive (concat (c # cs)) s" by (simp add: arrive_def)
  obtain res where res: "drive step r (arrive c s) = Some res"
      "case res of
         Inl e \<Rightarrow> is_protocol e \<and> drive step r (arrive (concat (c # cs)) s) = Some (Inl e)
       | Inr (r1, s1) \<Rightarrow> past s1 = None \<and>
           drive step r (arrive (concat (c # cs)) s) = drive step r1 (arrive (concat cs) s1)"
    using drive_later [OF p, of r "concat cs"] unfolding a by blast
  show ?case
  proof (cases res)
    case (Inl e)
    then show ?thesis using res(1) res(2) by (simp only: deliver.simps) simp
  next
    case (Inr z)
    obtain r1 s1 where z: "z = (r1, s1)" by (cases z)
    show ?thesis
    proof (cases cs)
      case Nil
      then show ?thesis by (simp split: option.splits sum.splits prod.splits)
    next
      case (Cons c' cs')
      then have "deliver step r1 s1 cs = drive step r1 (arrive (concat cs) s1)"
        using res Inr z by (intro Cons.IH) simp_all
      then show ?thesis using res Inr z by (simp only: deliver.simps) simp
    qed
  qed
qed simp

lemma chunks:
  assumes "past s = None" and "cs \<noteq> []"
  shows "deliver step r s cs = deliver step r s [concat cs]"
  using deliver_whole [OF assms] deliver_whole [OF assms(1), of "[concat cs]"] by simp

text \<open>What every call keeps, the loop keeps, over all that arrives.\<close>

lemma drive_keeps:
  assumes keep: "\<And>r s ok r1 s1. past s = None \<Longrightarrow> P r \<Longrightarrow> step r s = Inr (ok, r1, s1) \<Longrightarrow> P r1"
    and "past s = None" and "P r" and "drive step r s = Some (Inr (r1, s1))"
  shows "P r1 \<and> past s1 = None"
  using assms(2-4)
proof (induction "rank r + 2 * length (unread s)" arbitrary: r s rule: less_induct)
  case less
  show ?case
  proof (cases "step r s")
    case (Inl e)
    then show ?thesis using less.prems by (simp add: drive.simps [of step r])
  next
    case (Inr z)
    then obtain ok r0 s0 where z: "step r s = Inr (ok, r0, s0)" by (cases z) auto
    have P: "P r0" by (rule keep [OF less.prems(1,2) z])
    show ?thesis
    proof (cases ok)
      case False
      with z have "past s0 = None" using resumesD(3) [OF resumes less.prems(1), of r r0 s0] by simp
      then show ?thesis using less.prems z False P by (simp add: drive.simps [of step r])
    next
      case True
      with z have z: "step r s = Inr (True, r0, s0)" by simp
      then have "past s0 = None" using resumesD(2) [OF resumes less.prems(1), of r r0 s0] by simp
      moreover have "drive step r0 s0 = Some (Inr (r1, s1))" using less.prems(3) z by (simp add: drive.simps [of step r])
      ultimately show ?thesis using less.hyps [OF progress [OF less.prems(1) z]] P by blast
    qed
  qed
qed

lemma deliver_keeps:
  assumes keep: "\<And>r s ok r1 s1. past s = None \<Longrightarrow> P r \<Longrightarrow> step r s = Inr (ok, r1, s1) \<Longrightarrow> P r1"
    and "past s = None" and "P r" and "deliver step r s cs = Some (Inr (r1, s1))"
  shows "P r1"
  using assms(2-4)
proof (induction cs arbitrary: r s)
  case (Cons c cs)
  then obtain r0 s0 where d: "drive step r (arrive c s) = Some (Inr (r0, s0))" "deliver step r0 s0 cs = Some (Inr (r1, s1))"
    by (auto split: option.splits sum.splits)
  have "P r0 \<and> past s0 = None" using drive_keeps [where P = P, OF keep _ Cons.prems(2) d(1)] Cons.prems(1) by simp
  then show ?case using Cons.IH d(2) by blast
qed simp

lemma deliver_returns:
  assumes "past s = None"
  shows "\<exists>res. deliver step r s cs = Some res \<and>
    (case res of Inl e \<Rightarrow> is_protocol e | Inr (r1, s1) \<Rightarrow> past s1 = None)"
  using assms
proof (induction cs arbitrary: r s)
  case (Cons c cs)
  obtain res where res: "drive step r (arrive c s) = Some res"
      "case res of Inl e \<Rightarrow> is_protocol e | Inr (r1, s1) \<Rightarrow> past s1 = None"
    using drive_returns [of "arrive c s" r] Cons.prems by auto
  show ?case
  proof (cases res)
    case (Inl e)
    then show ?thesis using res by simp
  next
    case (Inr z)
    then obtain r1 s1 where "res = Inr (r1, s1)" by (cases z) simp
    then show ?thesis using res Cons.IH [of s1 r1] by simp
  qed
qed simp

end

end
