(* ===== verification/Message_Delivery.thy ===== *)
theory Message_Delivery
  imports Message_Loop
begin

text \<open>
  Reading back what a writer wrote, for the parts the messages of both directions share:
  coordinates and screens, fences, clipboard texts, and extended clipboard messages.
\<close>

definition fits16 :: "int \<Rightarrow> bool" where
  "fits16 i \<longleftrightarrow> 0 \<le> i \<and> i < 2 ^ 16"

definition fits_rect :: "rect \<Rightarrow> bool" where
  "fits_rect r \<longleftrightarrow> fits16 (tl_x r) \<and> fits16 (tl_y r) \<and> fits16 (rect_width r) \<and> fits16 (rect_height r)"

lemma mk_rect_fields: "mk_rect (tl_x r) (tl_y r) (rect_width r) (rect_height r) = (r :: rect)"
  by (cases r) (simp add: mk_rect_def rect_width_def rect_height_def)

lemma put16_length [simp]: "length (put16 i) = 2"
  by (simp add: put16_def)

interpretation i16: stream_codec put16 get16 2 fits16
proof unfold_locales
  fix x r and s :: instream
  assume x: "fits16 x" and s: "unread s = put16 x @ r" "2 \<le> checkedBytes s"
  have "uint (word_of_int x :: u16) = x" using x by (simp add: fits16_def uint_word_of_int_eq take_bit_int_eq_self)
  with s show "get16 s = Inr (x, passed (put16 x) s)"
    by (simp add: get16_def put16_def u16.get_put)
qed simp

lemmas [stream_simps] = i16.get_known i16.get_last

lemma put_screen_length [simp]: "length (put_screen sc) = 16"
  by (simp add: put_screen_def)

interpretation screen: stream_codec put_screen read_screen 16 "\<lambda>sc. fits_rect (dimensions sc)"
proof unfold_locales
  fix x r and s :: instream
  assume x: "fits_rect (dimensions x)" and s: "unread s = put_screen x @ r" "16 \<le> checkedBytes s"
  obtain p c where s': "s = \<lparr>unread = put_screen x @ r, past = p, checkedBytes = c\<rparr>" "16 \<le> c"
    using s by (cases s) simp
  show "read_screen s = Inr (x, passed (put_screen x) s)"
    using x s'(2) unfolding s'(1) fits_rect_def
    by (cases x) (simp add: read_screen_def put_screen_def stream_simps result_simps mk_rect_fields
        passed_def option.map_comp comp_def)
qed simp

subsection \<open>Known messages\<close>

text \<open>The bytes of a body give a call, whatever follows them.\<close>

definition gives :: "(instream \<Rightarrow> 'c outcome reading) \<Rightarrow> byte list \<Rightarrow> 'c \<Rightarrow> bool" where
  "gives f bs c \<longleftrightarrow> (\<forall>r k. \<exists>k'.
     f \<lparr>unread = bs @ r, past = None, checkedBytes = k\<rparr> =
     Inr (Done (Some c), \<lparr>unread = r, past = None, checkedBytes = k'\<rparr>))"

named_theorems body_simps \<open>running a reader on a known message\<close>

lemma need_known [body_simps]: "n \<le> length bs \<Longrightarrow>
    need n \<lparr>unread = bs, past = p, checkedBytes = c\<rparr> k = k \<lparr>unread = bs, past = p, checkedBytes = n\<rparr>"
  by (simp add: need_def hasData_def)

lemma need_or_restore_known [body_simps]: "n \<le> length bs \<Longrightarrow>
    need_or_restore n \<lparr>unread = bs, past = p, checkedBytes = c\<rparr> k = k \<lparr>unread = bs, past = p, checkedBytes = n\<rparr>"
  by (simp add: need_or_restore_def hasDataOrRestore_def hasData_def)

lemma restore_known [body_simps]:
  "setRestorePoint \<lparr>unread = bs, past = None, checkedBytes = c\<rparr> = Inr \<lparr>unread = bs, past = Some [], checkedBytes = c\<rparr>"
  "clearRestorePoint \<lparr>unread = bs, past = Some p, checkedBytes = c\<rparr> = Inr \<lparr>unread = bs, past = None, checkedBytes = c\<rparr>"
  by (simp_all add: setRestorePoint_def clearRestorePoint_def)

lemmas body_reads [body_simps] = stream_simps result_simps u32.get_list screen.get_list fmt.get_known
  u32.put_list_width screen.put_list_width write_format_length

lemma gives_fence:
  assumes "length data \<le> 64"
  shows "gives (read_fence wrap) (put_fence flags data) (wrap flags data)"
proof -
  have n: "unat (of_nat (length data) :: byte) = length data"
    using assms by (simp add: unat_of_nat take_bit_nat_eq_self)
  show ?thesis using assms
    by (simp add: gives_def read_fence_def put_fence_def body_simps n)
qed

subsection \<open>Clipboard texts\<close>

lemma sign_bit: "w AND 0x80000000 \<noteq> 0 \<longleftrightarrow> sint w < 0" for w :: u32
proof -
  have top: "(0x80000000 :: u32) = push_bit 31 1" by (simp add: push_bit_eq_mult)
  have b: "bit (w AND 0x80000000) n \<longleftrightarrow> n = 31 \<and> bit w 31" for n
    unfolding top bit_and_iff bit_push_bit_iff bit_1_iff by auto
  have "w AND 0x80000000 \<noteq> 0 \<longleftrightarrow> bit w 31"
  proof
    assume "w AND 0x80000000 \<noteq> 0"
    then obtain n where "bit (w AND 0x80000000) n" using bit_eqI [of "w AND 0x80000000" 0] by auto
    then show "bit w 31" using b by blast
  next
    assume "bit w 31"
    then have "bit (w AND 0x80000000) 31" using b by blast
    then show "w AND 0x80000000 \<noteq> 0" by auto
  qed
  then show ?thesis using bit_last_iff [of w] by simp
qed

lemma latin1_text:
  assumes "\<forall>c\<in>set cs. c \<noteq> 0 \<and> c < 0x100" and "length cs < 2 ^ 31"
    and "str = concat (map ucs4ToUTF8 cs)" and "CR \<notin> set str"
  shows "utf8ToLatin1 (str @ [0]) (2 ^ 64 - 1) = Some (map ucast cs)" and "cut_text (map ucast cs) = Some str"
proof -
  have sc: "scalar c \<and> c \<noteq> 0" if "c \<in> set cs" for c
    using that assms(1) by (auto simp: scalar_def word_less_nat_alt word_le_nat_alt)
  have small: "length (ucs4ToUTF8 c) \<le> 2" if "c \<in> set cs" for c
    using that assms(1) by (auto simp: ucs4ToUTF8_def Let_def word_less_nat_alt word_le_nat_alt)
  have "length str \<le> 2 * length cs"
    unfolding assms(3) using small by (induction cs) force+
  then have len: "length str \<le> 2 ^ 64 - 1" using assms(2) by simp
  have "utf8ToLatin1 (str @ [0]) (2 ^ 64 - 1) =
      Some (concat (map (\<lambda>ucs. if ucs > 0xff then [0x3f] else [ucast ucs]) cs))"
    unfolding utf8ToLatin1_def assms(3) using sc len by (intro utf8.conv_enc) (auto simp: assms(3))
  also have "map (\<lambda>ucs. if ucs > 0xff then [0x3f] else [ucast ucs :: byte]) cs = map (\<lambda>c. [ucast c]) cs"
    using assms(1) by (auto simp: word_less_nat_alt)
  finally show "utf8ToLatin1 (str @ [0]) (2 ^ 64 - 1) = Some (map ucast cs)" by (simp add: concat_map_singleton)
  have nz: "0 \<notin> set str" using sc utf8_no_zero by (auto simp: assms(3))
  have "latin1ToUTF8 (concat (map (\<lambda>c. [ucast c]) cs) @ []) (length (map ucast cs :: byte list)) =
      Some (concat (map (\<lambda>c. append_buf (ucs4ToUTF8 c)) cs))"
    unfolding latin1ToUTF8_def using assms(1) by (intro latin1.conv_enc) (auto simp: concat_map_singleton)
  also have "map (\<lambda>c. append_buf (ucs4ToUTF8 c)) cs = map ucs4ToUTF8 cs"
    using sc utf8_no_zero by (auto simp: append_buf_def takeWhile_eq_all_conv)
  finally have "latin1ToUTF8 (map ucast cs) (length (map ucast cs :: byte list)) = Some str"
    by (simp add: concat_map_singleton assms(3))
  moreover have "convertLF str (length str) = Some str"
    using convertLF_text [where s = "str" and n = "length str" and r = "[]"] nz lf_text_id [OF assms(4)] by simp
  moreover have "append_buf str = str" using nz by (auto simp: append_buf_def takeWhile_eq_all_conv)
  ultimately show "cut_text (map ucast cs) = Some str" by (simp add: cut_text_def)
qed

text \<open>A text length has its top bit clear, an extended message's has it set.\<close>

lemma text_length:
  assumes "n < 2 ^ 31"
  shows "unat (of_nat n :: u32) = n" and "(of_nat n :: u32) AND 0x80000000 = 0"
proof -
  show "unat (of_nat n :: u32) = n" using assms by (simp add: unat_of_nat take_bit_nat_eq_self)
  have "sint (of_nat n :: u32) = int n"
    using sint_word_of_int [where 'a = 32, of "int n"] assms by simp
  then show "(of_nat n :: u32) AND 0x80000000 = 0" using sign_bit [of "of_nat n"] by simp
qed

lemma extended_length:
  assumes "0 < n" and "n < 2 ^ 31"
  shows "(word_of_int (- n) :: u32) AND 0x80000000 \<noteq> 0" and "sint (- (word_of_int (- n) :: u32)) = n"
    and "(word_of_int (- n) :: u32) \<noteq> 0x80000000"
proof -
  show "(word_of_int (- n) :: u32) AND 0x80000000 \<noteq> 0"
    unfolding sign_bit using sint_word_of_int [where 'a = 32, of "- n"] assms by simp
  show len: "sint (- (word_of_int (- n) :: u32)) = n"
    using sint_word_of_int [where 'a = 32, of n] assms by simp
  show "(word_of_int (- n) :: u32) \<noteq> 0x80000000"
  proof
    assume eq: "(word_of_int (- n) :: u32) = 0x80000000"
    have "sint (- (0x80000000 :: u32)) = - (2 ^ 31)" by simp
    then show False using len assms unfolding eq by simp
  qed
qed

subsection \<open>Extended clipboard messages\<close>

definition gives_ext ::
    "(clip_call \<Rightarrow> 'c) \<Rightarrow> (byte list \<Rightarrow> byte list option) \<Rightarrow> nat \<Rightarrow> u32 \<Rightarrow> byte list \<Rightarrow> clip_call \<Rightarrow> bool" where
  "gives_ext wrap inflate maxCutText flags bs c \<longleftrightarrow> (\<forall>r q k. \<exists>q' k'.
     readExtendedClipboard wrap inflate maxCutText (int (4 + length bs))
       \<lparr>unread = putU32 flags @ bs @ r, past = Some q, checkedBytes = k\<rparr> =
     Inr (Done (Some (wrap c)), \<lparr>unread = r, past = Some q', checkedBytes = k'\<rparr>))"

lemma settle_ext:
  assumes "gives_ext wrap inflate maxCutText flags bs c"
  shows "\<exists>k'. settle (readExtendedClipboard wrap inflate maxCutText (int (4 + length bs)))
       \<lparr>unread = putU32 flags @ bs @ r, past = Some q, checkedBytes = k\<rparr> =
     Inr (Done (Some (wrap c)), \<lparr>unread = r, past = None, checkedBytes = k'\<rparr>)"
proof -
  obtain q' k' where e: "readExtendedClipboard wrap inflate maxCutText (int (4 + length bs))
       \<lparr>unread = putU32 flags @ bs @ r, past = Some q, checkedBytes = k\<rparr> =
     Inr (Done (Some (wrap c)), \<lparr>unread = r, past = Some q', checkedBytes = k'\<rparr>)"
    using assms unfolding gives_ext_def by blast
  show ?thesis unfolding settle_def e by (simp add: body_simps)
qed

text \<open>Running the inner reader.\<close>

lemma gives_extI:
  assumes "4 + length bs < 2 ^ 31" and "4 + length bs \<le> maxCutText"
    and "\<And>r q. \<exists>q' k'.
      extended_action wrap inflate maxCutText (int (4 + length bs)) flags
        \<lparr>unread = bs @ r, past = Some q, checkedBytes = length bs\<rparr> =
      Inr (Done (Some (wrap c)), \<lparr>unread = r, past = Some q', checkedBytes = k'\<rparr>)"
  shows "gives_ext wrap inflate maxCutText flags bs c"
  unfolding gives_ext_def
proof (intro allI)
  fix r q k
  have m: "nat (int (4 + length bs) mod 2 ^ 64) = 4 + length bs" using assms(1) by simp
  have l: "\<not> int (4 + length bs) < 4" "\<not> int (4 + length bs) > int maxCutText"
    using assms(2) by auto
  show "\<exists>q' k'. readExtendedClipboard wrap inflate maxCutText (int (4 + length bs))
       \<lparr>unread = putU32 flags @ bs @ r, past = Some q, checkedBytes = k\<rparr> =
     Inr (Done (Some (wrap c)), \<lparr>unread = r, past = Some q', checkedBytes = k'\<rparr>)"
    using assms(3) [of r "q @ putU32 flags"] l
    unfolding readExtendedClipboard_def m
    by (simp add: body_simps del: of_nat_add)
qed

text \<open>The flags of an action are those of its formats and the action itself.\<close>

lemma action_flags:
  "flags AND clipboardActionMask = a \<Longrightarrow> flags OR a = flags"
  by (rule bit_word_eqI) (auto simp: bit_simps)

lemmas action_defs = clipboardCaps_def clipboardRequest_def clipboardPeek_def clipboardNotify_def clipboardProvide_def

text \<open>The bodies that carry a call, and the calls that a body can carry.\<close>

definition provided :: "byte list list \<Rightarrow> byte list" where
  "provided ds = concat (map (\<lambda>d. putU32 (of_nat (length d)) @ d) ds)"

fun clip_body :: "(byte list \<Rightarrow> byte list) \<Rightarrow> clip_call \<Rightarrow> u32 \<times> byte list" where
  "clip_body deflate (ClipboardCaps flags lengths) = (flags, concat (map putU32 lengths))"
| "clip_body deflate (ClipboardRequest flags) = (flags, [])"
| "clip_body deflate ClipboardPeek = (clipboardPeek, [])"
| "clip_body deflate (ClipboardNotify flags) = (flags, [])"
| "clip_body deflate (ClipboardProvide flags ds) = (flags, deflate (provided ds))"

fun clip_fits :: "(byte list \<Rightarrow> byte list option) \<Rightarrow> (byte list \<Rightarrow> byte list) \<Rightarrow> nat \<Rightarrow> clip_call \<Rightarrow> bool" where
  "clip_fits inflate deflate maxCutText (ClipboardCaps flags lengths) \<longleftrightarrow>
     flags AND clipboardActionMask = clipboardCaps \<and> length lengths = length (clip_formats flags) \<and>
     4 + 4 * length lengths \<le> maxCutText"
| "clip_fits inflate deflate maxCutText (ClipboardRequest flags) \<longleftrightarrow>
     flags AND clipboardActionMask = clipboardRequest \<and> 4 \<le> maxCutText"
| "clip_fits inflate deflate maxCutText ClipboardPeek \<longleftrightarrow> 4 \<le> maxCutText"
| "clip_fits inflate deflate maxCutText (ClipboardNotify flags) \<longleftrightarrow>
     flags AND clipboardActionMask = clipboardNotify \<and> 4 \<le> maxCutText"
| "clip_fits inflate deflate maxCutText (ClipboardProvide flags ds) \<longleftrightarrow>
     flags AND clipboardActionMask = clipboardProvide \<and> length ds = length (clip_formats flags) \<and>
     (\<forall>d\<in>set ds. length d \<le> maxCutText \<and> length d < 2 ^ 32) \<and>
     inflate (deflate (provided ds)) = Some (provided ds) \<and>
     4 + length (deflate (provided ds)) \<le> maxCutText \<and> 4 + length (deflate (provided ds)) < 2 ^ 31"

lemma clip_formats_count: "length (clip_formats flags) \<le> 16"
  unfolding clip_formats_def by (rule order_trans [OF length_filter_le]) simp

lemma read_provided_formats:
  assumes "length is = length ds" and "\<forall>d\<in>set ds. length d \<le> maxCutText \<and> length d < 2 ^ 32"
  shows "read_provided maxCutText is
    \<lparr>unread = concat (map (\<lambda>d. putU32 (of_nat (length d)) @ d) ds), past = None, checkedBytes = k\<rparr> flags =
    Inr (flags, ds)"
  using assms
proof (induction "is" ds arbitrary: k rule: list_induct2)
  case Nil
  then show ?case by simp
next
  case (Cons i "is" d ds)
  have n: "unat (of_nat (length d) :: u32) = length d" "\<not> length d > maxCutText"
    using Cons.prems by (simp_all add: unat_of_nat take_bit_nat_eq_self)
  have IH: "read_provided maxCutText is
    \<lparr>unread = concat (map (\<lambda>d. putU32 (of_nat (length d)) @ d) ds), past = None, checkedBytes = k\<rparr> flags =
    Inr (flags, ds)" for k
    using Cons by simp
  show ?case by (simp add: hasData_def body_simps n IH)
qed

lemma caps_length: "length (concat (map putU32 ls)) = 4 * length ls"
  using u32.put_list_width [of ls] by simp

lemma clip_gives:
  assumes fits: "clip_fits inflate deflate maxCutText c" and body: "clip_body deflate c = (flags, bs)"
  shows "gives_ext wrap inflate maxCutText flags bs c" and "4 + length bs < 2 ^ 31"
proof -
  have "gives_ext wrap inflate maxCutText flags bs c \<and> 4 + length bs < 2 ^ 31"
  proof (cases c)
    case (ClipboardCaps fl ls)
    then have n: "length ls \<le> 16" using fits clip_formats_count [of fl] by simp
    have "gives_ext wrap inflate maxCutText fl (concat (map putU32 ls)) c"
      using fits ClipboardCaps n u32.get_list [of ls]
      by (intro gives_extI)
        (auto simp: caps_length extended_action_def action_defs Let_def body_simps simp del: length_concat)
    then show ?thesis using body ClipboardCaps n by (auto simp: caps_length simp del: length_concat)
  next
    case (ClipboardProvide fl ds)
    let ?z = "deflate (provided ds)"
    have "extended_action wrap inflate maxCutText (int (4 + length ?z)) fl
        \<lparr>unread = ?z @ r, past = Some q, checkedBytes = length ?z\<rparr> =
      Inr (Done (Some (wrap c)), \<lparr>unread = r, past = Some (q @ ?z), checkedBytes = 0\<rparr>)" for r q
      using fits ClipboardProvide read_provided_formats [of "clip_formats fl" ds]
      by (simp add: extended_action_def action_defs body_simps mem_stream_def provided_def)
    then show ?thesis using fits body ClipboardProvide by (auto intro!: gives_extI)
  next
    case ClipboardPeek
    then show ?thesis using fits body
      by (auto intro!: gives_extI simp: extended_action_def action_defs clipboardActionMask_def Let_def)
  qed (use fits body in \<open>auto intro!: gives_extI simp: extended_action_def action_defs\<close>)
  then show "gives_ext wrap inflate maxCutText flags bs c" "4 + length bs < 2 ^ 31" by simp_all
qed

text \<open>The writers' bodies are those.\<close>

lemma put_caps_body: "flags AND clipboardActionMask = clipboardCaps \<Longrightarrow> length lengths = length (clip_formats flags) \<Longrightarrow>
    put_caps flags lengths = put_extended flags (concat (map putU32 lengths))"
  by (simp add: put_caps_def action_flags)

lemma put_provide_body: "flags AND clipboardActionMask = clipboardProvide \<Longrightarrow> length ds = length (clip_formats flags) \<Longrightarrow>
    put_provide deflate flags ds = put_extended flags (deflate (provided ds))"
  by (simp add: put_provide_def action_flags provided_def)

end
