(* ===== verification/Client_Messages.thy ===== *)
theory Client_Messages
  imports Message_Loop
begin

text \<open>
  The messages a client sends to a server: \<open>CMsgWriter.cxx\<close> writes them,
  \<open>SMsgReader.cxx\<close> reads them back from whatever has arrived and turns them into calls
  of its handler. A reader call either finds a message incomplete, and then leaves the stream
  as it was, or consumes it.
\<close>

text \<open>What the client knows of the server, as far as the writer asks.\<close>

record server_params =
  supportsSetDesktopSize :: bool
  supportsContinuousUpdates :: bool
  supportsFence :: bool
  supportsQEMUKeyEvent :: bool
  supportsExtendedMouseButtons :: bool
  clipboardFlags :: u32
  server_width :: int
  server_height :: int

subsection \<open>The writer\<close>

definition writeClientInit :: "bool \<Rightarrow> writing" where
  "writeClientInit shared = Inr (putU8 (of_bool shared))"

definition writeSetPixelFormat :: "pixel_format \<Rightarrow> writing" where
  "writeSetPixelFormat pf = Inr (startMsg 0 @ pad 3 @ write_format pf)"

definition writeSetEncodings :: "u32 list \<Rightarrow> writing" where
  "writeSetEncodings encs = Inr (startMsg 2 @ pad 1 @ putU16 (of_nat (length encs)) @ concat (map putU32 encs))"

definition writeSetDesktopSize :: "server_params \<Rightarrow> int \<Rightarrow> int \<Rightarrow> screen list \<Rightarrow> writing" where
  "writeSetDesktopSize server width height layout =
     (if \<not> supportsSetDesktopSize server then Inl (WriteLogic ''Server does not support SetDesktopSize'')
      else Inr (startMsg 251 @ pad 1 @ put16 width @ put16 height @ putU8 (of_nat (length layout)) @ pad 1 @
                concat (map put_screen layout)))"

definition writeFramebufferUpdateRequest :: "rect \<Rightarrow> bool \<Rightarrow> writing" where
  "writeFramebufferUpdateRequest r incremental =
     Inr (startMsg 3 @ putU8 (of_bool incremental) @ put16 (tl_x r) @ put16 (tl_y r) @
          put16 (rect_width r) @ put16 (rect_height r))"

definition writeEnableContinuousUpdates :: "server_params \<Rightarrow> bool \<Rightarrow> int \<Rightarrow> int \<Rightarrow> int \<Rightarrow> int \<Rightarrow> writing" where
  "writeEnableContinuousUpdates server enable x y w h =
     (if \<not> supportsContinuousUpdates server then Inl (WriteLogic ''Server does not support continuous updates'')
      else Inr (startMsg 150 @ putU8 (of_bool enable) @ put16 x @ put16 y @ put16 w @ put16 h))"

definition writeFence :: "server_params \<Rightarrow> u32 \<Rightarrow> byte list \<Rightarrow> writing" where
  "writeFence server flags data =
     (if \<not> supportsFence server then Inl (WriteLogic ''Server does not support fences'')
      else if length data > 64 then Inl (OutOfRange ''Too large fence payload'')
      else if flags AND NOT fenceFlagsSupported \<noteq> 0 then Inl (InvalidArgument ''Unknown fence flags'')
      else Inr (startMsg 248 @ put_fence flags data))"

definition writeKeyEvent :: "server_params \<Rightarrow> u32 \<Rightarrow> u32 \<Rightarrow> bool \<Rightarrow> writing" where
  "writeKeyEvent server keysym keycode down =
     (if \<not> supportsQEMUKeyEvent server \<or> keycode = 0 then
        if keysym = 0 then Inr []
        else Inr (startMsg 4 @ putU8 (of_bool down) @ pad 2 @ putU32 keysym)
      else Inr (startMsg 255 @ putU8 0 @ putU16 (of_bool down) @ putU32 keysym @ putU32 keycode))"

text \<open>The pointer position, kept within the framebuffer.\<close>

definition clamp :: "int \<Rightarrow> int \<Rightarrow> int" where
  "clamp limit v = (let v = (if v < 0 then 0 else v) in if v \<ge> limit then limit - 1 else v)"

definition writePointerEvent :: "server_params \<Rightarrow> int \<times> int \<Rightarrow> u16 \<Rightarrow> writing" where
  "writePointerEvent server pos buttonMask =
     (let x = clamp (server_width server) (fst pos); y = clamp (server_height server) (snd pos) in
      if buttonMask AND 0x8000 \<noteq> 0 then Inl AssertFailed
      else if supportsExtendedMouseButtons server \<and> buttonMask AND 0x7f80 \<noteq> 0 then
        (let higherBits = drop_bit 7 buttonMask AND 0xff; lowerBits = buttonMask AND 0x7f OR 0x80 in
         if higherBits AND 0xfc \<noteq> 0 then Inl AssertFailed
         else Inr (startMsg 5 @ putU8 (ucast lowerBits) @ put16 x @ put16 y @ putU8 (ucast higherBits)))
      else Inr (startMsg 5 @ putU8 (ucast (buttonMask AND 0x7f)) @ put16 x @ put16 y))"

definition writeClientCutText :: "byte list \<Rightarrow> writing" where
  "writeClientCutText = write_text 6"

definition writeClipboardCaps :: "server_params \<Rightarrow> u32 \<Rightarrow> u32 list \<Rightarrow> writing" where
  "writeClipboardCaps server caps lengths =
     (if clipboardFlags server AND clipboardCaps = 0 then
        Inl (WriteLogic ''Server does not support clipboard caps action'')
      else Inr (startMsg 6 @ put_caps caps lengths))"

text \<open>The three actions that carry flags only.\<close>

definition write_action :: "server_params \<Rightarrow> u32 \<Rightarrow> string \<Rightarrow> u32 \<Rightarrow> writing" where
  "write_action server action err flags =
     (if clipboardFlags server AND action = 0 then Inl (WriteLogic err)
      else Inr (startMsg 6 @ put_extended (flags OR action) []))"

definition writeClipboardRequest :: "server_params \<Rightarrow> u32 \<Rightarrow> writing" where
  "writeClipboardRequest server = write_action server clipboardRequest ''Server does not support clipboard request action''"

definition writeClipboardPeek :: "server_params \<Rightarrow> u32 \<Rightarrow> writing" where
  "writeClipboardPeek server = write_action server clipboardPeek ''Server does not support clipboard peek action''"

definition writeClipboardNotify :: "server_params \<Rightarrow> u32 \<Rightarrow> writing" where
  "writeClipboardNotify server = write_action server clipboardNotify ''Server does not support clipboard notify action''"

definition writeClipboardProvide :: "(byte list \<Rightarrow> byte list) \<Rightarrow> server_params \<Rightarrow> u32 \<Rightarrow> byte list list \<Rightarrow> writing" where
  "writeClipboardProvide deflate server flags data =
     (if clipboardFlags server AND clipboardProvide = 0 then
        Inl (WriteLogic ''Server does not support clipboard provide action'')
      else Inr (startMsg 6 @ put_provide deflate flags data))"

definition writeQEMUAudioEnable :: "bool \<Rightarrow> writing" where
  "writeQEMUAudioEnable enable = Inr (startMsg 255 @ putU8 1 @ putU16 (if enable then 0 else 1))"

definition writeQEMUAudioSetFormat :: "byte \<Rightarrow> byte \<Rightarrow> u32 \<Rightarrow> writing" where
  "writeQEMUAudioSetFormat sampleFormat channels frequency =
     Inr (startMsg 255 @ putU8 1 @ putU16 2 @ putU8 sampleFormat @ putU8 channels @ putU32 frequency)"

subsection \<open>The reader\<close>

text \<open>The calls of the handler.\<close>

datatype client_call =
    ClientInit bool
  | SetPixelFormat pixel_format
  | SetEncodings "int list"
  | SetDesktopSize int int "screen list"
  | FramebufferUpdateRequest rect bool
  | EnableContinuousUpdates bool int int int int
  | Fence u32 "byte list"
  | KeyEvent u32 u32 bool
  | PointerEvent "int \<times> int" u16
  | ClientCutText "byte list"
  | ClientClipboard clip_call

type_synonym client_outcome = "client_call outcome"

definition readClientInit :: "instream \<Rightarrow> client_outcome reading" where
  "readClientInit s = need 1 s (\<lambda>s. ebind (readU8 s) (\<lambda>(u, s). Inr (Done (Some (ClientInit (u \<noteq> 0))), s)))"

definition readSetPixelFormat :: "bool \<Rightarrow> instream \<Rightarrow> client_outcome reading" where
  "readSetPixelFormat hostBig s = need (3 + 16) s (\<lambda>s.
     ebind (skip 3 s) (\<lambda>s. ebind (read_format hostBig s) (\<lambda>(pf, s). Inr (Done (Some (SetPixelFormat pf)), s))))"

definition readSetEncodings :: "instream \<Rightarrow> client_outcome reading" where
  "readSetEncodings s = need (1 + 2) s (\<lambda>s.
     ebind (setRestorePoint s) (\<lambda>s. ebind (skip 1 s) (\<lambda>s. ebind (readU16 s) (\<lambda>(n, s).
     need_or_restore (unat n * 4) s (\<lambda>s. ebind (clearRestorePoint s) (\<lambda>s.
     ebind (read_n (unat n) readU32 s) (\<lambda>(encs, s). Inr (Done (Some (SetEncodings (map sint encs))), s))))))))"

definition readSetDesktopSize :: "instream \<Rightarrow> client_outcome reading" where
  "readSetDesktopSize s = need (1 + 2 + 2 + 1 + 1) s (\<lambda>s.
     ebind (setRestorePoint s) (\<lambda>s. ebind (skip 1 s) (\<lambda>s.
     ebind (get16 s) (\<lambda>(width, s). ebind (get16 s) (\<lambda>(height, s). ebind (readU8 s) (\<lambda>(screens, s).
     ebind (skip 1 s) (\<lambda>s.
     need_or_restore (unat screens * (4 + 2 + 2 + 2 + 2 + 4)) s (\<lambda>s. ebind (clearRestorePoint s) (\<lambda>s.
     ebind (read_n (unat screens) read_screen s) (\<lambda>(layout, s).
     Inr (Done (Some (SetDesktopSize width height layout)), s)))))))))))"

definition readFramebufferUpdateRequest :: "instream \<Rightarrow> client_outcome reading" where
  "readFramebufferUpdateRequest s = need (1 + 2 + 2 + 2 + 2) s (\<lambda>s.
     ebind (readU8 s) (\<lambda>(inc, s). ebind (get16 s) (\<lambda>(x, s). ebind (get16 s) (\<lambda>(y, s).
     ebind (get16 s) (\<lambda>(w, s). ebind (get16 s) (\<lambda>(h, s).
     Inr (Done (Some (FramebufferUpdateRequest (mk_rect x y w h) (inc \<noteq> 0))), s)))))))"

definition readEnableContinuousUpdates :: "instream \<Rightarrow> client_outcome reading" where
  "readEnableContinuousUpdates s = need (1 + 2 + 2 + 2 + 2) s (\<lambda>s.
     ebind (readU8 s) (\<lambda>(enable, s). ebind (get16 s) (\<lambda>(x, s). ebind (get16 s) (\<lambda>(y, s).
     ebind (get16 s) (\<lambda>(w, s). ebind (get16 s) (\<lambda>(h, s).
     Inr (Done (Some (EnableContinuousUpdates (enable \<noteq> 0) x y w h)), s)))))))"

definition readFence :: "instream \<Rightarrow> client_outcome reading" where
  "readFence = read_fence Fence"

definition readKeyEvent :: "instream \<Rightarrow> client_outcome reading" where
  "readKeyEvent s = need (1 + 2 + 4) s (\<lambda>s.
     ebind (readU8 s) (\<lambda>(down, s). ebind (skip 2 s) (\<lambda>s. ebind (readU32 s) (\<lambda>(key, s).
     Inr (Done (Some (KeyEvent key 0 (down \<noteq> 0))), s)))))"

text \<open>\<open>ext\<close>: the client has announced extended mouse buttons.\<close>

definition readPointerEvent :: "bool \<Rightarrow> instream \<Rightarrow> client_outcome reading" where
  "readPointerEvent ext s = need (1 + 2 + 2) s (\<lambda>s.
     ebind (setRestorePoint s) (\<lambda>s.
     ebind (readU8 s) (\<lambda>(mask, s). ebind (get16 s) (\<lambda>(x, s). ebind (get16 s) (\<lambda>(y, s).
     if ext \<and> mask AND 0x80 \<noteq> 0 then
       need_or_restore 1 s (\<lambda>s. ebind (readU8 s) (\<lambda>(highBits, s).
       ebind (clearRestorePoint s) (\<lambda>s.
       Inr (Done (Some (PointerEvent (x, y) (push_bit 7 (ucast highBits) OR ucast (mask AND 0x7f)))), s))))
     else ebind (clearRestorePoint s) (\<lambda>s. Inr (Done (Some (PointerEvent (x, y) (ucast mask))), s)))))))"

definition readClientCutText :: "(byte list \<Rightarrow> byte list option) \<Rightarrow> nat \<Rightarrow> instream \<Rightarrow> client_outcome reading" where
  "readClientCutText inflate maxCutText s = need (3 + 4) s (\<lambda>s.
     ebind (setRestorePoint s) (\<lambda>s. ebind (skip 3 s) (\<lambda>s. ebind (readU32 s) (\<lambda>(len, s).
     if len AND 0x80000000 \<noteq> 0 then
       settle (readExtendedClipboard ClientClipboard inflate maxCutText (sint (- len))) s
     else need_or_restore (unat len) s (\<lambda>s. ebind (clearRestorePoint s) (\<lambda>s.
       if unat len > maxCutText then ebind (skip (unat len) s) (\<lambda>s. Inr (Done None, s))
       else ebind (readBytes (unat len) s) (\<lambda>(ca, s).
         case cut_text ca of
           None \<Rightarrow> Inl (LogicError ''read past the end of the text'')
         | Some text \<Rightarrow> Inr (Done (Some (ClientCutText text)), s))))))))"

definition readQEMUKeyEvent :: "instream \<Rightarrow> client_outcome reading" where
  "readQEMUKeyEvent s = need (2 + 4 + 4) s (\<lambda>s.
     ebind (readU16 s) (\<lambda>(down, s). ebind (readU32 s) (\<lambda>(keysym, s). ebind (readU32 s) (\<lambda>(keycode, s).
     if keycode = 0 then Inr (Done None, s)
     else Inr (Done (Some (KeyEvent keysym keycode (down \<noteq> 0))), s)))))"

definition readQEMUMessage :: "instream \<Rightarrow> client_outcome reading" where
  "readQEMUMessage s = need 1 s (\<lambda>s.
     ebind (setRestorePoint s) (\<lambda>s. ebind (readU8 s) (\<lambda>(subType, s).
     if subType = 0 then
       settle readQEMUKeyEvent s
     else Inl (ProtocolError ''Unknown QEMU submessage type''))))"

text \<open>
  The reader between calls: the type of the message it is in, if any, and the calls made so
  far. What the handler knows of the client, here whether it announced extended mouse
  buttons, is a function \<open>ext\<close> of those calls. \<open>cfg\<close> bundles the surroundings.
\<close>

record reader =
  currentMsgType :: "byte option"
  calls :: "client_call list"

record reader_cfg =
  cfg_hostBig :: bool
  cfg_inflate :: "byte list \<Rightarrow> byte list option"
  cfg_maxCutText :: nat
  cfg_ext :: "client_call list \<Rightarrow> bool"

definition read_body :: "reader_cfg \<Rightarrow> client_call list \<Rightarrow> byte \<Rightarrow> instream \<Rightarrow> client_outcome reading" where
  "read_body cfg cs t s =
     (if t = 0 then readSetPixelFormat (cfg_hostBig cfg) s
      else if t = 2 then readSetEncodings s
      else if t = 251 then readSetDesktopSize s
      else if t = 3 then readFramebufferUpdateRequest s
      else if t = 150 then readEnableContinuousUpdates s
      else if t = 248 then readFence s
      else if t = 4 then readKeyEvent s
      else if t = 5 then readPointerEvent (cfg_ext cfg cs) s
      else if t = 6 then readClientCutText (cfg_inflate cfg) (cfg_maxCutText cfg) s
      else if t = 255 then readQEMUMessage s
      else Inl (ProtocolError ''Unknown message type''))"

text \<open>\<open>MSGSTATE_IDLE\<close>: the type byte.\<close>

definition read_type :: "reader reading_step" where
  "read_type r s = (case currentMsgType r of
       Some t \<Rightarrow> Inr (True, r, s)
     | None \<Rightarrow> (case hasData 1 s of (ok, s) \<Rightarrow>
         if \<not> ok then Inr (False, r, s)
         else ebind (readU8 s) (\<lambda>(t, s). Inr (True, r\<lparr>currentMsgType := Some t\<rparr>, s))))"

definition finish_msg :: "client_call option \<Rightarrow> reader \<Rightarrow> reader" where
  "finish_msg c r = \<lparr>currentMsgType = None, calls = calls r @ (case c of None \<Rightarrow> [] | Some c \<Rightarrow> [c])\<rparr>"

definition readMsg :: "reader_cfg \<Rightarrow> reader reading_step" where
  "readMsg cfg = andthen read_type (run_body (\<lambda>r. read_body cfg (calls r) (the (currentMsgType r))) finish_msg)"

end
