(* ===== verification/Client_Link.thy ===== *)
theory Client_Link
  imports Client_Messages
begin

text \<open>
  The server's reader of the client's messages in the loop around it
  (\<open>VNCSConnectionST::processSocketReadEvent\<close>): it never uses the stream beyond what it has
  checked, it returns on every input, and the arrival times of the bytes do not matter.
\<close>

subsection \<open>The messages\<close>

lemma plain_messages [sound_rules]:
  "sound_reader readClientInit" "sound_reader (readSetPixelFormat h)"
  "sound_reader readFramebufferUpdateRequest" "sound_reader readEnableContinuousUpdates"
  "sound_reader readKeyEvent"
  unfolding readClientInit_def [abs_def] readSetPixelFormat_def [abs_def] readFramebufferUpdateRequest_def [abs_def]
    readEnableContinuousUpdates_def [abs_def] readKeyEvent_def [abs_def]
  by (rule sound_need, rule reader_plain, (rule triple_rules | simp)+, intro local_rules)+

lemma sound_fence [sound_rules]: "sound_reader (read_fence wrap)"
  unfolding read_fence_def [abs_def]
  by (rule sound_need, rule reader_restore, (rule triple_rules | simp)+, intro local_rules)

lemma local_qemu_key [local_rules]: "local_msg readQEMUKeyEvent"
  unfolding readQEMUKeyEvent_def [abs_def] by (intro local_rules)

lemma reads_qemu_key [triple_rules]: "reads m c 0 readQEMUKeyEvent"
  unfolding readQEMUKeyEvent_def [abs_def] by (rule triple_rules | simp)+

lemma counted_messages [sound_rules]:
  "sound_reader readSetEncodings" "sound_reader readSetDesktopSize"
  "sound_reader (readPointerEvent ext)" "sound_reader readQEMUMessage"
  unfolding readSetEncodings_def [abs_def] readSetDesktopSize_def [abs_def]
    readPointerEvent_def [abs_def] readQEMUMessage_def [abs_def]
  by (rule sound_need, rule reader_restore, (rule triple_rules | simp)+, intro local_rules)+

lemma cut_text_message [sound_rules]: "sound_reader (readClientCutText inflate maxCutText)"
proof -
  have l: "sint (- len) < 2 ^ 31" for len :: u32 using sint_lt [of "- len"] by simp
  show ?thesis unfolding readClientCutText_def [abs_def] cut_text_known
    by (rule sound_need, rule reader_restore, (rule triple_rules reads_extended l | simp)+, intro local_rules)
qed

lemma sound_body: "sound_reader (read_body cfg cs t)"
  unfolding read_body_def [abs_def] readFence_def by (intro sound_rules)

subsection \<open>The reader\<close>

lemma read_type_cases:
  "read_type r s = (case currentMsgType r of
     Some t \<Rightarrow> Inr (True, r, s)
   | None \<Rightarrow> (case unread s of
       [] \<Rightarrow> Inr (False, r, s\<lparr>checkedBytes := 0\<rparr>)
     | t # rest \<Rightarrow> Inr (True, r\<lparr>currentMsgType := Some t\<rparr>, (passed [t] s)\<lparr>checkedBytes := 0\<rparr>)))"
proof (cases "unread s")
  case Nil
  then show ?thesis by (simp add: read_type_def hasData_def split: option.split)
next
  case (Cons t rest)
  then have "readU8 (s\<lparr>checkedBytes := 1\<rparr>) = Inr (t, passed [t] (s\<lparr>checkedBytes := 1\<rparr>))"
    using u8.get_put [where x = t and s = "s\<lparr>checkedBytes := 1\<rparr>" and r = rest] by (simp add: putU8_def)
  moreover have "passed [t] (s\<lparr>checkedBytes := 1\<rparr>) = (passed [t] s)\<lparr>checkedBytes := 0\<rparr>"
    by (simp add: passed_def)
  ultimately show ?thesis using Cons by (simp add: read_type_def hasData_def split: option.split)
qed

lemma read_type_resumes: "resumes read_type"
proof (rule resumesI)
  fix r :: reader and s :: instream and b r1 s1
  assume p: "past s = None" and t: "read_type r s = Inr (True, r1, s1)"
  show "past s1 = None \<and> behind s1 s \<and> read_type r (arrive b s) = Inr (True, r1, arrive b s1)"
    using p t by (auto simp: read_type_cases behind_def passed_def arrive_def split: option.splits list.splits
        intro: exI [of _ "[hd (unread s)]"])
next
  fix r :: reader and s :: instream and b r1 s1
  assume p: "past s = None" and t: "read_type r s = Inr (False, r1, s1)"
  then show "past s1 = None \<and> behind s1 s \<and> read_type r (arrive b s) = read_type r1 (arrive b s1)"
    by (auto simp: read_type_cases behind_def passed_def arrive_def split: option.splits list.splits)
qed (auto simp: read_type_cases split: option.splits list.splits)

interpretation client_link: message_loop "readMsg cfg" "\<lambda>r. if currentMsgType r = None then 0 else 1" for cfg
proof
  show "resumes (readMsg cfg)"
    unfolding readMsg_def
    by (intro resumes_andthen read_type_resumes resumes_body sound_body)
      (auto simp: read_type_cases run_body_cases split: option.splits list.splits sum.splits prod.splits outcome.splits)
  fix r s r1 s1
  assume p: "past s = None" and m: "readMsg cfg r s = Inr (True, r1, s1)"
  let ?body = "run_body (\<lambda>r. read_body cfg (calls r) (the (currentMsgType r))) finish_msg"
  from m obtain r0 s0 where t: "read_type r s = Inr (True, r0, s0)" and b: "?body r0 s0 = Inr (True, r1, s1)"
    unfolding readMsg_def andthen_cases by (auto split: sum.splits if_splits)
  have r1: "currentMsgType r1 = None" using b by (auto simp: run_body_cases finish_msg_def split: sum.splits prod.splits outcome.splits)
  have "past s0 = None" using t p resumesD(2) [OF read_type_resumes p t] by simp
  then have "length (unread s1) \<le> length (unread s0)"
    using resumesD(2) [OF resumes_body [OF sound_body] _ b] behind_length by blast
  moreover have "currentMsgType r = None \<Longrightarrow> length (unread s0) < length (unread s)"
    "currentMsgType r \<noteq> None \<Longrightarrow> s0 = s"
    using t by (auto simp: read_type_cases passed_def split: option.splits list.splits)
  ultimately show "(if currentMsgType r1 = None then 0 else 1) + 2 * length (unread s1) <
      (if currentMsgType r = None then 0 else 1) + 2 * length (unread s)"
    using r1 by (cases "currentMsgType r = None") auto
qed

subsection \<open>Properties\<close>

text \<open>What one call of the reader may do.\<close>

definition readMsg_ok :: "reader \<Rightarrow> instream \<Rightarrow> stream_error + bool \<times> reader \<times> instream \<Rightarrow> bool" where
  "readMsg_ok r s res \<longleftrightarrow> (case res of
     Inl e \<Rightarrow> (\<exists>m. e = ProtocolError m)
   | Inr (True, r', s') \<Rightarrow> past s' = None \<and> (\<exists>p. p @ unread s' = unread s) \<and>
       currentMsgType r' = None \<and> (currentMsgType r = None \<longrightarrow> unread s' \<noteq> unread s) \<and>
       (\<exists>new. calls r' = calls r @ new \<and> length new \<le> 1)
   | Inr (False, r', s') \<Rightarrow> past s' = None \<and> calls r' = calls r \<and>
       (case currentMsgType r of
          Some t \<Rightarrow> currentMsgType r' = Some t \<and> unread s' = unread s
        | None \<Rightarrow> (case unread s of
            [] \<Rightarrow> currentMsgType r' = None \<and> unread s' = []
          | t # rest \<Rightarrow> currentMsgType r' = Some t \<and> unread s' = rest)))"

lemma read_body_ok:
  assumes "past s = None"
  shows "case read_body cfg cs t s of
      Inl e \<Rightarrow> \<exists>m. e = ProtocolError m
    | Inr (Done c, s1) \<Rightarrow> past s1 = None \<and> (\<exists>p. p @ unread s1 = unread s)
    | Inr (Incomplete, s1) \<Rightarrow> past s1 = None \<and> unread s1 = unread s"
  using sound_body [of cfg cs t, unfolded sound_reader_def, rule_format, OF assms]
  by (auto simp: is_protocol_def behind_def split: sum.splits prod.splits outcome.splits)

lemma readMsg_cases:
  "readMsg cfg r s = (case read_type r s of
     Inl e \<Rightarrow> Inl e
   | Inr (False, r0, s0) \<Rightarrow> Inr (False, r0, s0)
   | Inr (True, r0, s0) \<Rightarrow> (case read_body cfg (calls r0) (the (currentMsgType r0)) s0 of
       Inl e \<Rightarrow> Inl e
     | Inr (Incomplete, s1) \<Rightarrow> Inr (False, r0, s1)
     | Inr (Done c, s1) \<Rightarrow> Inr (True, finish_msg c r0, s1)))"
  by (auto simp: readMsg_def andthen_cases run_body_cases split: sum.splits prod.splits outcome.splits bool.splits)

lemma readMsg_ok_always:
  assumes "past s = None"
  shows "readMsg_ok r s (readMsg cfg r s)"
proof -
  have one: "\<exists>new. calls (finish_msg c r) = calls r @ new \<and> length new \<le> 1" for c and r :: reader
    by (cases c) (auto simp: finish_msg_def)
  have body: "readMsg_ok \<lparr>currentMsgType = Some t, calls = cs\<rparr> s (readMsg cfg \<lparr>currentMsgType = Some t, calls = cs\<rparr> s)"
    if "past s = None" for t cs and s :: instream
    using read_body_ok [OF that, of cfg cs t] one [of _ "\<lparr>currentMsgType = Some t, calls = cs\<rparr>"]
    by (auto simp: readMsg_cases read_type_cases readMsg_ok_def finish_msg_def split: sum.splits prod.splits outcome.splits)
  show ?thesis
  proof (cases "currentMsgType r")
    case (Some t)
    then obtain cs where r: "r = \<lparr>currentMsgType = Some t, calls = cs\<rparr>" by (cases r) simp
    show ?thesis unfolding r using assms by (rule body)
  next
    case None
    then obtain cs where r: "r = \<lparr>currentMsgType = None, calls = cs\<rparr>" by (cases r) simp
    show ?thesis
    proof (cases "unread s")
      case Nil
      then show ?thesis using assms by (simp add: r readMsg_cases read_type_cases readMsg_ok_def)
    next
      case (Cons t rest)
      let ?r = "\<lparr>currentMsgType = Some t, calls = cs\<rparr>" and ?s = "(passed [t] s)\<lparr>checkedBytes := 0\<rparr>"
      have "readMsg cfg r s = readMsg cfg ?r ?s"
        using Cons by (simp add: r readMsg_cases read_type_cases)
      moreover have "readMsg_ok ?r ?s (readMsg cfg ?r ?s)"
        using assms by (intro body) (simp add: passed_def)
      moreover have "unread ?s = rest" using Cons by (simp add: passed_def)
      moreover have "\<exists>q. q @ u = t # rest" if "p @ u = rest" for p u :: "byte list"
        using that by (intro exI [of _ "t # p"]) simp
      moreover have "u \<noteq> t # rest" if "p @ u = rest" for p u :: "byte list"
        using that arg_cong [of "p @ u" rest length] by auto
      ultimately show ?thesis using Cons
        unfolding r readMsg_ok_def by (auto split: sum.splits prod.splits bool.splits)
    qed
  qed
qed


definition demo_cfg :: reader_cfg where
  "demo_cfg = \<lparr>cfg_hostBig = False, cfg_inflate = Some, cfg_maxCutText = 262144, cfg_ext = (\<lambda>_. True)\<rparr>"

definition idle_reader :: reader where
  "idle_reader = \<lparr>currentMsgType = None, calls = []\<rparr>"






end
