(* ===== verification/Client_Delivery.thy ===== *)
theory Client_Delivery
  imports Client_Link Message_Delivery
begin

text \<open>
  What \<open>CMsgWriter\<close> writes, \<open>SMsgReader\<close> turns into the same call: for each message
  with arguments that fit its fields, alone and in a connection.
\<close>

subsection \<open>The plain messages\<close>

lemma gives_pixel_format: "carried (cfg_hostBig cfg) pf \<Longrightarrow>
    gives (read_body cfg cs 0) (pad 3 @ write_format pf) (SetPixelFormat pf)"
  by (simp add: gives_def read_body_def readSetPixelFormat_def body_simps)

lemma gives_update_request: "fits_rect r \<Longrightarrow>
    gives (read_body cfg cs 3) (putU8 (of_bool inc) @ put16 (tl_x r) @ put16 (tl_y r) @ put16 (rect_width r) @ put16 (rect_height r))
      (FramebufferUpdateRequest r inc)"
  by (simp add: gives_def read_body_def readFramebufferUpdateRequest_def body_simps fits_rect_def mk_rect_fields)

lemma gives_continuous: "fits16 x \<Longrightarrow> fits16 y \<Longrightarrow> fits16 w \<Longrightarrow> fits16 h \<Longrightarrow>
    gives (read_body cfg cs 150) (putU8 (of_bool enable) @ put16 x @ put16 y @ put16 w @ put16 h)
      (EnableContinuousUpdates enable x y w h)"
  by (simp add: gives_def read_body_def readEnableContinuousUpdates_def body_simps)

lemma gives_key: "gives (read_body cfg cs 4) (putU8 (of_bool down) @ pad 2 @ putU32 keysym) (KeyEvent keysym 0 down)"
  by (simp add: gives_def read_body_def readKeyEvent_def body_simps)

lemma gives_encodings:
  assumes "length es < 2 ^ 16" and "\<forall>e\<in>set es. - (2 ^ 31) \<le> e \<and> e < 2 ^ 31"
  shows "gives (read_body cfg cs 2) (pad 1 @ putU16 (of_nat (length (map word_of_int es :: u32 list))) @
      concat (map putU32 (map word_of_int es))) (SetEncodings es)"
proof -
  define ws :: "u32 list" where "ws = map word_of_int es"
  have n: "unat (of_nat (length ws) :: u16) = length ws"
    using assms(1) by (simp add: ws_def unat_of_nat take_bit_nat_eq_self)
  have "map sint ws = es"
    unfolding ws_def map_map using assms(2) sint_word_of_int [where 'a = 32] by (intro map_idI) auto
  then show ?thesis unfolding ws_def [symmetric]
    by (simp add: gives_def read_body_def readSetEncodings_def body_simps n)
qed

lemma gives_desktop_size:
  assumes "fits16 w" and "fits16 h" and "length layout < 2 ^ 8" and "\<forall>sc\<in>set layout. fits_rect (dimensions sc)"
  shows "gives (read_body cfg cs 251) (pad 1 @ put16 w @ put16 h @ putU8 (of_nat (length layout)) @ pad 1 @ concat (map put_screen layout))
    (SetDesktopSize w h layout)"
proof -
  have n: "unat (of_nat (length layout) :: byte) = length layout"
    using assms(3) by (simp add: unat_of_nat take_bit_nat_eq_self)
  show ?thesis using assms
    by (simp add: gives_def read_body_def readSetDesktopSize_def body_simps n)
qed

lemma gives_qemu_key:
  "keycode \<noteq> 0 \<Longrightarrow>
    gives (read_body cfg cs 255) (putU8 0 @ putU16 (of_bool down) @ putU32 keysym @ putU32 keycode) (KeyEvent keysym keycode down)"
  by (simp add: gives_def read_body_def readQEMUMessage_def readQEMUKeyEvent_def settle_def body_simps)

subsection \<open>The pointer\<close>

lemma mask_bits:
  "bit (0x7f :: 'a::len word) n \<longleftrightarrow> n < LENGTH('a) \<and> n < 7"
  "bit (0x80 :: 'a word) n \<longleftrightarrow> n < LENGTH('a) \<and> n = 7"
  "bit (0xff :: 'a word) n \<longleftrightarrow> n < LENGTH('a) \<and> n < 8"
  "bit (0x7f80 :: 'a word) n \<longleftrightarrow> n < LENGTH('a) \<and> 7 \<le> n \<and> n < 15"
  "bit (0x8000 :: 'a word) n \<longleftrightarrow> n < LENGTH('a) \<and> n = 15"
proof -
  have "(0x7f :: 'a word) = mask 7" "(0x80 :: 'a word) = push_bit 7 1" "(0xff :: 'a word) = mask 8"
    "(0x7f80 :: 'a word) = push_bit 7 (mask 8)" "(0x8000 :: 'a word) = push_bit 15 1"
    by (simp_all add: mask_eq_exp_minus_1 push_bit_eq_mult)
  note eqs = this
  show "bit (0x7f :: 'a word) n \<longleftrightarrow> n < LENGTH('a) \<and> n < 7" "bit (0xff :: 'a word) n \<longleftrightarrow> n < LENGTH('a) \<and> n < 8"
    unfolding eqs(1,3) bit_mask_iff by (auto simp: possible_bit_word)
  show "bit (0x80 :: 'a word) n \<longleftrightarrow> n < LENGTH('a) \<and> n = 7" "bit (0x8000 :: 'a word) n \<longleftrightarrow> n < LENGTH('a) \<and> n = 15"
    unfolding eqs(2,5) bit_push_bit_iff bit_1_iff by (auto simp: possible_bit_word)
  show "bit (0x7f80 :: 'a word) n \<longleftrightarrow> n < LENGTH('a) \<and> 7 \<le> n \<and> n < 15"
    unfolding eqs(4) bit_push_bit_iff bit_mask_iff by (auto simp: possible_bit_word)
qed

lemmas bit_rules = bit_and_iff bit_or_iff bit_push_bit_iff bit_drop_bit_eq bit_ucast_iff possible_bit_word mask_bits

lemma simple_mask:
  fixes m :: u16
  assumes "m AND 0x7f80 = 0" and "m AND 0x8000 = 0"
  shows "ucast (m AND 0x7f) AND (0x80 :: byte) = 0" and "ucast (ucast (m AND 0x7f) :: byte) = (m :: u16)"
proof -
  have h: "n < 7" if "bit m n" for n
  proof (rule ccontr)
    assume "\<not> n < 7"
    moreover have "n < 16" using that bit_imp_le_length by force
    ultimately have "bit (m AND 0x7f80) n \<or> bit (m AND 0x8000) n"
      using that by (cases "n = 15") (auto simp: bit_rules simp del: bit_numeral_word_iff)
    then show False using assms by simp
  qed
  show "ucast (m AND 0x7f) AND (0x80 :: byte) = 0"
    by (rule bit_word_eqI) (auto simp: bit_rules simp del: bit_numeral_word_iff)
  show "ucast (ucast (m AND 0x7f) :: byte) = m"
    by (rule bit_word_eqI) (auto simp: bit_rules simp del: bit_numeral_word_iff dest: h)
qed

lemma extended_mask:
  fixes m :: u16
  assumes "m AND 0x8000 = 0"
  shows "ucast (m AND 0x7f OR 0x80) AND (0x80 :: byte) \<noteq> 0"
    and "push_bit 7 (ucast (ucast (drop_bit 7 m AND 0xff) :: byte)) OR
      ucast ((ucast (m AND 0x7f OR 0x80) :: byte) AND 0x7f) = (m :: u16)"
proof -
  have h: "n \<noteq> 15" if "bit m n" for n
  proof
    assume "n = 15"
    then have "bit (m AND 0x8000) 15" using that by (simp add: bit_rules del: bit_numeral_word_iff)
    then show False using assms by simp
  qed
  have "bit (ucast (m AND 0x7f OR 0x80) AND (0x80 :: byte)) 7" by (simp add: bit_rules del: bit_numeral_word_iff)
  then show "ucast (m AND 0x7f OR 0x80) AND (0x80 :: byte) \<noteq> 0" by auto
  show "push_bit 7 (ucast (ucast (drop_bit 7 m AND 0xff) :: byte)) OR
      ucast ((ucast (m AND 0x7f OR 0x80) :: byte) AND 0x7f) = m"
  proof (rule bit_word_eqI)
    fix n assume "n < LENGTH(16)"
    then consider "n < 7" | "7 \<le> n" "n < 15" | "n = 15" by fastforce
    then show "bit (push_bit 7 (ucast (ucast (drop_bit 7 m AND 0xff) :: byte) :: u16) OR
        ucast ((ucast (m AND 0x7f OR 0x80) :: byte) AND 0x7f)) n = bit m n"
      by cases (auto simp: bit_rules simp del: bit_numeral_word_iff dest: h)
  qed
qed

lemma gives_pointer:
  fixes m :: u16
  assumes "fits16 x" and "fits16 y" and "m AND 0x7f80 = 0" and "m AND 0x8000 = 0"
  shows "gives (read_body cfg cs 5) (putU8 (ucast (m AND 0x7f)) @ put16 x @ put16 y) (PointerEvent (x, y) m)"
  using simple_mask [OF assms(3,4)] assms(1,2)
  by (simp add: gives_def read_body_def readPointerEvent_def body_simps)

lemma gives_extended_pointer:
  fixes m :: u16
  assumes "fits16 x" and "fits16 y" and "m AND 0x8000 = 0" and "cfg_ext cfg cs"
  shows "gives (read_body cfg cs 5) (putU8 (ucast (m AND 0x7f OR 0x80)) @ put16 x @ put16 y @ putU8 (ucast (drop_bit 7 m AND 0xff)))
    (PointerEvent (x, y) m)"
  using extended_mask [OF assms(3)] assms(1,2,4)
  by (simp add: gives_def read_body_def readPointerEvent_def body_simps)

subsection \<open>The clipboard\<close>

lemma gives_cut_text:
  assumes "length la < 2 ^ 31" and "length la \<le> cfg_maxCutText cfg" and "cut_text la = Some text"
  shows "gives (read_body cfg cs 6) (put_text la) (ClientCutText text)"
  using assms text_length [OF assms(1)]
  by (simp add: gives_def read_body_def readClientCutText_def put_text_def body_simps)

lemma gives_extended:
  assumes "gives_ext ClientClipboard (cfg_inflate cfg) (cfg_maxCutText cfg) flags bs c" and "4 + length bs < 2 ^ 31"
  shows "gives (read_body cfg cs 6) (put_extended flags bs) (ClientClipboard c)"
proof -
  define n where "n = int (4 + length bs)"
  have n: "0 < n" "n < 2 ^ 31" using assms(2) by (simp_all add: n_def)
  show ?thesis
    unfolding gives_def put_extended_def n_def [symmetric]
  proof (intro allI)
    fix r k
    obtain k' where "settle (readExtendedClipboard ClientClipboard (cfg_inflate cfg) (cfg_maxCutText cfg) n)
       \<lparr>unread = putU32 flags @ bs @ r, past = Some (pad 3 @ putU32 (word_of_int (- n))), checkedBytes = 0\<rparr> =
       Inr (Done (Some (ClientClipboard c)), \<lparr>unread = r, past = None, checkedBytes = k'\<rparr>)"
      using settle_ext [OF assms(1)] unfolding n_def [symmetric] by blast
    then show "\<exists>k'. read_body cfg cs 6 \<lparr>unread = (pad 3 @ putS32 (- n) @ putU32 flags @ bs) @ r, past = None, checkedBytes = k\<rparr> =
        Inr (Done (Some (ClientClipboard c)), \<lparr>unread = r, past = None, checkedBytes = k'\<rparr>)"
      using extended_length [OF n] by (simp add: read_body_def readClientCutText_def putS32_def body_simps)
  qed
qed

lemma gives_clip:
  assumes "clip_fits (cfg_inflate cfg) deflate (cfg_maxCutText cfg) c" and "clip_body deflate c = (flags, bs)"
  shows "gives (read_body cfg cs 6) (put_extended flags bs) (ClientClipboard c)"
  using clip_gives [OF assms] by (intro gives_extended)

subsection \<open>Every message\<close>

text \<open>The writer asked to make a call of the server's handler.\<close>

fun send_call :: "(byte list \<Rightarrow> byte list) \<Rightarrow> server_params \<Rightarrow> client_call \<Rightarrow> writing" where
  "send_call deflate server (ClientInit shared) = writeClientInit shared"
| "send_call deflate server (SetPixelFormat pf) = writeSetPixelFormat pf"
| "send_call deflate server (SetEncodings es) = writeSetEncodings (map word_of_int es)"
| "send_call deflate server (SetDesktopSize w h layout) = writeSetDesktopSize server w h layout"
| "send_call deflate server (FramebufferUpdateRequest r incremental) = writeFramebufferUpdateRequest r incremental"
| "send_call deflate server (EnableContinuousUpdates enable x y w h) = writeEnableContinuousUpdates server enable x y w h"
| "send_call deflate server (Fence flags data) = writeFence server flags data"
| "send_call deflate server (KeyEvent keysym keycode down) = writeKeyEvent server keysym keycode down"
| "send_call deflate server (PointerEvent pos buttons) = writePointerEvent server pos buttons"
| "send_call deflate server (ClientCutText str) = writeClientCutText str"
| "send_call deflate server (ClientClipboard (ClipboardCaps flags lengths)) = writeClipboardCaps server flags lengths"
| "send_call deflate server (ClientClipboard (ClipboardRequest flags)) = writeClipboardRequest server flags"
| "send_call deflate server (ClientClipboard ClipboardPeek) = writeClipboardPeek server 0"
| "send_call deflate server (ClientClipboard (ClipboardNotify flags)) = writeClipboardNotify server flags"
| "send_call deflate server (ClientClipboard (ClipboardProvide flags data)) = writeClipboardProvide deflate server flags data"

text \<open>
  The arguments that a message can carry: values that fit their fields, flags with the one
  action, texts and formats within the server's limit. An extended pointer event is for a
  server that knows the client announced it.
\<close>

fun deliverable :: "reader_cfg \<Rightarrow> (byte list \<Rightarrow> byte list) \<Rightarrow> server_params \<Rightarrow> client_call \<Rightarrow> bool" where
  "deliverable cfg deflate server (ClientInit shared) = False"
| "deliverable cfg deflate server (SetPixelFormat pf) = carried (cfg_hostBig cfg) pf"
| "deliverable cfg deflate server (SetEncodings es) = (length es < 2 ^ 16 \<and> (\<forall>e\<in>set es. - (2 ^ 31) \<le> e \<and> e < 2 ^ 31))"
| "deliverable cfg deflate server (SetDesktopSize w h layout) =
     (fits16 w \<and> fits16 h \<and> length layout < 2 ^ 8 \<and> (\<forall>sc\<in>set layout. fits_rect (dimensions sc)))"
| "deliverable cfg deflate server (FramebufferUpdateRequest r incremental) = fits_rect r"
| "deliverable cfg deflate server (EnableContinuousUpdates enable x y w h) = (fits16 x \<and> fits16 y \<and> fits16 w \<and> fits16 h)"
| "deliverable cfg deflate server (Fence flags data) = True"
| "deliverable cfg deflate server (KeyEvent keysym keycode down) =
     (if keycode = 0 then keysym \<noteq> 0 else supportsQEMUKeyEvent server)"
| "deliverable cfg deflate server (PointerEvent pos buttons) =
     (fits16 (fst pos) \<and> fst pos < server_width server \<and> fits16 (snd pos) \<and> snd pos < server_height server \<and>
      (buttons AND 0x7f80 = 0 \<or> supportsExtendedMouseButtons server \<and> (\<forall>cs. cfg_ext cfg cs)))"
| "deliverable cfg deflate server (ClientCutText str) =
     (\<exists>cps. str = concat (map ucs4ToUTF8 cps) \<and> (\<forall>c\<in>set cps. c \<noteq> 0 \<and> c < 0x100) \<and>
        length cps < 2 ^ 31 \<and> length cps \<le> cfg_maxCutText cfg)"
| "deliverable cfg deflate server (ClientClipboard c) = clip_fits (cfg_inflate cfg) deflate (cfg_maxCutText cfg) c"

definition sends :: "reader_cfg \<Rightarrow> client_call list \<Rightarrow> byte list \<Rightarrow> client_call \<Rightarrow> bool" where
  "sends cfg cs bs c \<longleftrightarrow> (\<exists>t body. bs = t # body \<and> gives (read_body cfg cs t) body c)"

lemma sendsI: "gives (read_body cfg cs (of_nat t)) body c \<Longrightarrow> sends cfg cs (startMsg t @ body) c"
  by (auto simp: sends_def startMsg_def putU8_def)

lemma send_arrives:
  assumes sent: "send_call deflate server c = Inr bs" and ok: "deliverable cfg deflate server c"
  shows "sends cfg cs bs c"
proof (cases c)
  case (ClientInit shared)
  then show ?thesis using ok by simp
next
  case (SetPixelFormat pf)
  then show ?thesis using sent ok sendsI [of cfg cs 0] gives_pixel_format by (auto simp: writeSetPixelFormat_def)
next
  case (SetEncodings es)
  then show ?thesis using sent ok sendsI [of cfg cs 2] gives_encodings [of es]
    by (auto simp: writeSetEncodings_def)
next
  case (SetDesktopSize w h layout)
  then show ?thesis using sent ok sendsI [of cfg cs 251] gives_desktop_size [of w h layout]
    by (auto simp: writeSetDesktopSize_def split: if_splits)
next
  case (FramebufferUpdateRequest r inc)
  then show ?thesis using sent ok sendsI [of cfg cs 3] gives_update_request [of r]
    by (auto simp: writeFramebufferUpdateRequest_def)
next
  case (EnableContinuousUpdates enable x y w h)
  then show ?thesis using sent ok sendsI [of cfg cs 150] gives_continuous [of x y w h]
    by (auto simp: writeEnableContinuousUpdates_def split: if_splits)
next
  case (Fence flags data)
  then show ?thesis using sent ok sendsI [of cfg cs 248] gives_fence [of data Fence flags]
    by (auto simp: writeFence_def read_body_def readFence_def gives_def split: if_splits)
next
  case (KeyEvent keysym keycode down)
  then show ?thesis using sent ok sendsI [of cfg cs 4] sendsI [of cfg cs 255] gives_key gives_qemu_key
    by (auto simp: writeKeyEvent_def split: if_splits)
next
  case (PointerEvent pos m)
  obtain x y where pos: "pos = (x, y)" by (cases pos)
  have "clamp (server_width server) x = x" "clamp (server_height server) y = y"
    using ok PointerEvent pos by (auto simp: clamp_def fits16_def Let_def)
  then show ?thesis
    using sent ok PointerEvent pos sendsI [of cfg cs 5] gives_pointer [of x y m] gives_extended_pointer [of x y m]
    by (auto simp: writePointerEvent_def Let_def split: if_splits)
next
  case (ClientCutText str)
  then obtain cps where cps: "str = concat (map ucs4ToUTF8 cps)" "\<forall>c\<in>set cps. c \<noteq> 0 \<and> c < 0x100"
      "length cps < 2 ^ 31" "length cps \<le> cfg_maxCutText cfg"
    using ok by auto
  have cr: "CR \<notin> set str" using sent ClientCutText by (auto simp: writeClientCutText_def write_text_def split: if_splits)
  note l = latin1_text [OF cps(2,3,1) cr]
  have "writeClientCutText str = Inr (startMsg 6 @ put_text (map ucast cps))"
    using cr unfolding writeClientCutText_def write_text_def l(1) by simp
  then have "bs = startMsg 6 @ put_text (map ucast cps)"
    using sent ClientCutText by simp
  moreover have "gives (read_body cfg cs (of_nat 6)) (put_text (map ucast cps)) c"
    using gives_cut_text [OF _ _ l(2), of cfg cs] cps(3,4) ClientCutText by simp
  ultimately show ?thesis by (simp only: sendsI)
next
  case (ClientClipboard clip)
  obtain flags body where body: "clip_body deflate clip = (flags, body)" by (cases "clip_body deflate clip")
  have "bs = startMsg 6 @ put_extended flags body"
    using sent ok body unfolding ClientClipboard
    by (cases clip) (auto simp: writeClipboardCaps_def writeClipboardRequest_def writeClipboardPeek_def
      writeClipboardNotify_def writeClipboardProvide_def write_action_def action_flags put_caps_body put_provide_body
      split: if_splits)
  moreover have "gives (read_body cfg cs (of_nat 6)) (put_extended flags body) c"
    using ok body gives_clip [of cfg deflate clip flags body cs] unfolding ClientClipboard by simp
  ultimately show ?thesis by (simp only: sendsI)
qed

text \<open>The reader on a message that has arrived in full.\<close>

lemma readMsg_message:
  assumes "sends cfg cs bs c" and "past s = None" and "unread s = bs @ r"
  shows "\<exists>s'. readMsg cfg \<lparr>currentMsgType = None, calls = cs\<rparr> s =
    Inr (True, \<lparr>currentMsgType = None, calls = cs @ [c]\<rparr>, s') \<and> past s' = None \<and> unread s' = r"
proof -
  obtain t body where bs: "bs = t # body" and g: "gives (read_body cfg cs t) body c" using assms(1) by (auto simp: sends_def)
  have s: "(passed [t] s)\<lparr>checkedBytes := 0\<rparr> = \<lparr>unread = body @ r, past = None, checkedBytes = 0\<rparr>"
    using assms(2,3) bs by (cases s) (simp add: passed_def)
  obtain k' where "read_body cfg cs t \<lparr>unread = body @ r, past = None, checkedBytes = 0\<rparr> =
      Inr (Done (Some c), \<lparr>unread = r, past = None, checkedBytes = k'\<rparr>)"
    using g unfolding gives_def by blast
  then show ?thesis using assms(3) bs s by (simp add: readMsg_cases read_type_cases finish_msg_def)
qed

lemma process_messages:
  assumes "list_all2 (\<lambda>c bs. send_call deflate server c = Inr bs) cs msgs"
    and "\<forall>c\<in>set cs. deliverable cfg deflate server c"
    and "past s = None" and "unread s = concat msgs"
  shows "\<exists>s'. drive (readMsg cfg) \<lparr>currentMsgType = None, calls = done_calls\<rparr> s =
    Some (Inr (\<lparr>currentMsgType = None, calls = done_calls @ cs\<rparr>, s')) \<and> past s' = None \<and> unread s' = []"
  using assms
proof (induction cs msgs arbitrary: s done_calls rule: list_all2_induct)
  case Nil
  then show ?case by (subst drive.simps) (simp add: readMsg_cases read_type_cases)
next
  case (Cons c cs bs msgs)
  have "sends cfg done_calls bs c" using Cons.hyps(1) Cons.prems(1) by (intro send_arrives) auto
  then obtain s1 where s1: "readMsg cfg \<lparr>currentMsgType = None, calls = done_calls\<rparr> s =
      Inr (True, \<lparr>currentMsgType = None, calls = done_calls @ [c]\<rparr>, s1)" "past s1 = None" "unread s1 = concat msgs"
    using readMsg_message [of cfg done_calls bs c s "concat msgs"] Cons.prems by auto
  obtain s' where "drive (readMsg cfg) \<lparr>currentMsgType = None, calls = done_calls @ [c]\<rparr> s1 =
      Some (Inr (\<lparr>currentMsgType = None, calls = (done_calls @ [c]) @ cs\<rparr>, s'))" "past s' = None" "unread s' = []"
    using Cons.IH [of s1 "done_calls @ [c]"] Cons.prems s1 by auto
  then show ?case using s1(1) by (subst drive.simps) simp
qed

subsection \<open>Properties\<close>


definition demo_server :: server_params where
  "demo_server = \<lparr>supportsSetDesktopSize = True, supportsContinuousUpdates = True, supportsFence = True,
     supportsQEMUKeyEvent = False, supportsExtendedMouseButtons = True, clipboardFlags = 0x1f000001,
     server_width = 1024, server_height = 768\<rparr>"


end
