(* ===== verification/Rect_Decoders.thy ===== *)
theory Rect_Decoders
  imports Message_Loop
begin

text \<open>
  How the client takes the rectangles of an update off the stream: \<open>readRect\<close> of the
  decoders (\<open>RawDecoder\<close>, \<open>CopyRectDecoder\<close>, \<open>RREDecoder\<close>,
  \<open>ZRLEDecoder\<close>, \<open>HextileDecoder\<close>, \<open>TightDecoder\<close>, \<open>JPEGDecoder\<close>) and
  \<open>DecodeManager::decodeRect\<close> around them. They are called again when more bytes have
  arrived and keep what they have read so far: the bytes for the decoding threads in
  \<open>rd_out\<close>, the tile or phase they are in, and the tables of a JPEG stream. What the
  decoding threads make of the bytes is not modelled. That all of them keep the contract of
  a reader is shown in the theory \<open>Decode_Manager\<close>.
\<close>

subsection \<open>State\<close>

datatype tight_state = TightIdle | TightFill | TightJpeg | TightFilter | TightPalette | TightPixels

datatype jpeg_state = JpegIdle | JpegSegment | JpegStream

record rect_decoder =
  rd_out :: "byte list"
  tile_x :: int
  tile_y :: int
  tight_state :: tight_state
  palSize :: nat
  jpeg_state :: jpeg_state
  seenHuffman :: bool
  seenQuant :: bool
  lastHuffmanTables :: "byte list list"
  lastQuantTables :: "byte list list"

definition new_decoder :: rect_decoder where
  "new_decoder = \<lparr>rd_out = [], tile_x = 0, tile_y = 0, tight_state = TightIdle, palSize = 0,
     jpeg_state = JpegIdle, seenHuffman = False, seenQuant = False, lastHuffmanTables = [], lastQuantTables = []\<rparr>"

text \<open>\<open>int\<close> arithmetic that ends up as a \<open>size_t\<close>.\<close>

definition int_size :: "int \<Rightarrow> nat" where
  "int_size i = nat (signed_take_bit 31 i mod 2 ^ 64)"

definition rect_empty :: "rect \<Rightarrow> bool" where
  "rect_empty r \<longleftrightarrow> tl_x r \<ge> br_x r \<or> tl_y r \<ge> br_y r"

definition area :: "rect \<Rightarrow> int" where
  "area r = (if rect_empty r then 0 else rect_width r * rect_height r)"

definition emit :: "byte list option \<Rightarrow> rect_decoder \<Rightarrow> rect_decoder" where
  "emit bs d = d\<lparr>rd_out := rd_out d @ (case bs of None \<Rightarrow> [] | Some bs \<Rightarrow> bs)\<rparr>"

subsection \<open>Raw, CopyRect, RRE, ZRLE, H.264\<close>

definition copy_body :: "nat \<Rightarrow> instream \<Rightarrow> byte list outcome reading" where
  "copy_body n s = need n s (\<lambda>s. ebind (readBytes n s) (\<lambda>(bs, s). Inr (Done (Some bs), s)))"

definition raw_readRect :: "int \<Rightarrow> rect \<Rightarrow> rect_decoder reading_step" where
  "raw_readRect Bpp r = run_body (\<lambda>_. copy_body (int_size (area r * Bpp))) emit"

definition copyRect_readRect :: "rect_decoder reading_step" where
  "copyRect_readRect = run_body (\<lambda>_. copy_body 4) emit"

text \<open>The number of bytes is computed in 32 bits.\<close>

definition rre_body :: "int \<Rightarrow> instream \<Rightarrow> byte list outcome reading" where
  "rre_body Bpp s = need 4 s (\<lambda>s. ebind (setRestorePoint s) (\<lambda>s. ebind (readU32 s) (\<lambda>(numRects, s).
     let len = unat (word_of_int Bpp + numRects * word_of_int (Bpp + 8)) in
     need_or_restore len s (\<lambda>s. ebind (clearRestorePoint s) (\<lambda>s.
     ebind (readBytes len s) (\<lambda>(bs, s). Inr (Done (Some (putU32 numRects @ bs)), s)))))))"

definition rre_readRect :: "int \<Rightarrow> rect_decoder reading_step" where
  "rre_readRect Bpp = run_body (\<lambda>_. rre_body Bpp) emit"

definition zrle_body :: "instream \<Rightarrow> byte list outcome reading" where
  "zrle_body s = need 4 s (\<lambda>s. ebind (setRestorePoint s) (\<lambda>s. ebind (readU32 s) (\<lambda>(len, s).
     need_or_restore (unat len) s (\<lambda>s. ebind (clearRestorePoint s) (\<lambda>s.
     ebind (readBytes (unat len) s) (\<lambda>(bs, s). Inr (Done (Some (putU32 len @ bs)), s)))))))"

definition zrle_readRect :: "rect_decoder reading_step" where
  "zrle_readRect = run_body (\<lambda>_. zrle_body) emit"

definition h264_body :: "instream \<Rightarrow> byte list outcome reading" where
  "h264_body s = need 8 s (\<lambda>s. ebind (setRestorePoint s) (\<lambda>s. ebind (readU32 s) (\<lambda>(len, s).
     ebind (readU32 s) (\<lambda>(rst, s).
     need_or_restore (unat len) s (\<lambda>s. ebind (clearRestorePoint s) (\<lambda>s.
     ebind (readBytes (unat len) s) (\<lambda>(bs, s). Inr (Done (Some (putU32 len @ putU32 rst @ bs)), s))))))))"

definition h264_readRect :: "rect_decoder reading_step" where
  "h264_readRect = run_body (\<lambda>_. h264_body) emit"

subsection \<open>Hextile\<close>

text \<open>A tile: its type, background, foreground and subrectangles as far as the type says.\<close>

definition opt_bytes :: "bool \<Rightarrow> nat \<Rightarrow> instream \<Rightarrow> (byte list \<Rightarrow> instream \<Rightarrow> 'c outcome reading) \<Rightarrow> 'c outcome reading" where
  "opt_bytes present n s k =
     (if present then need_or_restore n s (\<lambda>s. ebind (readBytes n s) (\<lambda>(bs, s). k bs s)) else k [] s)"

definition tile_body :: "nat \<Rightarrow> int \<Rightarrow> int \<Rightarrow> instream \<Rightarrow> byte list outcome reading" where
  "tile_body Bpp width height s = need 1 s (\<lambda>s. ebind (setRestorePoint s) (\<lambda>s. ebind (readU8 s) (\<lambda>(tileType, s).
     if tileType AND 1 \<noteq> 0 then
       (let n = nat (width * height) * Bpp in
        need_or_restore n s (\<lambda>s. ebind (readBytes n s) (\<lambda>(bs, s).
        ebind (clearRestorePoint s) (\<lambda>s. Inr (Done (Some (tileType # bs)), s)))))
     else
       opt_bytes (tileType AND 2 \<noteq> 0) Bpp s (\<lambda>bg s.
       opt_bytes (tileType AND 4 \<noteq> 0) Bpp s (\<lambda>fg s.
       if tileType AND 8 \<noteq> 0 then
         need_or_restore 1 s (\<lambda>s. ebind (readU8 s) (\<lambda>(nSubrects, s).
         let n = unat nSubrects * (if tileType AND 16 \<noteq> 0 then Bpp + 2 else 2) in
         need_or_restore n s (\<lambda>s. ebind (readBytes n s) (\<lambda>(bs, s).
         ebind (clearRestorePoint s) (\<lambda>s.
         Inr (Done (Some (tileType # bg @ fg @ nSubrects # bs)), s))))))
       else ebind (clearRestorePoint s) (\<lambda>s. Inr (Done (Some (tileType # bg @ fg)), s)))))))"

definition hextile_step :: "nat \<Rightarrow> rect \<Rightarrow> rect_decoder reading_step" where
  "hextile_step Bpp r d s =
     (if tile_x d \<ge> rect_width r then Inr (True, d\<lparr>tile_x := 0, tile_y := tile_y d + 16\<rparr>, s)
      else run_body
        (\<lambda>d. tile_body Bpp (min (rect_width r - tile_x d) 16) (min (rect_height r - tile_y d) 16))
        (\<lambda>bs d. (emit bs d)\<lparr>tile_x := tile_x d + 16\<rparr>) d s)"

function hextile_readRect :: "nat \<Rightarrow> rect \<Rightarrow> rect_decoder reading_step" where
  "hextile_readRect Bpp r d s =
     (if tile_y d \<ge> rect_height r then Inr (True, d\<lparr>tile_y := 0\<rparr>, s)
      else case hextile_step Bpp r d s of
        Inl e \<Rightarrow> Inl e
      | Inr (ok, d, s) \<Rightarrow> if ok then hextile_readRect Bpp r d s else Inr (False, d, s))"
  by pat_completeness auto

definition hextile_measure :: "rect \<Rightarrow> rect_decoder \<Rightarrow> nat" where
  "hextile_measure r d =
     nat (rect_height r - tile_y d) * (nat (rect_width r) + 17) + nat (rect_width r - tile_x d)"

lemma emit_fields [simp]:
  "tile_x (emit bs d) = tile_x d" "tile_y (emit bs d) = tile_y d" "tight_state (emit bs d) = tight_state d"
  "palSize (emit bs d) = palSize d" "jpeg_state (emit bs d) = jpeg_state d"
  by (simp_all add: emit_def)

lemma hextile_progress:
  assumes "tile_y d < rect_height r" and "hextile_step Bpp r d s = Inr (True, d1, s1)"
  shows "hextile_measure r d1 < hextile_measure r d"
proof (cases "tile_x d \<ge> rect_width r")
  case True
  then have d1: "d1 = d\<lparr>tile_x := 0, tile_y := tile_y d + 16\<rparr>" using assms(2) by (simp add: hextile_step_def)
  have "Suc (nat (rect_height r - (tile_y d + 16))) \<le> nat (rect_height r - tile_y d)" using assms(1) by linarith
  then have "Suc (nat (rect_height r - (tile_y d + 16))) * (nat (rect_width r) + 17) \<le>
      nat (rect_height r - tile_y d) * (nat (rect_width r) + 17)"
    by (rule mult_right_mono) simp
  then show ?thesis by (simp add: hextile_measure_def d1)
next
  case False
  then have "tile_y d1 = tile_y d" "tile_x d1 = tile_x d + 16"
    using assms(2) by (auto simp: hextile_step_def run_body_cases split: sum.splits prod.splits outcome.splits)
  then show ?thesis using False by (simp add: hextile_measure_def)
qed

termination hextile_readRect
  by (relation "measure (\<lambda>(Bpp, r, d, s). hextile_measure r d)") (auto intro: hextile_progress)

declare hextile_readRect.simps [simp del]

subsection \<open>Tight\<close>

definition comp_body :: "instream \<Rightarrow> byte outcome reading" where
  "comp_body s = need 1 s (\<lambda>s. ebind (readU8 s) (\<lambda>(comp_ctl, s).
     if drop_bit 4 comp_ctl > 9 then Inl (ProtocolError ''Bad Tight subencoding value received'')
     else Inr (Done (Some comp_ctl), s)))"

definition note_comp :: "byte option \<Rightarrow> rect_decoder \<Rightarrow> rect_decoder" where
  "note_comp c d = (case c of None \<Rightarrow> d | Some comp_ctl \<Rightarrow>
     (let ctl = drop_bit 4 comp_ctl; d = emit (Some [comp_ctl]) d in
      if ctl = 8 then d\<lparr>tight_state := TightFill\<rparr>
      else if ctl = 9 then d\<lparr>tight_state := TightJpeg\<rparr>
      else d\<lparr>palSize := 0, tight_state := (if ctl AND 4 \<noteq> 0 then TightFilter else TightPixels)\<rparr>))"

text \<open>A length of one to three bytes; three are asked for beforehand.\<close>

definition readCompact :: "instream \<Rightarrow> u32 reading" where
  "readCompact s = ebind (readU8 s) (\<lambda>(b0, s).
     if b0 AND 0x80 = 0 then Inr (ucast (b0 AND 0x7f), s)
     else ebind (readU8 s) (\<lambda>(b1, s).
       let result = ucast (b0 AND 0x7f) OR push_bit 7 (ucast (b1 AND 0x7f)) in
       if b1 AND 0x80 = 0 then Inr (result, s)
       else ebind (readU8 s) (\<lambda>(b2, s). Inr (result OR push_bit 14 (ucast b2), s))))"

text \<open>\<open>writeOpaque32\<close> stores a word as the host has it.\<close>

definition opaque32 :: "bool \<Rightarrow> u32 \<Rightarrow> byte list" where
  "opaque32 hostBig u = (if hostBig then putU32 u else List.rev (putU32 u))"

definition compact_body :: "bool \<Rightarrow> instream \<Rightarrow> byte list outcome reading" where
  "compact_body hostBig s = need 3 s (\<lambda>s. ebind (setRestorePoint s) (\<lambda>s. ebind (readCompact s) (\<lambda>(len, s).
     need_or_restore (unat len) s (\<lambda>s. ebind (readBytes (unat len) s) (\<lambda>(bs, s).
     ebind (clearRestorePoint s) (\<lambda>s. Inr (Done (Some (opaque32 hostBig len @ bs)), s)))))))"

definition tight_end :: "byte list option \<Rightarrow> rect_decoder \<Rightarrow> rect_decoder" where
  "tight_end bs d = (emit bs d)\<lparr>tight_state := TightIdle\<rparr>"

definition filter_body :: "nat \<Rightarrow> instream \<Rightarrow> byte outcome reading" where
  "filter_body bits_pp s = need 1 s (\<lambda>s. ebind (readU8 s) (\<lambda>(filterId, s).
     if filterId = 1 \<or> filterId = 0 then Inr (Done (Some filterId), s)
     else if filterId = 2 then
       (if bits_pp = 8 then Inl (ProtocolError ''Invalid bits per pixel for gradient filter'')
        else Inr (Done (Some filterId), s))
     else Inl (ProtocolError ''Invalid Tight filter code received'')))"

definition note_filter :: "byte option \<Rightarrow> rect_decoder \<Rightarrow> rect_decoder" where
  "note_filter f d = (case f of None \<Rightarrow> d | Some filterId \<Rightarrow>
     (emit (Some [filterId]) d)\<lparr>tight_state := (if filterId = 1 then TightPalette else TightPixels)\<rparr>)"

definition palette_body :: "pixel_format \<Rightarrow> instream \<Rightarrow> byte list outcome reading" where
  "palette_body pf s = need 1 s (\<lambda>s. ebind (setRestorePoint s) (\<lambda>s. ebind (readU8 s) (\<lambda>(p, s).
     let n = (if is888 pf then (unat p + 1) * 3 else (unat p + 1) * bpp pf div 8) in
     need_or_restore n s (\<lambda>s. ebind (readBytes n s) (\<lambda>(bs, s).
     ebind (clearRestorePoint s) (\<lambda>s. Inr (Done (Some (p # bs)), s)))))))"

definition note_palette :: "byte list option \<Rightarrow> rect_decoder \<Rightarrow> rect_decoder" where
  "note_palette bs d = (case bs of Some (p # _) \<Rightarrow> (emit bs d)\<lparr>palSize := unat p + 1, tight_state := TightPixels\<rparr> | _ \<Rightarrow> d)"

definition row_size :: "pixel_format \<Rightarrow> int \<Rightarrow> nat \<Rightarrow> int" where
  "row_size pf width pal =
     (if pal \<noteq> 0 then if pal \<le> 2 then (width + 7) div 8 else width
      else if is888 pf then width * 3 else width * int (bpp pf) div 8)"

definition pixels_body :: "bool \<Rightarrow> pixel_format \<Rightarrow> rect \<Rightarrow> nat \<Rightarrow> instream \<Rightarrow> byte list outcome reading" where
  "pixels_body hostBig pf r pal s =
     (let dataSize = nat (rect_height r * row_size pf (rect_width r) pal mod 2 ^ 64) in
      if dataSize < 12 then copy_body dataSize s else compact_body hostBig s)"

definition tight_fill :: "pixel_format \<Rightarrow> rect_decoder reading_step" where
  "tight_fill pf = run_body (\<lambda>_. copy_body (if is888 pf then 3 else bpp pf div 8)) tight_end"

definition tight_colours :: "bool \<Rightarrow> pixel_format \<Rightarrow> rect \<Rightarrow> rect_decoder reading_step" where
  "tight_colours hostBig pf r =
     andthen (in_state (\<lambda>d. tight_state d = TightPalette) (run_body (\<lambda>_. palette_body pf) note_palette))
       (run_body (\<lambda>d. pixels_body hostBig pf r (palSize d)) tight_end)"

definition tight_basic :: "bool \<Rightarrow> pixel_format \<Rightarrow> rect \<Rightarrow> rect_decoder reading_step" where
  "tight_basic hostBig pf r =
     andthen (in_state (\<lambda>d. tight_state d = TightFilter) (run_body (\<lambda>_. filter_body (bpp pf)) note_filter))
       (tight_colours hostBig pf r)"

definition tight_rest :: "bool \<Rightarrow> pixel_format \<Rightarrow> rect \<Rightarrow> rect_decoder reading_step" where
  "tight_rest hostBig pf r d s =
     (if tight_state d = TightFill then tight_fill pf d s
      else if rect_width r > 2048 then Inl (ProtocolError ''Too large Tight rectangle'')
      else if tight_state d = TightJpeg then run_body (\<lambda>_. compact_body hostBig) tight_end d s
      else tight_basic hostBig pf r d s)"

definition tight_readRect :: "bool \<Rightarrow> pixel_format \<Rightarrow> rect \<Rightarrow> rect_decoder reading_step" where
  "tight_readRect hostBig pf r =
     andthen (in_state (\<lambda>d. tight_state d = TightIdle) (run_body (\<lambda>_. comp_body) note_comp)) (tight_rest hostBig pf r)"

subsection \<open>JPEG\<close>

definition no_data :: "byte \<Rightarrow> bool" where
  "no_data type \<longleftrightarrow> type = 0x01 \<or> type \<ge> 0xd0 \<and> type \<le> 0xd9"

text \<open>
  A segment, with its type. The length includes its own two bytes; a smaller one wraps and
  asks for more than can arrive.
\<close>

definition segment_body :: "instream \<Rightarrow> (byte \<times> byte list) outcome reading" where
  "segment_body s = need 2 s (\<lambda>s. ebind (setRestorePoint s) (\<lambda>s.
     ebind (readU8 s) (\<lambda>(marker, s). ebind (readU8 s) (\<lambda>(type, s).
     if marker \<noteq> 0xff then Inl (ProtocolError ''Invalid JPEG segment marker'')
     else if no_data type then ebind (clearRestorePoint s) (\<lambda>s. Inr (Done (Some (type, [marker, type])), s))
     else need_or_restore 2 s (\<lambda>s. ebind (readU16 s) (\<lambda>(len, s).
       let n = nat ((uint len - 2) mod 2 ^ 64) in
       need_or_restore n s (\<lambda>s. ebind (readBytes n s) (\<lambda>(bs, s). ebind (clearRestorePoint s) (\<lambda>s.
       Inr (Done (Some (type, [marker, type] @ putU16 len @ bs)), s))))))))))"

text \<open>Tables are remembered, and put in front of an image that has none of its own.\<close>

definition keep_tables :: "byte \<Rightarrow> byte list \<Rightarrow> rect_decoder \<Rightarrow> rect_decoder" where
  "keep_tables type seg d =
     (if type = 0xc0 then d\<lparr>seenHuffman := False, seenQuant := False\<rparr>
      else if type = 0xc4 then
        d\<lparr>lastHuffmanTables := (if seenHuffman d then lastHuffmanTables d else []) @ [seg], seenHuffman := True\<rparr>
      else if type = 0xdb then
        d\<lparr>lastQuantTables := (if seenQuant d then lastQuantTables d else []) @ [seg], seenQuant := True\<rparr>
      else d)"

definition missing_tables :: "rect_decoder \<Rightarrow> byte list" where
  "missing_tables d = (if seenHuffman d then [] else concat (lastHuffmanTables d)) @
     (if seenQuant d then [] else concat (lastQuantTables d))"

definition note_segment :: "(byte \<times> byte list) option \<Rightarrow> rect_decoder \<Rightarrow> rect_decoder" where
  "note_segment x d = (case x of None \<Rightarrow> d | Some (type, seg) \<Rightarrow>
     if no_data type then (emit (Some seg) d)\<lparr>jpeg_state := (if type = 0xd9 then JpegIdle else jpeg_state d)\<rparr>
     else let d = keep_tables type seg d in
       if type = 0xda then (emit (Some (missing_tables d @ seg)) d)\<lparr>jpeg_state := JpegStream\<rparr>
       else emit (Some seg) d)"

text \<open>The offset of the first marker that is not a restart marker.\<close>

fun scan_marker :: "byte list \<Rightarrow> nat option" where
  "scan_marker (b # c # bs) =
     (if b \<noteq> 0xff then map_option Suc (scan_marker (c # bs))
      else if c \<noteq> 0x00 \<and> \<not> (c \<ge> 0xd0 \<and> c \<le> 0xd7) then Some 0
      else map_option (\<lambda>n. n + 2) (scan_marker bs))"
| "scan_marker _ = None"

text \<open>The compressed data is copied up to a marker, or all of it but the last byte.\<close>

definition copy_data :: "nat \<Rightarrow> instream \<Rightarrow> byte list reading" where
  "copy_data n s = (case hasData n s of (_, s) \<Rightarrow> readBytes n s)"

definition readStream :: "rect_decoder reading_step" where
  "readStream d s = (case hasData 2 s of (ok, s) \<Rightarrow>
     if \<not> ok then Inr (False, d, s)
     else (case avail s of (a, s) \<Rightarrow>
       (case scan_marker (unread s) of
          Some n \<Rightarrow> ebind (copy_data n s) (\<lambda>(bs, s).
            Inr (True, (emit (Some bs) d)\<lparr>jpeg_state := JpegSegment\<rparr>, s))
        | None \<Rightarrow> ebind (copy_data (a - 1) s) (\<lambda>(bs, s). Inr (False, emit (Some bs) d, s)))))"

definition readSegment :: "rect_decoder reading_step" where
  "readSegment = run_body (\<lambda>_. segment_body) note_segment"

definition jpeg_round :: "rect_decoder reading_step" where
  "jpeg_round = andthen (in_state (\<lambda>d. jpeg_state d = JpegSegment) readSegment)
     (in_state (\<lambda>d. jpeg_state d = JpegStream) readStream)"

lemma scan_bound: "scan_marker u = Some n \<Longrightarrow> n + 2 \<le> length u"
  by (induction u arbitrary: n rule: scan_marker.induct) (auto split: if_splits)

lemma scan_more: "scan_marker u = Some n \<Longrightarrow> scan_marker (u @ b) = Some n"
  by (induction u arbitrary: n rule: scan_marker.induct) (auto split: if_splits)

lemma scan_again:
  "scan_marker u = None \<Longrightarrow> u \<noteq> [] \<Longrightarrow>
     scan_marker (u @ b) = map_option (\<lambda>n. n + (length u - 1)) (scan_marker (last u # b))"
proof (induction u rule: scan_marker.induct)
  case (1 x c bs)
  show ?case
  proof (cases "x = 0xff")
    case False
    then have "scan_marker (c # bs) = None" using 1(3) by simp
    from 1(1) [OF _ this] show ?thesis using False by (simp add: option.map_comp comp_def)
  next
    case True
    then have c: "\<not> (c \<noteq> 0x00 \<and> \<not> (c \<ge> 0xd0 \<and> c \<le> 0xd7))" and s: "scan_marker bs = None"
      using 1(3) by (auto split: if_splits)
    then have "c \<noteq> 0xff" by auto
    show ?thesis
    proof (cases bs)
      case Nil
      then show ?thesis using True c \<open>c \<noteq> 0xff\<close>
        by (cases b) (auto simp: option.map_comp comp_def)
    next
      case (Cons y ys)
      have "scan_marker ((x # c # bs) @ b) = map_option (\<lambda>n. n + 2) (scan_marker (bs @ b))"
        using True c by auto
      also have "scan_marker (bs @ b) = map_option (\<lambda>n. n + (length bs - 1)) (scan_marker (last bs # b))"
        using 1(2) [OF _ c s] True Cons by simp
      finally show ?thesis using Cons by (simp add: option.map_comp comp_def)
    qed
  qed
qed (auto simp: option.map_ident)

lemma copy_data_eq:
  "n \<le> length (unread s) \<Longrightarrow> past s = None \<Longrightarrow>
   copy_data n s = Inr (take n (unread s), \<lparr>unread = drop n (unread s), past = None, checkedBytes = 0\<rparr>)"
  by (cases s) (auto simp: copy_data_def hasData_def readBytes_def check_def advance_def)

lemma readStream_eq:
  assumes "past s = None"
  shows "readStream d s =
    (if length (unread s) < 2 then Inr (False, d, s\<lparr>checkedBytes := 0\<rparr>)
     else case scan_marker (unread s) of
       Some n \<Rightarrow> Inr (True, (emit (Some (take n (unread s))) d)\<lparr>jpeg_state := JpegSegment\<rparr>,
         \<lparr>unread = drop n (unread s), past = None, checkedBytes = 0\<rparr>)
     | None \<Rightarrow> Inr (False, emit (Some (butlast (unread s))) d,
         \<lparr>unread = [last (unread s)], past = None, checkedBytes = 0\<rparr>))"
proof -
  have l: "drop (length u - 1) u = [last u]" if "\<not> length u < 2" for u :: "byte list"
    using that by (cases u rule: rev_cases) auto
  from this [of "unread s"] show ?thesis
    using assms scan_bound [of "unread s"]
    by (auto simp: readStream_def hasData_def avail_def copy_data_eq butlast_conv_take split: option.split)
qed

lemma emit_twice: "emit (Some b) (emit (Some a) d) = emit (Some (a @ b)) d"
  by (simp add: emit_def)

lemma resumes_readStream: "resumes readStream"
proof (rule resumesI)
  fix d and s :: instream and b d1 s1
  assume p: "past s = None" and t: "readStream d s = Inr (True, d1, s1)"
  then obtain n where "scan_marker (unread s) = Some n" "2 \<le> length (unread s)"
    by (auto simp: readStream_eq split: if_splits option.splits)
  with scan_more scan_bound t p show "past s1 = None \<and> behind s1 s \<and> readStream d (arrive b s) = Inr (True, d1, arrive b s1)"
    by (fastforce simp: readStream_eq behind_def arrive_def intro: exI [of _ "take n (unread s)"])
next
  fix d and s :: instream and b d1 s1
  assume p: "past s = None" and t: "readStream d s = Inr (False, d1, s1)"
  show "past s1 = None \<and> behind s1 s \<and> readStream d (arrive b s) = readStream d1 (arrive b s1)"
  proof (cases "length (unread s) < 2")
    case True
    then show ?thesis using p t by (auto simp: readStream_eq behind_def split: option.split)
  next
    case False
    then obtain u x where u: "unread s = u @ [x]" "u \<noteq> []" by (cases "unread s" rule: rev_cases) auto
    have n: "scan_marker (unread s) = None" and d1: "d1 = emit (Some u) d"
      and s1: "s1 = \<lparr>unread = [x], past = None, checkedBytes = 0\<rparr>"
      using t p False u by (auto simp: readStream_eq split: option.splits)
    have again: "scan_marker (u @ x # b) = map_option (\<lambda>n. n + length u) (scan_marker (x # b))"
      using scan_again [OF n, of b] u by simp
    have "readStream d (arrive b s) = readStream d1 (arrive b s1)"
    proof (cases b rule: rev_cases)
      case Nil
      then show ?thesis using p False n u by (simp add: readStream_eq s1 d1)
    next
      case (snoc c y)
      then show ?thesis using p u again
        by (auto simp: readStream_eq s1 d1 emit_twice butlast_append split: option.split)
    qed
    then show ?thesis using u by (simp add: s1 behind_def)
  qed
qed (auto simp: readStream_eq split: if_splits option.splits)

text \<open>Every round with a segment consumes its two bytes at least.\<close>

lemma readU8_known: "readU8 s = Inr (b, s1) \<Longrightarrow> length (unread s1) + 1 = length (unread s)"
  by (auto simp: readU8_def check_def advance_def ebind_eq_Inr split: if_splits)

lemma readU16_shrinks: "readU16 s = Inr (b, s1) \<Longrightarrow> length (unread s1) \<le> length (unread s)"
  by (auto simp: readU16_def check_def advance_def ebind_eq_Inr split: if_splits)

lemma readBytes_shrinks: "readBytes n s = Inr (b, s1) \<Longrightarrow> length (unread s1) \<le> length (unread s)"
  by (auto simp: readBytes_def check_def advance_def ebind_eq_Inr split: if_splits)

lemma restore_keeps: "setRestorePoint s = Inr s1 \<Longrightarrow> unread s1 = unread s" "clearRestorePoint s = Inr s1 \<Longrightarrow> unread s1 = unread s"
  by (auto simp: setRestorePoint_def clearRestorePoint_def split: if_splits)

lemma need_done: "need n s k = Inr (Done c, s1) \<Longrightarrow> \<exists>s0. unread s0 = unread s \<and> k s0 = Inr (Done c, s1)"
  by (auto simp: need_def hasData_def split: if_splits intro: exI [of _ "s\<lparr>checkedBytes := n\<rparr>"])

lemma need_or_restore_done: "need_or_restore n s k = Inr (Done c, s1) \<Longrightarrow> \<exists>s0. unread s0 = unread s \<and> k s0 = Inr (Done c, s1)"
  by (auto simp: need_or_restore_def hasDataOrRestore_def hasData_def ebind_eq_Inr split: if_splits
      intro: exI [of _ "s\<lparr>checkedBytes := n\<rparr>"])

lemma segment_progress:
  assumes "segment_body s = Inr (Done c, s1)"
  shows "length (unread s1) + 2 \<le> length (unread s)"
  using assms
  by (auto simp: segment_body_def ebind_eq_Inr Let_def split: if_splits
      dest!: need_done need_or_restore_done readU8_known readU16_shrinks readBytes_shrinks restore_keeps)

lemma readStream_true:
  assumes "readStream d s = Inr (True, d1, s1)"
  shows "jpeg_state d1 = JpegSegment \<and> length (unread s1) \<le> length (unread s)"
  using assms
  by (auto simp: readStream_def copy_data_def hasData_def avail_def ebind_eq_Inr
      split: if_splits option.splits dest!: readBytes_shrinks)

function jpeg_rounds :: "rect_decoder reading_step" where
  "jpeg_rounds d s =
     (if jpeg_state d = JpegIdle then Inr (True, d, s)
      else case jpeg_round d s of
        Inl e \<Rightarrow> Inl e
      | Inr (ok, d, s) \<Rightarrow> if ok then jpeg_rounds d s else Inr (False, d, s))"
  by pat_completeness auto

definition jpeg_measure :: "rect_decoder \<Rightarrow> instream \<Rightarrow> nat" where
  "jpeg_measure d s = 2 * length (unread s) + (if jpeg_state d = JpegStream then 1 else 0)"

lemma jpeg_progress:
  assumes "jpeg_state d \<noteq> JpegIdle" and "jpeg_round d s = Inr (True, d1, s1)"
  shows "jpeg_measure d1 s1 < jpeg_measure d s"
proof -
  from assms(2) obtain d0 s0
    where a: "in_state (\<lambda>d. jpeg_state d = JpegSegment) readSegment d s = Inr (True, d0, s0)"
      and b: "in_state (\<lambda>d. jpeg_state d = JpegStream) readStream d0 s0 = Inr (True, d1, s1)"
    by (auto simp: jpeg_round_def andthen_cases split: sum.splits if_splits)
  have 0: "jpeg_state d = JpegSegment \<Longrightarrow> length (unread s0) + 2 \<le> length (unread s)"
    "jpeg_state d \<noteq> JpegSegment \<Longrightarrow> d0 = d \<and> s0 = s"
    using a by (auto simp: in_state_def readSegment_def run_body_cases dest!: segment_progress
        split: if_splits sum.splits outcome.splits)
  have 1: "jpeg_state d0 = JpegStream \<Longrightarrow> jpeg_state d1 = JpegSegment \<and> length (unread s1) \<le> length (unread s0)"
    "jpeg_state d0 \<noteq> JpegStream \<Longrightarrow> d1 = d0 \<and> s1 = s0"
    using b readStream_true by (auto simp: in_state_def split: if_splits)
  show ?thesis using 0 1 assms(1) by (cases "jpeg_state d"; cases "jpeg_state d0") (auto simp: jpeg_measure_def)
qed

termination jpeg_rounds
  by (relation "measure (\<lambda>(d, s). jpeg_measure d s)") (auto intro: jpeg_progress)

declare jpeg_rounds.simps [simp del]

definition jpeg_enter :: "rect_decoder \<Rightarrow> rect_decoder" where
  "jpeg_enter d = (if jpeg_state d = JpegIdle then d\<lparr>jpeg_state := JpegSegment\<rparr> else d)"

definition jpeg_readRect :: "rect_decoder reading_step" where
  "jpeg_readRect d = jpeg_rounds (jpeg_enter d)"

end
