(* ===== verification/Decode_Manager.thy ===== *)
theory Decode_Manager
  imports Rect_Decoders
begin

text \<open>
  \<open>DecodeManager::decodeRect\<close> up to the work queue, and what the decoders owe to the
  loop that calls them again: whatever the state a decoder has stopped in, going on when more
  has arrived is the same as having had it at once.
\<close>

subsection \<open>The decoders as readers\<close>

lemma sound_copy [sound_rules]: "sound_reader (copy_body n)"
  unfolding copy_body_def [abs_def]
  by (rule sound_need, rule reader_plain, (rule triple_rules | simp)+, intro local_rules)

lemma local_opt_bytes [local_rules]:
  "(\<And>bs. local_msg (k bs)) \<Longrightarrow> local_msg (\<lambda>s. opt_bytes p n s k)"
  unfolding opt_bytes_def by (intro local_rules)

lemma messages_opt_bytes [triple_rules]:
  assumes "\<And>bs. messages (True, u) 0 (k bs)"
  shows "messages (True, u) c (\<lambda>s. opt_bytes p n s k)"
proof -
  have "messages (True, u) c (k [])" using assms stat_weaken by (fastforce simp: messages_def)
  moreover have "messages (True, u) c (\<lambda>s. need_or_restore n s (\<lambda>s. ebind (readBytes n s) (\<lambda>(bs, s). k bs s)))"
    using assms by - (rule triple_rules | simp)+
  ultimately show ?thesis by (cases p) (simp_all add: opt_bytes_def)
qed

lemma local_compact [local_rules]: "local_read readCompact"
  unfolding readCompact_def [abs_def] Let_def by (intro local_rules)

lemma reads_compact [triple_rules]: "reads m 3 0 readCompact"
  unfolding readCompact_def [abs_def] Let_def by (rule triple_rules | simp)+

lemma sound_parts [sound_rules]:
  "sound_reader (rre_body Bpp)" "sound_reader zrle_body" "sound_reader h264_body"
  "sound_reader (compact_body hostBig)" "sound_reader (palette_body pf)"
  "sound_reader segment_body"
  unfolding rre_body_def [abs_def] zrle_body_def [abs_def] h264_body_def [abs_def]
    compact_body_def [abs_def] palette_body_def [abs_def] segment_body_def [abs_def] Let_def
  by (rule sound_need, rule reader_restore, (rule triple_rules | simp)+, intro local_rules)+

lemma sound_tile [sound_rules]: "sound_reader (tile_body Bpp w h)"
  unfolding tile_body_def [abs_def] Let_def
  by (rule sound_need, rule reader_restore, (rule triple_rules | simp)+, intro local_rules)

lemma sound_ctl [sound_rules]: "sound_reader comp_body" "sound_reader (filter_body n)"
  unfolding comp_body_def [abs_def] filter_body_def [abs_def]
  by (rule sound_need, rule reader_plain, (rule triple_rules | simp)+, intro local_rules)+

lemma sound_pixels [sound_rules]: "sound_reader (pixels_body hostBig pf r pal)"
  unfolding pixels_body_def [abs_def] Let_def by (intro sound_rules)

lemma resumes_plain:
  "resumes (raw_readRect Bpp r)" "resumes copyRect_readRect" "resumes (rre_readRect Bpp)"
  "resumes zrle_readRect" "resumes h264_readRect" "resumes readSegment" "resumes (tight_fill pf)"
  unfolding raw_readRect_def copyRect_readRect_def rre_readRect_def zrle_readRect_def h264_readRect_def
    readSegment_def tight_fill_def
  by (rule resumes_body, rule sound_rules)+

lemma resumes_hextile_step: "resumes (hextile_step Bpp r)"
  unfolding hextile_step_def [abs_def]
  by (rule resumes_choose [OF resumes_pass resumes_body [OF sound_tile]]) (auto dest: run_body_stays)

lemma resumes_hextile: "resumes (hextile_readRect Bpp r)"
  by (rule resumes_loop [where step = "hextile_step Bpp r" and stop = "\<lambda>d. tile_y d \<ge> rect_height r"
        and fin = "\<lambda>d. d\<lparr>tile_y := 0\<rparr>" and m = "\<lambda>d _. hextile_measure r d"])
    (auto intro: resumes_hextile_step hextile_progress
      simp: hextile_readRect.simps hextile_step_def dest: run_body_stays split: if_splits)

lemma jpeg_round_stays:
  "readSegment d s = Inr (False, d1, s1) \<Longrightarrow> jpeg_state d1 = jpeg_state d"
  "readStream d s = Inr (False, d1, s1) \<Longrightarrow> jpeg_state d1 = jpeg_state d"
  by (auto simp: readSegment_def readStream_def ebind_eq_Inr split: if_splits prod.splits option.splits dest!: run_body_stays)

lemma resumes_jpeg_round: "resumes jpeg_round"
  unfolding jpeg_round_def
  by (rule resumes_andthen, (rule resumes_in_state, rule resumes_plain resumes_readStream, simp add: jpeg_round_stays)+)
    (auto simp: in_state_def dest!: jpeg_round_stays split: if_splits)

lemma jpeg_round_goes_on: "jpeg_round d s = Inr (False, d1, s1) \<Longrightarrow> jpeg_state d1 \<noteq> JpegIdle"
  by (auto simp: jpeg_round_def andthen_cases in_state_def dest!: jpeg_round_stays split: if_splits sum.splits)

lemma resumes_jpeg_rounds: "resumes jpeg_rounds"
  by (rule resumes_loop [where step = jpeg_round and stop = "\<lambda>d. jpeg_state d = JpegIdle" and fin = "\<lambda>d. d"
        and m = jpeg_measure])
    (auto intro: resumes_jpeg_round jpeg_progress simp: jpeg_rounds.simps dest: jpeg_round_goes_on)

lemma jpeg_rounds_go_on: "jpeg_rounds d s = Inr (False, d1, s1) \<Longrightarrow> jpeg_state d1 \<noteq> JpegIdle"
proof (induction d s rule: jpeg_rounds.induct)
  case (1 d s)
  from 1(2) consider "jpeg_round d s = Inr (False, d1, s1)"
    | d0 s0 where "jpeg_state d \<noteq> JpegIdle" "jpeg_round d s = Inr (True, d0, s0)" "jpeg_rounds d0 s0 = Inr (False, d1, s1)"
    by (subst (asm) jpeg_rounds.simps) (auto split: if_splits sum.splits)
  then show ?case using 1(1) by cases (auto dest: jpeg_round_goes_on)
qed

lemma resumes_jpeg: "resumes jpeg_readRect"
  unfolding jpeg_readRect_def [abs_def]
  by (rule resumes_enter [OF resumes_jpeg_rounds]) (auto simp: jpeg_enter_def dest: jpeg_rounds_go_on)

subsection \<open>Tight\<close>

lemma tight_results:
  "comp_body s = Inr (Done c, s1) \<Longrightarrow> c \<noteq> None"
  "filter_body n s = Inr (Done c, s1) \<Longrightarrow> c \<noteq> None"
  "palette_body pf s = Inr (Done x, s1) \<Longrightarrow> \<exists>p bs. x = Some (p # bs)"
  by (auto simp: comp_body_def filter_body_def palette_body_def Let_def ebind_eq_Inr split: if_splits
      dest!: need_done need_or_restore_done)

lemma tight_phases:
  "run_body (\<lambda>_. comp_body) note_comp d s = Inr (True, d1, s1) \<Longrightarrow> tight_state d1 \<noteq> TightIdle"
  "run_body (\<lambda>_. filter_body n) note_filter d s = Inr (True, d1, s1) \<Longrightarrow> tight_state d1 \<in> {TightPalette, TightPixels}"
  "run_body (\<lambda>_. palette_body pf) note_palette d s = Inr (True, d1, s1) \<Longrightarrow> tight_state d1 = TightPixels"
  by (auto simp: run_body_cases note_comp_def note_filter_def note_palette_def Let_def split: sum.splits outcome.splits if_splits
      dest!: tight_results)

lemma resumes_colours: "resumes (tight_colours hostBig pf r)"
  unfolding tight_colours_def
  by (rule resumes_andthen, rule resumes_in_state, (rule resumes_body, rule sound_rules)+)
    (auto simp: in_state_def intro: resumes_body sound_rules dest!: run_body_stays tight_phases split: if_splits)

lemma tight_colours_stay:
  "tight_colours hostBig pf r d s = Inr (False, d1, s1) \<Longrightarrow> tight_state d1 \<in> {tight_state d, TightPixels}"
  by (auto simp: tight_colours_def andthen_cases in_state_def split: if_splits sum.splits dest!: run_body_stays tight_phases)

lemma tight_basic_stays:
  "tight_basic hostBig pf r d s = Inr (False, d1, s1) \<Longrightarrow> tight_state d1 \<in> {tight_state d, TightPalette, TightPixels}"
  by (auto simp: tight_basic_def andthen_cases in_state_def split: if_splits sum.splits
      dest!: run_body_stays tight_phases tight_colours_stay)

lemma resumes_basic: "resumes (tight_basic hostBig pf r)"
  unfolding tight_basic_def
  by (rule resumes_andthen, rule resumes_in_state, rule resumes_body, rule sound_rules)
    (auto simp: in_state_def resumes_colours dest!: run_body_stays tight_phases tight_colours_stay split: if_splits)

lemma resumes_rest: "resumes (tight_rest hostBig pf r)"
  unfolding tight_rest_def [abs_def]
  apply (rule resumes_choose [OF resumes_plain(7)])
    apply (rule resumes_choose [OF resumes_throw])
      apply (rule resumes_choose [OF resumes_body resumes_basic])
        apply (rule sound_rules)
       apply (auto simp: tight_fill_def dest!: run_body_stays tight_basic_stays split: if_splits)
  done

lemma tight_rest_stays:
  "tight_rest hostBig pf r d s = Inr (False, d1, s1) \<Longrightarrow> tight_state d \<noteq> TightIdle \<Longrightarrow> tight_state d1 \<noteq> TightIdle"
  by (auto simp: tight_rest_def tight_fill_def dest!: run_body_stays tight_basic_stays split: if_splits)

lemma resumes_tight: "resumes (tight_readRect hostBig pf r)"
  unfolding tight_readRect_def
  by (rule resumes_andthen, rule resumes_in_state, rule resumes_body, rule sound_rules)
    (auto simp: in_state_def resumes_rest dest!: run_body_stays tight_phases dest: tight_rest_stays split: if_splits)

subsection \<open>The manager\<close>

definition supported :: "bool \<Rightarrow> int \<Rightarrow> bool" where
  "supported h264 encoding \<longleftrightarrow> encoding \<in> {0, 1, 2, 5, 21, 16, 7} \<or> h264 \<and> encoding = 50"

text \<open>\<open>createDecoder\<close>, and the virtual call of \<open>readRect\<close>.\<close>

definition decoder_readRect :: "bool \<Rightarrow> pixel_format \<Rightarrow> int \<Rightarrow> rect \<Rightarrow> rect_decoder reading_step" where
  "decoder_readRect hostBig pf encoding r =
     (if encoding = 0 then raw_readRect (int (bpp pf div 8)) r
      else if encoding = 1 then copyRect_readRect
      else if encoding = 2 then rre_readRect (int (bpp pf div 8))
      else if encoding = 5 then hextile_readRect (bpp pf div 8) r
      else if encoding = 7 then tight_readRect hostBig pf r
      else if encoding = 21 then jpeg_readRect
      else if encoding = 16 then zrle_readRect
      else h264_readRect)"

record queue_entry =
  qe_rect :: rect
  qe_encoding :: int
  qe_bytes :: "byte list"

text \<open>\<open>workQueue\<close> has all that was ever put on the queue, in this order.\<close>

record decode_manager =
  partialEntry :: "(rect \<times> int) option"
  decoders :: "int \<Rightarrow> rect_decoder option"
  workQueue :: "queue_entry list"

definition new_manager :: decode_manager where
  "new_manager = \<lparr>partialEntry = None, decoders = (\<lambda>_. None), workQueue = []\<rparr>"

definition begin_rect :: "bool \<Rightarrow> rect \<Rightarrow> int \<Rightarrow> decode_manager reading_step" where
  "begin_rect h264 r encoding m s =
     (if partialEntry m \<noteq> None then Inr (True, m, s)
      else if \<not> supported h264 encoding then Inl (ProtocolError ''Unknown encoding'')
      else Inr (True, m\<lparr>partialEntry := Some (r, encoding),
        decoders := (decoders m)(encoding := Some ((case decoders m encoding of
          None \<Rightarrow> new_decoder | Some d \<Rightarrow> d)\<lparr>rd_out := []\<rparr>))\<rparr>, s))"

text \<open>Here a rectangle is in progress.\<close>

definition partial_decoder :: "decode_manager \<Rightarrow> rect_decoder" where
  "partial_decoder m = the (decoders m (snd (the (partialEntry m))))"

definition keep_decoder :: "rect_decoder \<Rightarrow> decode_manager \<Rightarrow> decode_manager" where
  "keep_decoder d m = m\<lparr>decoders := (decoders m)(snd (the (partialEntry m)) := Some d)\<rparr>"

definition queue_work :: "decode_manager \<Rightarrow> decode_manager" where
  "queue_work m = (case partialEntry m of
     None \<Rightarrow> m
   | Some (r, encoding) \<Rightarrow> m\<lparr>partialEntry := None, workQueue := workQueue m @
       [\<lparr>qe_rect = r, qe_encoding = encoding, qe_bytes = rd_out (partial_decoder m)\<rparr>]\<rparr>)"

definition go_on_rect :: "bool \<Rightarrow> pixel_format \<Rightarrow> decode_manager reading_step" where
  "go_on_rect hostBig pf = on_part partial_decoder keep_decoder queue_work
     (\<lambda>m. case the (partialEntry m) of (r, encoding) \<Rightarrow> decoder_readRect hostBig pf encoding r)"

definition decode_rect :: "bool \<Rightarrow> bool \<Rightarrow> pixel_format \<Rightarrow> rect \<Rightarrow> int \<Rightarrow> decode_manager reading_step" where
  "decode_rect hostBig h264 pf r encoding = andthen (begin_rect h264 r encoding) (go_on_rect hostBig pf)"

lemma resumes_decoder: "resumes (decoder_readRect hostBig pf encoding r)"
  unfolding decoder_readRect_def
  by (simp add: resumes_plain resumes_hextile resumes_tight resumes_jpeg)

lemma resumes_go_on: "resumes (go_on_rect hostBig pf)"
  unfolding go_on_rect_def
  by (rule resumes_part) (auto simp: partial_decoder_def keep_decoder_def resumes_decoder split: prod.split)

lemma resumes_begin: "resumes (begin_rect h264 r encoding)"
  by (rule resumesI) (auto simp: begin_rect_def is_protocol_def split: if_splits)

lemma go_on_rect_stays: "go_on_rect hostBig pf m s = Inr (False, m1, s1) \<Longrightarrow> partialEntry m1 = partialEntry m"
  by (auto simp: go_on_rect_def on_part_def keep_decoder_def ebind_eq_Inr)

lemma begin_rect_partial: "begin_rect h264 r encoding m s = Inr (True, m1, s1) \<Longrightarrow> partialEntry m1 \<noteq> None"
  by (auto simp: begin_rect_def split: if_splits)

lemma resumes_decode_rect: "resumes (decode_rect hostBig h264 pf r encoding)"
  unfolding decode_rect_def
  by (rule resumes_andthen [OF resumes_begin resumes_go_on])
    (auto simp: begin_rect_def dest!: begin_rect_partial go_on_rect_stays split: if_splits)

end
