(* ===== verification/Server_Messages.thy ===== *)
theory Server_Messages
  imports Decode_Manager Cursor_Images
begin

text \<open>
  The messages a server sends to a client, as \<open>CMsgReader.cxx\<close> reads them from
  whatever has arrived and turns them into calls of its handler. A framebuffer update is read
  rectangle by rectangle, over as many calls as it takes; its data rectangles go through
  \<open>DecodeManager::decodeRect\<close>.
\<close>

subsection \<open>State\<close>

datatype server_call =
    ServerInit int int pixel_format "byte list"
  | SetColourMapEntries int int "u16 list"
  | Bell
  | ServerCutText "byte list"
  | ServerClipboard clip_call
  | ServerFence u32 "byte list"
  | EndOfContinuousUpdates
  | AudioBegin
  | AudioEnd
  | AudioData "byte list"
  | FramebufferUpdateStart
  | FramebufferUpdateEnd
  | DataRect rect int
  | SetCursor nat nat "int \<times> int" "byte list"
  | SetCursorPos "int \<times> int"
  | SetName "byte list"
  | SetDesktopSize int int
  | SetExtendedDesktopSize int int int int "screen list"
  | SetLEDState u32
  | SupportsQEMUKeyEvent
  | SupportsQEMUAudio
  | SupportsExtendedMouseButtons

type_synonym server_outcome = "server_call outcome"

datatype msg_state = MsgIdle | MsgMessage | MsgRectHeader | MsgRectData

text \<open>
  No encoding of a cursor is -1 in the code; a -1 from the wire is refused by
  \<open>decodeRect\<close> in the same call. \<open>manager\<close> belongs to the handler.
\<close>

record server_reader =
  msg_state :: msg_state
  msg_type :: byte
  nUpdateRectsLeft :: int
  dataRect :: rect
  rectEncoding :: int
  cursorEncoding :: "int option"
  manager :: decode_manager
  server_calls :: "server_call list"

text \<open>
  The surroundings: what zlib makes of a payload, the handler's size and format of the
  framebuffer after the calls so far, and the pixels the decoders make of an entry.
\<close>

record server_cfg =
  sc_hostBig :: bool
  sc_h264 :: bool
  sc_inflate :: "byte list \<Rightarrow> byte list option"
  sc_maxCutText :: nat
  sc_size :: "server_call list \<Rightarrow> int \<times> int"
  sc_pf :: "server_call list \<Rightarrow> pixel_format"
  sc_pixels :: "queue_entry \<Rightarrow> byte list"

definition new_reader :: server_reader where
  "new_reader = \<lparr>msg_state = MsgIdle, msg_type = 0, nUpdateRectsLeft = 0, dataRect = mk_rect 0 0 0 0,
     rectEncoding = 0, cursorEncoding = None, manager = new_manager, server_calls = []\<rparr>"

subsection \<open>Messages\<close>

definition overread :: stream_error where
  "overread = LogicError ''read past the end of the text''"

definition readServerInit :: "bool \<Rightarrow> instream \<Rightarrow> server_outcome reading" where
  "readServerInit hostBig s = need (2 + 2 + 16 + 4) s (\<lambda>s. ebind (setRestorePoint s) (\<lambda>s.
     ebind (get16 s) (\<lambda>(width, s). ebind (get16 s) (\<lambda>(height, s).
     ebind (read_format hostBig s) (\<lambda>(pf, s). ebind (readU32 s) (\<lambda>(len, s).
     need_or_restore (unat len) s (\<lambda>s. ebind (clearRestorePoint s) (\<lambda>s.
     ebind (readBytes (unat len) s) (\<lambda>(name, s).
     case isValidUTF8 (name @ [0]) (2 ^ 64 - 1) of None \<Rightarrow> Inl overread
     | Some valid \<Rightarrow>
         if valid then Inr (Done (Some (ServerInit width height pf (append_buf name))), s)
         else (case latin1ToUTF8 (name @ [0]) (2 ^ 64 - 1) of None \<Rightarrow> Inl overread
           | Some utf8 \<Rightarrow> Inr (Done (Some (ServerInit width height pf (append_buf utf8))), s)))))))))))"

definition readSetColourMapEntries :: "instream \<Rightarrow> server_outcome reading" where
  "readSetColourMapEntries s = need (1 + 2 + 2) s (\<lambda>s. ebind (setRestorePoint s) (\<lambda>s. ebind (skip 1 s) (\<lambda>s.
     ebind (get16 s) (\<lambda>(firstColour, s). ebind (readU16 s) (\<lambda>(nColours, s).
     need_or_restore (unat nColours * 3 * 2) s (\<lambda>s. ebind (clearRestorePoint s) (\<lambda>s.
     ebind (read_n (unat nColours * 3) readU16 s) (\<lambda>(rgbs, s).
     Inr (Done (Some (SetColourMapEntries firstColour (uint nColours) rgbs)), s)))))))))"

definition readServerCutText :: "(byte list \<Rightarrow> byte list option) \<Rightarrow> nat \<Rightarrow> instream \<Rightarrow> server_outcome reading" where
  "readServerCutText inflate maxCutText s = need (3 + 4) s (\<lambda>s.
     ebind (setRestorePoint s) (\<lambda>s. ebind (skip 3 s) (\<lambda>s. ebind (readU32 s) (\<lambda>(len, s).
     if len AND 0x80000000 \<noteq> 0 then
       if len = 0x80000000 then Inl (ProtocolError ''Invalid extended clipboard message'')
       else settle (readExtendedClipboard ServerClipboard inflate maxCutText (sint (- len))) s
     else need_or_restore (unat len) s (\<lambda>s. ebind (clearRestorePoint s) (\<lambda>s.
       if unat len > maxCutText then ebind (skip (unat len) s) (\<lambda>s. Inr (Done None, s))
       else ebind (readBytes (unat len) s) (\<lambda>(ca, s).
         case cut_text ca of
           None \<Rightarrow> Inl overread
         | Some text \<Rightarrow> Inr (Done (Some (ServerCutText text)), s))))))))"

definition readServerFence :: "instream \<Rightarrow> server_outcome reading" where
  "readServerFence = read_fence ServerFence"

definition readQEMUServerMessage :: "instream \<Rightarrow> server_outcome reading" where
  "readQEMUServerMessage s = need (1 + 2) s (\<lambda>s. ebind (setRestorePoint s) (\<lambda>s.
     ebind (readU8 s) (\<lambda>(submessage, s). ebind (readU16 s) (\<lambda>(operation, s).
     if submessage \<noteq> 1 then Inl (ProtocolError ''Unknown QEMU submessage'')
     else if operation = 1 then ebind (clearRestorePoint s) (\<lambda>s. Inr (Done (Some AudioBegin), s))
     else if operation = 0 then ebind (clearRestorePoint s) (\<lambda>s. Inr (Done (Some AudioEnd), s))
     else if operation = 2 then
       need_or_restore 4 s (\<lambda>s. ebind (readU32 s) (\<lambda>(len, s).
       if unat len > 1024 * 1024 then Inl (ProtocolError ''Audio data is too large'')
       else need_or_restore (unat len) s (\<lambda>s. ebind (clearRestorePoint s) (\<lambda>s.
         ebind (readBytes (unat len) s) (\<lambda>(bs, s). Inr (Done (Some (AudioData bs)), s))))))
     else Inl (ProtocolError ''Unknown QEMU audio operation'')))))"

definition plain_body :: "server_cfg \<Rightarrow> byte \<Rightarrow> instream \<Rightarrow> server_outcome reading" where
  "plain_body cfg t s =
     (if t = 1 then readSetColourMapEntries s
      else if t = 2 then Inr (Done (Some Bell), s)
      else if t = 3 then readServerCutText (sc_inflate cfg) (sc_maxCutText cfg) s
      else if t = 248 then readServerFence s
      else if t = 150 then Inr (Done (Some EndOfContinuousUpdates), s)
      else if t = 255 then readQEMUServerMessage s
      else Inl (ProtocolError ''Unknown message type''))"

subsection \<open>Pseudo rectangles\<close>

definition cursor_too_large :: "nat \<Rightarrow> nat \<Rightarrow> bool" where
  "cursor_too_large w h \<longleftrightarrow> w > maxCursorSize \<or> h > maxCursorSize"

definition too_large_cursor :: stream_error where
  "too_large_cursor = ProtocolError ''Received cursor is too large''"

definition readSetXCursor :: "nat \<Rightarrow> nat \<Rightarrow> int \<times> int \<Rightarrow> instream \<Rightarrow> server_outcome reading" where
  "readSetXCursor w h hotspot s =
     (if cursor_too_large w h then Inl too_large_cursor
      else if w * h > 0 then
        need (3 + 3 + mask_len w h + mask_len w h) s (\<lambda>s.
          ebind (readBytes 3 s) (\<lambda>(primary, s). ebind (readBytes 3 s) (\<lambda>(secondary, s).
          ebind (readBytes (mask_len w h) s) (\<lambda>(bitmap, s). ebind (readBytes (mask_len w h) s) (\<lambda>(msk, s).
          Inr (Done (Some (SetCursor w h hotspot (xcursor_image w h primary secondary bitmap msk))), s))))))
      else Inr (Done (Some (SetCursor w h hotspot [])), s))"

definition readSetCursor :: "pixel_format \<Rightarrow> nat \<Rightarrow> nat \<Rightarrow> int \<times> int \<Rightarrow> instream \<Rightarrow> server_outcome reading" where
  "readSetCursor pf w h hotspot s =
     (let data_len = w * h * (bpp pf div 8) in
      if cursor_too_large w h then Inl too_large_cursor
      else need (data_len + mask_len w h) s (\<lambda>s.
        ebind (readBytes data_len s) (\<lambda>(data, s). ebind (readBytes (mask_len w h) s) (\<lambda>(msk, s).
        Inr (Done (Some (SetCursor w h hotspot (cursor_image pf w h data msk))), s)))))"

definition readSetVMwareCursor :: "pixel_format \<Rightarrow> nat \<Rightarrow> nat \<Rightarrow> int \<times> int \<Rightarrow> instream \<Rightarrow> server_outcome reading" where
  "readSetVMwareCursor pf w h hotspot s =
     (if cursor_too_large w h then Inl too_large_cursor
      else need (1 + 1) s (\<lambda>s. ebind (setRestorePoint s) (\<lambda>s.
        ebind (readU8 s) (\<lambda>(type, s). ebind (skip 1 s) (\<lambda>s.
        if type = 0 then
          (let len = w * h * (bpp pf div 8) in
           need_or_restore (len + len) s (\<lambda>s. ebind (clearRestorePoint s) (\<lambda>s.
           ebind (readBytes len s) (\<lambda>(andMask, s). ebind (readBytes len s) (\<lambda>(xorMask, s).
           Inr (Done (Some (SetCursor w h hotspot (vmware_image pf w h andMask xorMask))), s))))))
        else if type = 1 then
          need_or_restore (w * h * 4) s (\<lambda>s. ebind (clearRestorePoint s) (\<lambda>s.
          ebind (readBytes (w * h * 4) s) (\<lambda>(data, s). Inr (Done (Some (SetCursor w h hotspot data)), s))))
        else Inl (ProtocolError ''Unknown cursor type''))))))"

text \<open>\<open>r\<close> is the rectangle the name comes with, which must be empty at the origin.\<close>

definition readSetDesktopName :: "rect \<Rightarrow> instream \<Rightarrow> server_outcome reading" where
  "readSetDesktopName r s = need 4 s (\<lambda>s. ebind (setRestorePoint s) (\<lambda>s.
     ebind (readU32 s) (\<lambda>(len, s).
     need_or_restore (unat len) s (\<lambda>s. ebind (clearRestorePoint s) (\<lambda>s.
     ebind (readBytes (unat len) s) (\<lambda>(name, s).
     if tl_x r \<noteq> 0 \<or> tl_y r \<noteq> 0 \<or> rect_width r \<noteq> 0 \<or> rect_height r \<noteq> 0 then Inr (Done None, s)
     else (case isValidUTF8 (name @ [0]) (2 ^ 64 - 1) of None \<Rightarrow> Inl overread
       | Some valid \<Rightarrow> Inr (Done (if valid then Some (SetName (append_buf name)) else None), s))))))))"

definition readExtendedDesktopSize :: "rect \<Rightarrow> instream \<Rightarrow> server_outcome reading" where
  "readExtendedDesktopSize r s = need (1 + 3) s (\<lambda>s. ebind (setRestorePoint s) (\<lambda>s.
     ebind (readU8 s) (\<lambda>(screens, s). ebind (skip 3 s) (\<lambda>s.
     need_or_restore (unat screens * 16) s (\<lambda>s. ebind (clearRestorePoint s) (\<lambda>s.
     ebind (read_n (unat screens) read_screen s) (\<lambda>(layout, s).
     Inr (Done (Some (SetExtendedDesktopSize (tl_x r) (tl_y r) (rect_width r) (rect_height r) layout)), s))))))))"

definition readLEDState :: "instream \<Rightarrow> server_outcome reading" where
  "readLEDState s = need 1 s (\<lambda>s. ebind (readU8 s) (\<lambda>(led, s). Inr (Done (Some (SetLEDState (ucast led))), s)))"

definition readVMwareLEDState :: "instream \<Rightarrow> server_outcome reading" where
  "readVMwareLEDState s = need 4 s (\<lambda>s. ebind (readU32 s) (\<lambda>(led, s). Inr (Done (Some (SetLEDState led)), s)))"

definition pseudo_encodings :: "int set" where
  "pseudo_encodings = {-224, -240, -239, 0x574d5664, 0x574d5666, -307, -223, -308, -261, 0x574d5668, -258, -259, -316}"

definition pseudo_body :: "pixel_format \<Rightarrow> rect \<Rightarrow> int \<Rightarrow> instream \<Rightarrow> server_outcome reading" where
  "pseudo_body pf r encoding s =
     (let w = nat (rect_width r); h = nat (rect_height r); hotspot = (tl_x r, tl_y r) in
      if encoding = -224 then Inr (Done None, s)
      else if encoding = -240 then readSetXCursor w h hotspot s
      else if encoding = -239 then readSetCursor pf w h hotspot s
      else if encoding = 0x574d5664 then readSetVMwareCursor pf w h hotspot s
      else if encoding = 0x574d5666 then Inr (Done (Some (SetCursorPos hotspot)), s)
      else if encoding = -307 then readSetDesktopName r s
      else if encoding = -223 then Inr (Done (Some (SetDesktopSize (rect_width r) (rect_height r))), s)
      else if encoding = -308 then readExtendedDesktopSize r s
      else if encoding = -261 then readLEDState s
      else if encoding = 0x574d5668 then readVMwareLEDState s
      else if encoding = -258 then Inr (Done (Some SupportsQEMUKeyEvent), s)
      else if encoding = -259 then Inr (Done (Some SupportsQEMUAudio), s)
      else Inr (Done (Some SupportsExtendedMouseButtons), s))"

subsection \<open>The state machine\<close>

definition add_call :: "server_call option \<Rightarrow> server_reader \<Rightarrow> server_reader" where
  "add_call c r = r\<lparr>server_calls := server_calls r @ (case c of None \<Rightarrow> [] | Some c \<Rightarrow> [c])\<rparr>"

definition update_end :: "server_reader \<Rightarrow> server_reader" where
  "update_end r = (add_call (Some FramebufferUpdateEnd) r)\<lparr>msg_state := MsgIdle\<rparr>"

text \<open>A rectangle has been read; a last-rectangle marker counts as the one that is left.\<close>

definition finish_rect :: "server_call option \<Rightarrow> server_reader \<Rightarrow> server_reader" where
  "finish_rect c r =
     (let left = (if rectEncoding r = -224 then 1 else nUpdateRectsLeft r) - 1;
          r = (add_call c r)\<lparr>nUpdateRectsLeft := left, msg_state := MsgRectHeader\<rparr>
      in if left = 0 then update_end r else r)"

definition set_manager :: "decode_manager \<Rightarrow> server_reader \<Rightarrow> server_reader" where
  "set_manager m r = r\<lparr>manager := m\<rparr>"

definition finish_data :: "server_reader \<Rightarrow> server_reader" where
  "finish_data r = finish_rect (Some (DataRect (dataRect r) (rectEncoding r))) r"

definition data_step :: "server_cfg \<Rightarrow> server_reader reading_step" where
  "data_step cfg r s =
     (if br_x (dataRect r) > fst (sc_size cfg (server_calls r)) \<or> br_y (dataRect r) > snd (sc_size cfg (server_calls r))
      then Inl (ProtocolError ''Invalid rectangle received'')
      else on_part manager set_manager finish_data
        (\<lambda>r. decode_rect (sc_hostBig cfg) (sc_h264 cfg) (sc_pf cfg (server_calls r)) (dataRect r) (rectEncoding r)) r s)"

definition encoding_body :: "instream \<Rightarrow> int outcome reading" where
  "encoding_body s = need 4 s (\<lambda>s. ebind (readS32 s) (\<lambda>(encoding, s). Inr (Done (Some encoding), s)))"

definition note_encoding :: "int option \<Rightarrow> server_reader \<Rightarrow> server_reader" where
  "note_encoding encoding r = r\<lparr>cursorEncoding := encoding\<rparr>"

definition alpha_rect :: "server_reader \<Rightarrow> rect" where
  "alpha_rect r = mk_rect 0 0 (rect_width (dataRect r)) (rect_height (dataRect r))"

definition finish_alpha :: "server_cfg \<Rightarrow> server_reader \<Rightarrow> server_reader" where
  "finish_alpha cfg r = finish_rect (Some (SetCursor (nat (rect_width (dataRect r))) (nat (rect_height (dataRect r)))
       (tl_x (dataRect r), tl_y (dataRect r))
       (unpremultiply (sc_pixels cfg (last (workQueue (manager r)))))))
     (r\<lparr>cursorEncoding := None\<rparr>)"

definition alpha_decode :: "server_cfg \<Rightarrow> server_reader reading_step" where
  "alpha_decode cfg = on_part manager set_manager (finish_alpha cfg)
     (\<lambda>r. decode_rect (sc_hostBig cfg) (sc_h264 cfg)
        (mk_format (sc_hostBig cfg) 32 32 False True 255 255 255 16 8 0) (alpha_rect r) (the (cursorEncoding r)))"

definition alpha_step :: "server_cfg \<Rightarrow> server_reader reading_step" where
  "alpha_step cfg r s =
     (if cursor_too_large (nat (rect_width (dataRect r))) (nat (rect_height (dataRect r))) then Inl too_large_cursor
      else andthen (in_state (\<lambda>r. cursorEncoding r = None) (run_body (\<lambda>_. encoding_body) note_encoding))
        (alpha_decode cfg) r s)"

definition rect_step :: "server_cfg \<Rightarrow> server_reader reading_step" where
  "rect_step cfg r s =
     (if rectEncoding r \<in> pseudo_encodings then
        run_body (\<lambda>r. pseudo_body (sc_pf cfg (server_calls r)) (dataRect r) (rectEncoding r)) finish_rect r s
      else if rectEncoding r = -314 then alpha_step cfg r s
      else data_step cfg r s)"

definition header_body :: "instream \<Rightarrow> (rect \<times> int) outcome reading" where
  "header_body s = need (2 + 2 + 2 + 2 + 4) s (\<lambda>s.
     ebind (get16 s) (\<lambda>(x, s). ebind (get16 s) (\<lambda>(y, s). ebind (get16 s) (\<lambda>(w, s). ebind (get16 s) (\<lambda>(h, s).
     ebind (readS32 s) (\<lambda>(encoding, s). Inr (Done (Some (mk_rect x y w h, encoding)), s)))))))"

definition note_header :: "(rect \<times> int) option \<Rightarrow> server_reader \<Rightarrow> server_reader" where
  "note_header hdr r = (case hdr of None \<Rightarrow> r
     | Some (rc, encoding) \<Rightarrow> r\<lparr>dataRect := rc, rectEncoding := encoding, msg_state := MsgRectData\<rparr>)"

definition update_body :: "instream \<Rightarrow> u16 outcome reading" where
  "update_body s = need (1 + 2) s (\<lambda>s. ebind (skip 1 s) (\<lambda>s. ebind (readU16 s) (\<lambda>(n, s). Inr (Done (Some n), s))))"

definition note_update :: "u16 option \<Rightarrow> server_reader \<Rightarrow> server_reader" where
  "note_update n r = (case n of None \<Rightarrow> r | Some n \<Rightarrow>
     (let r = (add_call (Some FramebufferUpdateStart) r)\<lparr>nUpdateRectsLeft := uint n\<rparr>
      in if n = 0 then update_end r else r\<lparr>msg_state := MsgRectHeader\<rparr>))"

text \<open>An empty update ends the call early.\<close>

definition update_step :: "server_cfg \<Rightarrow> server_reader reading_step" where
  "update_step cfg =
     andthen (in_state (\<lambda>r. msg_state r = MsgMessage) (run_body (\<lambda>_. update_body) note_update))
       (in_state (\<lambda>r. msg_state r \<noteq> MsgIdle)
         (andthen (in_state (\<lambda>r. msg_state r = MsgRectHeader) (run_body (\<lambda>_. header_body) note_header))
           (rect_step cfg)))"

definition type_body :: "instream \<Rightarrow> byte outcome reading" where
  "type_body s = need 1 s (\<lambda>s. ebind (readU8 s) (\<lambda>(t, s). Inr (Done (Some t), s)))"

definition note_type :: "byte option \<Rightarrow> server_reader \<Rightarrow> server_reader" where
  "note_type t r = (case t of None \<Rightarrow> r | Some t \<Rightarrow> r\<lparr>msg_type := t, msg_state := MsgMessage\<rparr>)"

definition finish_plain :: "server_call option \<Rightarrow> server_reader \<Rightarrow> server_reader" where
  "finish_plain c r = (add_call c r)\<lparr>msg_state := MsgIdle\<rparr>"

definition message_step :: "server_cfg \<Rightarrow> server_reader reading_step" where
  "message_step cfg r s =
     (if msg_type r \<noteq> 0 then run_body (\<lambda>r. plain_body cfg (msg_type r)) finish_plain r s
      else update_step cfg r s)"

definition readServerMsg :: "server_cfg \<Rightarrow> server_reader reading_step" where
  "readServerMsg cfg =
     andthen (in_state (\<lambda>r. msg_state r = MsgIdle) (run_body (\<lambda>_. type_body) note_type)) (message_step cfg)"

end
