(* ===== verification/Server_Link.thy ===== *)
theory Server_Link
  imports Server_Messages
begin

text \<open>
  The client's reader of the server's messages in the loop around it
  (\<open>CConnection::processMsg\<close>): it never uses the stream beyond what it has checked, it
  returns on every input, and the arrival times of the bytes do not matter, not even within
  a rectangle that a decoder is in the middle of.
\<close>

subsection \<open>Texts that end in a zero byte\<close>

lemma utf8_tail_zero:
  "\<exists>l c. utf8_tail k (u @ 0 # r) n l0 d = Some (l, c) \<and> l0 \<le> l \<and> (c = 0xfffd \<or> l \<le> l0 + length u)"
proof (induction k arbitrary: u n l0 d)
  case (Suc k)
  show ?case
  proof (cases u)
    case (Cons b v)
    then show ?thesis using Suc [of v "n - 1" "l0 + 1" "push_bit 6 d OR ucast (b AND 0x3f)"] by auto
  qed simp
qed simp

lemma utf8_skip_zero: "\<exists>l. utf8_skip (u @ 0 # r) n l0 = Some (l, 0xfffd)"
  by (induction u arbitrary: n l0) auto

lemma utf8_char_zero:
  assumes "n \<noteq> 0"
  shows "\<exists>l c. utf8ToUCS4 (b # u @ 0 # r) n = Some (l, c) \<and> (c = 0xfffd \<or> 0 < l \<and> l \<le> 1 + length u)"
proof -
  have t: "\<exists>l c. utf8_tail k (u @ 0 # r) (n - 1) 1 d = Some (l, c) \<and> (c = 0xfffd \<or> 0 < l \<and> l \<le> 1 + length u)" for k d
    using utf8_tail_zero [of k u r "n - 1" 1 d] by (auto simp: Suc_le_eq)
  show ?thesis
    using assms t utf8_skip_zero [of u r "n - 1" 1]
    unfolding utf8ToUCS4_def by (auto simp del: utf8_tail.simps)
qed

lemma valid_total: "\<exists>v. isValidUTF8 (u @ [0]) n = Some v"
proof (induction "length u" arbitrary: u n rule: less_induct)
  case less
  show ?case
  proof (cases "n = 0 \<or> u = [] \<or> hd u = 0")
    case True
    then show ?thesis by (cases u) (auto simp: isValidUTF8_def valid_loop.simps)
  next
    case False
    then obtain b v where u: "u = b # v" "b \<noteq> 0" by (cases u) auto
    obtain l c where c: "utf8ToUCS4 (b # v @ [0]) n = Some (l, c)" "c = 0xfffd \<or> 0 < l \<and> l \<le> 1 + length v"
      using utf8_char_zero False by blast
    show ?thesis
    proof (cases "c = 0xfffd")
      case True
      then have "isValidUTF8 (u @ [0]) n = Some False"
        using c(1) u False by (simp add: isValidUTF8_def valid_loop.simps [of _ "b # v @ [0]"])
      then show ?thesis by (rule exI)
    next
      case c': False
      then have l: "0 < l" "l \<le> length u" using c(2) u by simp_all
      then have "\<exists>x. isValidUTF8 (drop l u @ [0]) (size_sub n l) = Some x" by (intro less) simp
      moreover have "drop l (b # v @ [0]) = drop l u @ [0]" using l u drop_append [of l u "[0]"] by simp
      ultimately show ?thesis using c c' l u False
        by (simp add: isValidUTF8_def valid_loop.simps [of _ "b # v @ [0]"])
    qed
  qed
qed

lemma latin1_zero_total: "\<exists>v. latin1ToUTF8 (u @ [0]) n = Some v"
  unfolding latin1ToUTF8_def
proof (induction u arbitrary: n)
  case Nil
  show ?case by (simp add: conv_loop.simps)
next
  case (Cons b u)
  from Cons [of "size_sub n 1"] show ?case
    by (auto simp: conv_loop.simps [of _ _ "b # u @ [0]"])
qed

lemma texts_known:
  "(case isValidUTF8 (u @ [0]) n of None \<Rightarrow> e | Some v \<Rightarrow> f v) = f (the (isValidUTF8 (u @ [0]) n))"
  "(case latin1ToUTF8 (u @ [0]) n of None \<Rightarrow> e | Some v \<Rightarrow> g v) = g (the (latin1ToUTF8 (u @ [0]) n))"
  using valid_total [of u n] latin1_zero_total [of u n] by auto

lemma local_readS32 [local_rules]: "local_read readS32"
  unfolding readS32_def [abs_def] by (intro local_rules)

lemma reads_readS32 [triple_rules]: "4 \<le> c \<Longrightarrow> reads m c (c - 4) readS32"
  unfolding readS32_def [abs_def] by (rule triple_rules | simp)+

subsection \<open>The messages\<close>

lemma sound_server_init: "sound_reader (readServerInit hostBig)"
  unfolding readServerInit_def [abs_def] texts_known
  by (rule sound_need, rule reader_restore, (rule triple_rules | simp)+, intro local_rules)

lemma sound_server_cut_text [sound_rules]: "sound_reader (readServerCutText inflate maxCutText)"
proof -
  have l: "sint (- len) < 2 ^ 31" for len :: u32 using sint_lt [of "- len"] by simp
  show ?thesis unfolding readServerCutText_def [abs_def] cut_text_known
    by (rule sound_need, rule reader_restore, (rule triple_rules reads_extended l | simp)+, intro local_rules)
qed

lemma sound_counted [sound_rules]:
  "sound_reader readSetColourMapEntries" "sound_reader readQEMUServerMessage"
  "sound_reader (readExtendedDesktopSize r)" "sound_reader readServerFence"
  unfolding readSetColourMapEntries_def [abs_def] readQEMUServerMessage_def [abs_def]
    readExtendedDesktopSize_def [abs_def] readServerFence_def read_fence_def [abs_def]
  by (rule sound_need, rule reader_restore, (rule triple_rules | simp)+, intro local_rules)+

lemma sound_name [sound_rules]: "sound_reader (readSetDesktopName r)"
  unfolding readSetDesktopName_def [abs_def] texts_known
  by (rule sound_need, rule reader_restore, (rule triple_rules | simp)+, intro local_rules)

lemma sound_short [sound_rules]:
  "sound_reader readLEDState" "sound_reader readVMwareLEDState" "sound_reader encoding_body"
  "sound_reader header_body" "sound_reader update_body" "sound_reader type_body"
  unfolding readLEDState_def [abs_def] readVMwareLEDState_def [abs_def] encoding_body_def [abs_def]
    header_body_def [abs_def] update_body_def [abs_def] type_body_def [abs_def]
  by (rule sound_need, rule reader_plain, (rule triple_rules | simp)+, intro local_rules)+

lemma sound_refused [sound_rules]: "sound_reader (\<lambda>s. Inl too_large_cursor)"
  unfolding too_large_cursor_def by (rule sound_rules)

lemma sound_cursor [sound_rules]: "sound_reader (readSetCursor pf w h hotspot)"
  unfolding readSetCursor_def [abs_def] Let_def
  by (intro sound_rules, rule sound_need, rule reader_plain, (rule triple_rules | simp)+, intro local_rules)

lemma sound_xcursor [sound_rules]: "sound_reader (readSetXCursor w h hotspot)"
proof -
  have l: "mask_len w h \<le> 3 + 3 + mask_len w h + mask_len w h - 3 - 3 - mask_len w h"
    "mask_len w h \<le> 3 + 3 + mask_len w h + mask_len w h - 3 - 3" "3 \<le> 3 + 3 + mask_len w h + mask_len w h - 3" by simp_all
  show ?thesis unfolding readSetXCursor_def [abs_def]
    by (intro sound_rules, rule sound_need, rule reader_plain, (rule triple_rules l | simp)+, intro local_rules)
qed

lemma sound_vmware_cursor [sound_rules]: "sound_reader (readSetVMwareCursor pf w h hotspot)"
  unfolding readSetVMwareCursor_def [abs_def] Let_def
  by (intro sound_rules, rule sound_need, rule reader_restore, (rule triple_rules | simp)+, intro local_rules)

lemma sound_pseudo: "sound_reader (pseudo_body pf r encoding)"
  unfolding pseudo_body_def [abs_def] Let_def by (intro sound_rules)

lemma sound_plain: "sound_reader (plain_body cfg t)"
  unfolding plain_body_def [abs_def] by (intro sound_rules)

subsection \<open>The reader\<close>

lemma finish_rect_fields [simp]:
  "msg_state (finish_rect c r) \<in> {MsgIdle, MsgRectHeader}" "dataRect (finish_rect c r) = dataRect r"
  "rectEncoding (finish_rect c r) = rectEncoding r"
  by (simp_all add: finish_rect_def update_end_def add_call_def Let_def)

lemma set_manager_fields [simp]:
  "manager (set_manager m r) = m" "set_manager m (set_manager m' r) = set_manager m r"
  "msg_state (set_manager m r) = msg_state r" "dataRect (set_manager m r) = dataRect r"
  "rectEncoding (set_manager m r) = rectEncoding r" "cursorEncoding (set_manager m r) = cursorEncoding r"
  "server_calls (set_manager m r) = server_calls r" "alpha_rect (set_manager m r) = alpha_rect r"
  by (simp_all add: set_manager_def alpha_rect_def)

lemma on_part_stays: "on_part get put finish f r s = Inr (False, r1, s1) \<Longrightarrow> \<exists>d. r1 = put d r"
  by (auto simp: on_part_def ebind_eq_Inr)

lemma on_part_ends: "on_part get put finish f r s = Inr (True, r1, s1) \<Longrightarrow> \<exists>d. r1 = finish (put d r)"
  by (auto simp: on_part_def ebind_eq_Inr)

lemma resumes_refuse: "resumes (\<lambda>r s. Inl too_large_cursor)"
  unfolding too_large_cursor_def by (rule resumes_throw)

lemma resumes_data: "resumes (data_step cfg)"
  unfolding data_step_def [abs_def]
  by (rule resumes_choose [OF resumes_throw resumes_part]) (auto simp: resumes_decode_rect dest!: on_part_stays)

lemma resumes_alpha_decode: "resumes (alpha_decode cfg)"
  unfolding alpha_decode_def by (rule resumes_part) (simp_all add: resumes_decode_rect)

lemma encoding_known: "encoding_body s = Inr (Done c, s1) \<Longrightarrow> c \<noteq> None"
  by (auto simp: encoding_body_def ebind_eq_Inr dest!: need_done)

lemma alpha_parts_stay:
  "run_body (\<lambda>_. encoding_body) note_encoding r s = Inr (True, r1, s1) \<Longrightarrow> cursorEncoding r1 \<noteq> None"
  by (auto simp: run_body_cases note_encoding_def dest!: encoding_known split: sum.splits outcome.splits)

lemma resumes_alpha: "resumes (alpha_step cfg)"
proof -
  have "resumes (andthen (in_state (\<lambda>r. cursorEncoding r = None) (run_body (\<lambda>_. encoding_body) note_encoding)) (alpha_decode cfg))"
    by (rule resumes_andthen [OF resumes_in_state [OF resumes_body] resumes_alpha_decode], rule sound_rules)
      (auto simp: in_state_def alpha_decode_def dest!: run_body_stays on_part_stays alpha_parts_stay split: if_splits)
  then show ?thesis
    unfolding alpha_step_def [abs_def]
    by (rule resumes_choose [OF resumes_refuse])
      (auto simp: andthen_cases in_state_def alpha_decode_def run_body_cases note_encoding_def
        dest!: on_part_stays split: if_splits sum.splits outcome.splits)
qed

lemma alpha_stays:
  "alpha_step cfg r s = Inr (False, r1, s1) \<Longrightarrow>
     msg_state r1 = msg_state r \<and> rectEncoding r1 = rectEncoding r"
  by (auto simp: alpha_step_def andthen_cases in_state_def alpha_decode_def run_body_cases note_encoding_def
      dest!: on_part_stays split: if_splits sum.splits outcome.splits)

lemma data_stays:
  "data_step cfg r s = Inr (False, r1, s1) \<Longrightarrow>
     msg_state r1 = msg_state r \<and> rectEncoding r1 = rectEncoding r"
  by (auto simp: data_step_def dest!: on_part_stays split: if_splits)

lemma rect_step_stays:
  "rect_step cfg r s = Inr (False, r1, s1) \<Longrightarrow> msg_state r1 = msg_state r"
  by (auto simp: rect_step_def dest!: run_body_stays alpha_stays data_stays split: if_splits)

lemma resumes_rect: "resumes (rect_step cfg)"
  unfolding rect_step_def [abs_def]
  by (intro resumes_choose resumes_body sound_pseudo resumes_alpha resumes_data)
    (auto dest!: run_body_stays alpha_stays data_stays split: if_splits)

lemma some_part:
  "header_body s = Inr (Done c, s1) \<Longrightarrow> c \<noteq> None"
  "update_body s = Inr (Done n, s1) \<Longrightarrow> n \<noteq> None"
  "type_body s = Inr (Done t, s1) \<Longrightarrow> t \<noteq> None"
  by (auto simp: header_body_def update_body_def type_body_def ebind_eq_Inr dest!: need_done)

lemma parts_end:
  "run_body (\<lambda>_. header_body) note_header r s = Inr (True, r1, s1) \<Longrightarrow> msg_state r1 = MsgRectData"
  "run_body (\<lambda>_. update_body) note_update r s = Inr (True, r1, s1) \<Longrightarrow> msg_state r1 \<in> {MsgIdle, MsgRectHeader}"
  "run_body (\<lambda>_. type_body) note_type r s = Inr (True, r1, s1) \<Longrightarrow> msg_state r1 = MsgMessage"
  by (auto simp: run_body_cases note_header_def note_update_def note_type_def update_end_def Let_def
      dest!: some_part split: sum.splits outcome.splits if_splits)

definition rect_part :: "server_cfg \<Rightarrow> server_reader reading_step" where
  "rect_part cfg = andthen (in_state (\<lambda>r. msg_state r = MsgRectHeader) (run_body (\<lambda>_. header_body) note_header)) (rect_step cfg)"

lemma rect_part_stays:
  "rect_part cfg r s = Inr (False, r1, s1) \<Longrightarrow> msg_state r1 \<in> {msg_state r, MsgRectData}"
  by (auto simp: rect_part_def andthen_cases in_state_def dest!: run_body_stays parts_end rect_step_stays split: if_splits sum.splits)

lemma resumes_rect_part: "resumes (rect_part cfg)"
  unfolding rect_part_def
  by (rule resumes_andthen [OF resumes_in_state [OF resumes_body] resumes_rect], rule sound_rules)
    (auto simp: in_state_def dest!: run_body_stays parts_end rect_step_stays split: if_splits)

lemma update_step_parts:
  "update_step cfg = andthen (in_state (\<lambda>r. msg_state r = MsgMessage) (run_body (\<lambda>_. update_body) note_update))
     (in_state (\<lambda>r. msg_state r \<noteq> MsgIdle) (rect_part cfg))"
  by (simp add: update_step_def rect_part_def)

lemma update_stays:
  "update_step cfg r s = Inr (False, r1, s1) \<Longrightarrow> msg_state r \<noteq> MsgIdle \<Longrightarrow> msg_state r1 \<noteq> MsgIdle"
  by (auto simp: update_step_parts andthen_cases in_state_def dest!: run_body_stays parts_end rect_part_stays
      split: if_splits sum.splits)

lemma resumes_update: "resumes (update_step cfg)"
  unfolding update_step_parts
  by (rule resumes_andthen [OF resumes_in_state [OF resumes_body] resumes_in_state [OF resumes_rect_part]], rule sound_rules)
    (auto simp: in_state_def dest!: run_body_stays parts_end rect_part_stays split: if_splits)

lemma set_fields [simp]:
  "msg_type (note_update n r) = msg_type r" "msg_type (note_header hdr r) = msg_type r"
  "msg_type (set_manager m r) = msg_type r" "msg_type (note_encoding e r) = msg_type r"
  by (auto simp: note_update_def note_header_def set_manager_def note_encoding_def add_call_def update_end_def Let_def
      split: option.split)

lemma finish_type [simp]:
  "msg_type (finish_rect c r) = msg_type r" "msg_type (finish_data r) = msg_type r" "msg_type (finish_alpha cfg r) = msg_type r"
  by (simp_all add: finish_data_def finish_alpha_def finish_rect_def update_end_def add_call_def Let_def)

lemma finish_state:
  "msg_state (finish_data r) \<in> {MsgIdle, MsgRectHeader}" "msg_state (finish_alpha cfg r) \<in> {MsgIdle, MsgRectHeader}"
  by (simp_all only: finish_data_def finish_alpha_def finish_rect_fields)

lemma run_body_ends: "run_body body finish r s = Inr (True, r1, s1) \<Longrightarrow> \<exists>c. r1 = finish c r"
  by (auto simp: run_body_cases split: sum.splits outcome.splits)

lemma rect_step_type: "rect_step cfg r s = Inr (ok, r1, s1) \<Longrightarrow> msg_type r1 = msg_type r"
proof (cases ok)
  case True
  assume "rect_step cfg r s = Inr (ok, r1, s1)"
  with True show ?thesis
    by (auto simp: rect_step_def alpha_step_def data_step_def alpha_decode_def andthen_cases in_state_def
        dest!: on_part_ends run_body_ends split: if_splits sum.splits)
next
  case False
  assume "rect_step cfg r s = Inr (ok, r1, s1)"
  with False show ?thesis
    by (auto simp: rect_step_def alpha_step_def data_step_def alpha_decode_def andthen_cases in_state_def
        dest!: on_part_stays run_body_stays run_body_ends split: if_splits sum.splits)
qed

lemma rect_step_ends: "rect_step cfg r s = Inr (True, r1, s1) \<Longrightarrow> msg_state r1 \<in> {MsgIdle, MsgRectHeader}"
  using finish_state finish_rect_fields(1)
  by (fastforce simp: rect_step_def alpha_step_def data_step_def alpha_decode_def andthen_cases in_state_def
      dest!: on_part_ends run_body_ends split: if_splits sum.splits)

lemma in_state_run_type:
  "in_state st (run_body body finish) r s = Inr (ok, r1, s1) \<Longrightarrow> (\<And>c r. msg_type (finish c r) = msg_type r) \<Longrightarrow> msg_type r1 = msg_type r"
  by (cases ok) (auto simp: in_state_def dest!: run_body_stays run_body_ends split: if_splits)

lemma update_type: "update_step cfg r s = Inr (ok, r1, s1) \<Longrightarrow> msg_type r1 = msg_type r"
  by (auto simp: update_step_def andthen_cases in_state_def [of _ "andthen _ _"]
      dest!: in_state_run_type rect_step_type split: if_splits sum.splits)

lemma resumes_message: "resumes (message_step cfg)"
  unfolding message_step_def [abs_def]
  by (intro resumes_choose resumes_body sound_plain resumes_update)
    (auto dest!: run_body_stays update_type)

lemma message_stays:
  "message_step cfg r s = Inr (False, r1, s1) \<Longrightarrow> msg_state r \<noteq> MsgIdle \<Longrightarrow> msg_state r1 \<noteq> MsgIdle"
  by (auto simp: message_step_def dest!: run_body_stays update_stays split: if_splits)

lemma resumes_readServerMsg: "resumes (readServerMsg cfg)"
  unfolding readServerMsg_def
  by (rule resumes_andthen [OF resumes_in_state [OF resumes_body] resumes_message], rule sound_rules)
    (auto simp: in_state_def dest!: run_body_stays parts_end message_stays split: if_splits)

text \<open>A completed round leaves one of the two states in which the next starts with a read.\<close>

definition server_rank :: "server_reader \<Rightarrow> nat" where
  "server_rank r = (if msg_state r \<in> {MsgMessage, MsgRectData} \<or> msg_state r = MsgRectHeader \<and> msg_type r \<noteq> 0 then 1 else 0)"

lemma get16_shrinks: "get16 s = Inr (x, s1) \<Longrightarrow> length (unread s1) + 2 = length (unread s)"
  by (auto simp: get16_def readU16_def check_def advance_def ebind_eq_Inr split: if_splits)

lemma readS32_shrinks: "readS32 s = Inr (x, s1) \<Longrightarrow> length (unread s1) \<le> length (unread s)"
  by (auto simp: readS32_def readU32_def check_def advance_def ebind_eq_Inr split: if_splits)

lemma parts_consume:
  "run_body (\<lambda>_. header_body) note_header r s = Inr (True, r1, s1) \<Longrightarrow> length (unread s1) < length (unread s)"
  "run_body (\<lambda>_. type_body) note_type r s = Inr (True, r1, s1) \<Longrightarrow> length (unread s1) < length (unread s)"
  by (force simp: run_body_cases header_body_def type_body_def ebind_eq_Inr split: sum.splits outcome.splits
      dest!: need_done get16_shrinks readS32_shrinks readU8_known)+

lemma rect_part_progress:
  assumes p: "past s = None" and "rect_part cfg r s = Inr (True, r1, s1)" and "msg_state r = MsgRectHeader"
  shows "length (unread s1) < length (unread s)"
proof -
  from assms obtain r0 s0 where h: "run_body (\<lambda>_. header_body) note_header r s = Inr (True, r0, s0)"
      and t: "rect_step cfg r0 s0 = Inr (True, r1, s1)"
    by (auto simp: rect_part_def andthen_cases in_state_def split: sum.splits if_splits)
  have "past s0 = None" using resumesD(2) [OF resumes_body p h] sound_rules by blast
  then have "behind s1 s0" using resumesD(2) [OF resumes_rect _ t] by blast
  then show ?thesis using parts_consume(1) [OF h] behind_length by force
qed

lemma message_end:
  assumes "message_step cfg r s = Inr (True, r1, s1)"
  shows "server_rank r1 = 0"
proof (cases "msg_type r = 0")
  case True
  then have u: "update_step cfg r s = Inr (True, r1, s1)" using assms by (simp add: message_step_def)
  then have "msg_type r1 = 0" using update_type [OF u] True by simp
  moreover have "msg_state r1 \<in> {MsgIdle, MsgRectHeader}"
    using u by (auto simp: update_step_parts rect_part_def andthen_cases in_state_def dest!: rect_step_ends
        split: if_splits sum.splits)
  ultimately show ?thesis by (auto simp: server_rank_def)
next
  case False
  then show ?thesis using assms by (auto simp: message_step_def finish_plain_def server_rank_def dest!: run_body_ends)
qed

lemma message_progress:
  assumes p: "past s = None" and m: "message_step cfg r s = Inr (True, r1, s1)" and "msg_state r \<noteq> MsgIdle"
  shows "length (unread s1) < length (unread s) + server_rank r"
proof -
  have "length (unread s1) \<le> length (unread s)" using resumesD(2) [OF resumes_message p m] behind_length by blast
  moreover have "length (unread s1) < length (unread s)" if "msg_state r = MsgRectHeader" "msg_type r = 0"
    using m that rect_part_progress [OF p, of cfg r]
    by (simp add: message_step_def update_step_parts andthen_cases in_state_def)
  ultimately show ?thesis using assms(3) by (cases "msg_state r") (auto simp: server_rank_def)
qed

interpretation server_link: message_loop "readServerMsg cfg" server_rank for cfg
proof
  show "resumes (readServerMsg cfg)" by (rule resumes_readServerMsg)
  fix r s r1 s1
  assume p: "past s = None" and m: "readServerMsg cfg r s = Inr (True, r1, s1)"
  let ?type = "in_state (\<lambda>r. msg_state r = MsgIdle) (run_body (\<lambda>_. type_body) note_type)"
  from m obtain r0 s0 where t: "?type r s = Inr (True, r0, s0)" and b: "message_step cfg r0 s0 = Inr (True, r1, s1)"
    unfolding readServerMsg_def andthen_cases by (auto split: sum.splits if_splits)
  have type: "resumes ?type" by (rule resumes_in_state [OF resumes_body]) (auto intro: sound_rules dest: run_body_stays)
  have p0: "past s0 = None" using resumesD(2) [OF type p t] by blast
  have 0: "msg_state r0 \<noteq> MsgIdle \<and> (if msg_state r = MsgIdle
      then length (unread s0) < length (unread s) \<and> server_rank r0 \<le> 1 else r0 = r \<and> s0 = s)"
  proof (cases "msg_state r = MsgIdle")
    case True
    then have "run_body (\<lambda>_. type_body) note_type r s = Inr (True, r0, s0)" using t by (simp add: in_state_def)
    from parts_consume(2) [OF this] parts_end(3) [OF this] True show ?thesis by (simp add: server_rank_def)
  next
    case False
    then show ?thesis using t by (simp add: in_state_def)
  qed
  have "server_rank r1 = 0" by (rule message_end [OF b])
  then show "server_rank r1 + 2 * length (unread s1) < server_rank r + 2 * length (unread s)"
    using message_progress [OF p0 b] 0 by (cases "msg_state r = MsgIdle") (auto simp: server_rank_def)
qed

subsection \<open>Properties\<close>

definition demo_server_cfg :: server_cfg where
  "demo_server_cfg = \<lparr>sc_hostBig = False, sc_h264 = False, sc_inflate = Some, sc_maxCutText = 262144,
     sc_size = (\<lambda>_. (640, 480)), sc_pf = (\<lambda>_. mk_format False 32 24 False True 255 255 255 16 8 0), sc_pixels = qe_bytes\<rparr>"

text \<open>What one call of the reader may do.\<close>

definition server_call_ok :: "instream \<Rightarrow> stream_error + bool \<times> server_reader \<times> instream \<Rightarrow> bool" where
  "server_call_ok s res \<longleftrightarrow> (case res of
     Inl e \<Rightarrow> (\<exists>m. e = ProtocolError m)
   | Inr (ok, r', s') \<Rightarrow> past s' = None \<and> (\<exists>p. p @ unread s' = unread s) \<and>
       (ok \<longrightarrow> msg_state r' \<in> {MsgIdle, MsgRectHeader, MsgRectData} \<and> server_rank r' = 0))"

lemma readServerMsg_end: "readServerMsg cfg r s = Inr (True, r1, s1) \<Longrightarrow> server_rank r1 = 0"
  by (auto simp: readServerMsg_def andthen_cases dest: message_end split: sum.splits if_splits)







end
