(* ===== verification/Server_Order.thy ===== *)
theory Server_Order
  imports Server_Link
begin

text \<open>
  What the calls of the client's reader and its use of the decoders keep to, over everything
  a server can send: updates are bracketed, rectangles of data lie within the framebuffer,
  and \<open>decodeRect\<close> is only called again for the rectangle it is in the middle of.
\<close>

subsection \<open>The calls a message makes\<close>

definition makes :: "('c \<Rightarrow> bool) \<Rightarrow> (instream \<Rightarrow> 'c outcome reading) \<Rightarrow> bool" where
  "makes Q f \<longleftrightarrow> (\<forall>s c s1. f s = Inr (Done (Some c), s1) \<longrightarrow> Q c)"

named_theorems makes_rules \<open>calls of composed message readers\<close>

lemma makes_bind [makes_rules]:
  "(\<And>x. makes Q (g x)) \<Longrightarrow> makes Q (\<lambda>s. ebind (f s) (\<lambda>(x, s). g x s))"
  "makes Q h \<Longrightarrow> makes Q (\<lambda>s. ebind (m s) h)"
  by (auto simp: makes_def ebind_eq_Inr)

lemma makes_return [makes_rules]:
  "Q c \<Longrightarrow> makes Q (\<lambda>s. Inr (Done (Some c), s))" "makes Q (\<lambda>s. Inr (Done None, s))" "makes Q (\<lambda>s. Inl e)"
  "(v \<Longrightarrow> Q c) \<Longrightarrow> makes Q (\<lambda>s. Inr (Done (if v then Some c else None), s))"
  by (auto simp: makes_def)

lemma makes_if [makes_rules]:
  "makes Q f \<Longrightarrow> makes Q g \<Longrightarrow> makes Q (\<lambda>s. if b then f s else g s)"
  by (simp add: makes_def)

lemma makes_option [makes_rules]:
  "makes Q f \<Longrightarrow> (\<And>x. makes Q (g x)) \<Longrightarrow> makes Q (\<lambda>s. case v of None \<Rightarrow> f s | Some x \<Rightarrow> g x s)"
  by (cases v) simp_all

lemma makes_need [makes_rules]:
  "makes Q k \<Longrightarrow> makes Q (\<lambda>s. need n s k)" "makes Q k \<Longrightarrow> makes Q (\<lambda>s. need_or_restore n s k)"
  by (auto simp: makes_def dest!: need_done need_or_restore_done)

lemma settle_done: "settle f s = Inr (Done c, s1) \<Longrightarrow> \<exists>s0. f s = Inr (Done c, s0)"
  by (cases "f s") (auto simp: settle_def ebind_eq_Inr elim: outcome.exhaust split: outcome.splits)

lemma makes_settle [makes_rules]: "makes Q f \<Longrightarrow> makes Q (settle f)"
  by (auto simp: makes_def dest!: settle_done)

lemma makes_pure [makes_rules]:
  "(\<And>x y. makes Q (g x y)) \<Longrightarrow> makes Q (\<lambda>s. ebind r (\<lambda>(x, y). g x y s))"
  unfolding makes_def ebind_eq_Inr by (metis (no_types, lifting) case_prod_conv surj_pair)

lemma makes_extended [makes_rules]:
  "(\<And>c. Q (wrap c)) \<Longrightarrow> makes Q (readExtendedClipboard wrap inflate maxCutText len)"
  unfolding readExtendedClipboard_def [abs_def] extended_action_def Let_def by (intro makes_rules)

text \<open>The calls of the rectangles of an update, and those of the other messages.\<close>

fun rect_call :: "server_call \<Rightarrow> bool" where
  "rect_call (SetCursor _ _ _ _) = True"
| "rect_call (SetCursorPos _) = True"
| "rect_call (SetName _) = True"
| "rect_call (SetDesktopSize _ _) = True"
| "rect_call (SetExtendedDesktopSize _ _ _ _ _) = True"
| "rect_call (SetLEDState _) = True"
| "rect_call SupportsQEMUKeyEvent = True"
| "rect_call SupportsQEMUAudio = True"
| "rect_call SupportsExtendedMouseButtons = True"
| "rect_call (DataRect _ _) = True"
| "rect_call _ = False"

fun plain_call :: "server_call \<Rightarrow> bool" where
  "plain_call (SetColourMapEntries _ _ _) = True"
| "plain_call Bell = True"
| "plain_call (ServerCutText _) = True"
| "plain_call (ServerClipboard _) = True"
| "plain_call (ServerFence _ _) = True"
| "plain_call EndOfContinuousUpdates = True"
| "plain_call AudioBegin = True"
| "plain_call AudioEnd = True"
| "plain_call (AudioData _) = True"
| "plain_call _ = False"

fun is_data :: "server_call \<Rightarrow> bool" where
  "is_data (DataRect _ _) = True"
| "is_data _ = False"

lemma makes_plain: "makes plain_call (plain_body cfg t)"
  unfolding plain_body_def [abs_def] readSetColourMapEntries_def readServerCutText_def readServerFence_def read_fence_def
    readQEMUServerMessage_def Let_def
  by (intro makes_rules) simp_all

lemma makes_pseudo: "makes (\<lambda>c. rect_call c \<and> \<not> is_data c) (pseudo_body pf r encoding)"
  unfolding pseudo_body_def [abs_def] readSetXCursor_def readSetCursor_def readSetVMwareCursor_def readSetDesktopName_def
    readExtendedDesktopSize_def readLEDState_def readVMwareLEDState_def Let_def
  by (intro makes_rules) simp_all

subsection \<open>Steps by what they leave behind\<close>

text \<open>A completed step leaves \<open>Q\<close> behind, one that stops for more bytes \<open>R\<close>.\<close>

definition leaves :: "('st \<Rightarrow> bool) \<Rightarrow> 'st reading_step \<Rightarrow> ('st \<Rightarrow> bool) \<Rightarrow> ('st \<Rightarrow> bool) \<Rightarrow> bool" where
  "leaves P f Q R \<longleftrightarrow> (\<forall>r s r1 s1. P r \<longrightarrow>
     (f r s = Inr (True, r1, s1) \<longrightarrow> Q r1) \<and> (f r s = Inr (False, r1, s1) \<longrightarrow> R r1))"

lemma leaves_body:
  assumes "\<And>r. P r \<Longrightarrow> R r" and "\<And>r s c s1. P r \<Longrightarrow> body r s = Inr (Done c, s1) \<Longrightarrow> Q (finish c r)"
  shows "leaves P (run_body body finish) Q R"
  using assms by (auto simp: leaves_def run_body_cases split: sum.splits outcome.splits)

lemma leaves_andthen:
  assumes "leaves P f P' R" and "leaves P' g Q R"
  shows "leaves P (andthen f g) Q R"
  using assms unfolding leaves_def andthen_cases by (auto split: sum.splits if_splits) (metis+)

lemma leaves_in_state:
  assumes "leaves (\<lambda>r. P r \<and> st r) f Q R" and "\<And>r. P r \<Longrightarrow> \<not> st r \<Longrightarrow> Q r"
  shows "leaves P (in_state st f) Q R"
  using assms by (auto simp: leaves_def in_state_def)

lemma leaves_choose:
  assumes "leaves (\<lambda>r. P r \<and> st r) f Q R" and "leaves (\<lambda>r. P r \<and> \<not> st r) g Q R"
  shows "leaves P (\<lambda>r s. if st r then f r s else g r s) Q R"
  using assms by (auto simp: leaves_def)

lemma leaves_refuse: "leaves P (\<lambda>r s. Inl e) Q R"
  by (simp add: leaves_def)

lemma leaves_part:
  assumes "\<And>r d ok s1 s. P r \<Longrightarrow> f r (get r) s = Inr (ok, d, s1) \<Longrightarrow> (if ok then Q (finish (put d r)) else R (put d r))"
  shows "leaves P (on_part get put finish f) Q R"
  using assms by (auto simp: leaves_def on_part_def ebind_eq_Inr split: if_splits)

subsection \<open>The invariant\<close>

text \<open>The calls as brackets: whether an update is open at the end, if they nest at all.\<close>

fun bracket :: "bool \<Rightarrow> server_call list \<Rightarrow> bool option" where
  "bracket opened [] = Some opened"
| "bracket opened (c # cs) =
     (if c = FramebufferUpdateStart then if opened then None else bracket True cs
      else if c = FramebufferUpdateEnd then if opened then bracket False cs else None
      else if rect_call c = opened then bracket opened cs else None)"

text \<open>Every rectangle of data lies within the framebuffer of its time.\<close>

definition rects_inside :: "server_cfg \<Rightarrow> server_call list \<Rightarrow> bool" where
  "rects_inside cfg cs \<longleftrightarrow> (\<forall>i<length cs. case cs ! i of
     DataRect rc e \<Rightarrow> br_x rc \<le> fst (sc_size cfg (take i cs)) \<and> br_y rc \<le> snd (sc_size cfg (take i cs))
   | _ \<Rightarrow> True)"

definition in_update :: "server_reader \<Rightarrow> bool" where
  "in_update r \<longleftrightarrow> msg_state r \<in> {MsgRectHeader, MsgRectData}"

text \<open>What \<open>decodeRect\<close> is called with in this state.\<close>

definition decode_args :: "server_reader \<Rightarrow> (rect \<times> int) option" where
  "decode_args r =
     (if msg_state r \<noteq> MsgRectData \<or> rectEncoding r \<in> pseudo_encodings then None
      else if rectEncoding r = -314 then map_option (\<lambda>e. (alpha_rect r, e)) (cursorEncoding r)
      else Some (dataRect r, rectEncoding r))"

definition server_ok :: "server_cfg \<Rightarrow> server_reader \<Rightarrow> bool" where
  "server_ok cfg r \<longleftrightarrow> bracket False (server_calls r) = Some (in_update r) \<and>
     rects_inside cfg (server_calls r) \<and>
     (in_update r \<longrightarrow> 0 < nUpdateRectsLeft r \<and> msg_type r = 0) \<and>
     (cursorEncoding r \<noteq> None \<longrightarrow> msg_state r = MsgRectData \<and> rectEncoding r = -314) \<and>
     partialEntry (manager r) \<in> {None, decode_args r}"

lemma bracket_append: "bracket b (cs @ ds) = (case bracket b cs of None \<Rightarrow> None | Some b \<Rightarrow> bracket b ds)"
  by (induction b cs rule: bracket.induct) auto

lemma rects_inside_snoc:
  "rects_inside cfg (cs @ [c]) \<longleftrightarrow> rects_inside cfg cs \<and> (case c of
     DataRect rc e \<Rightarrow> br_x rc \<le> fst (sc_size cfg cs) \<and> br_y rc \<le> snd (sc_size cfg cs) | _ \<Rightarrow> True)"
proof -
  have "(\<forall>i<length (cs @ [c]). P i) \<longleftrightarrow> (\<forall>i<length cs. P i) \<and> P (length cs)" for P
    by (auto simp: less_Suc_eq)
  then show ?thesis by (simp add: rects_inside_def nth_append cong: server_call.case_cong)
qed

lemma no_data_inside: "\<not> is_data c \<Longrightarrow> rects_inside cfg (cs @ [c]) = rects_inside cfg cs"
  by (cases c) (simp_all add: rects_inside_snoc)

lemma bracket_ends: "bracket False cs = Some True \<Longrightarrow> bracket False (cs @ [FramebufferUpdateEnd]) = Some False"
  by (simp add: bracket_append)

lemma end_inside: "rects_inside cfg (cs @ [FramebufferUpdateEnd]) = rects_inside cfg cs"
  "rects_inside cfg (cs @ [FramebufferUpdateStart]) = rects_inside cfg cs"
  by (rule no_data_inside, simp)+

lemma add_call_fields [simp]:
  "msg_type (add_call c r) = msg_type r" "cursorEncoding (add_call c r) = cursorEncoding r"
  "manager (add_call c r) = manager r" "nUpdateRectsLeft (add_call c r) = nUpdateRectsLeft r"
  "msg_state (add_call c r) = msg_state r"
  by (simp_all add: add_call_def)

lemma update_end_fields [simp]:
  "server_calls (update_end r) = server_calls r @ [FramebufferUpdateEnd]" "msg_state (update_end r) = MsgIdle"
  "cursorEncoding (update_end r) = cursorEncoding r" "manager (update_end r) = manager r"
  by (simp_all add: update_end_def) (simp add: add_call_def)

lemma finish_rect_ok:
  assumes "bracket False (server_calls r) = Some True" and "rects_inside cfg (server_calls (add_call c r))"
    and "\<And>d. c = Some d \<Longrightarrow> rect_call d" and "0 < nUpdateRectsLeft r" "msg_type r = 0" "cursorEncoding r = None"
    and "partialEntry (manager r) = None"
  shows "server_ok cfg (finish_rect c r)"
proof -
  have "bracket False (server_calls (add_call c r)) = Some True"
    using assms(1,3) by (cases c) (auto simp: add_call_def bracket_append)
  then show ?thesis
    using assms(2,4-7) bracket_ends end_inside
    by (auto simp: finish_rect_def server_ok_def in_update_def Let_def)
qed

lemma begin_rect_args:
  "begin_rect h264 rc e m s = Inr (ok, m0, s0) \<Longrightarrow> partialEntry m \<in> {None, Some (rc, e)} \<Longrightarrow>
     ok \<and> partialEntry m0 = Some (rc, e)"
  by (auto simp: begin_rect_def split: if_splits)

lemma decode_rect_partial:
  assumes "decode_rect hostBig h264 pf rc e m s = Inr (ok, m1, s1)" and "partialEntry m \<in> {None, Some (rc, e)}"
  shows "partialEntry m1 = (if ok then None else Some (rc, e))"
proof -
  from assms obtain m0 s0 where m0: "partialEntry m0 = Some (rc, e)" and g: "go_on_rect hostBig pf m0 s0 = Inr (ok, m1, s1)"
    using begin_rect_args by (auto simp: decode_rect_def andthen_cases split: sum.splits if_splits; blast)
  show ?thesis
  proof (cases ok)
    case True
    with g m0 show ?thesis
      by (auto simp: go_on_rect_def queue_work_def keep_decoder_def dest!: on_part_ends)
  next
    case False
    with g m0 show ?thesis by (auto dest!: go_on_rect_stays)
  qed
qed

definition rect_pre :: "server_cfg \<Rightarrow> server_reader \<Rightarrow> bool" where
  "rect_pre cfg r \<longleftrightarrow> server_ok cfg r \<and> msg_state r = MsgRectData"

lemma rect_preD:
  assumes "rect_pre cfg r"
  shows "bracket False (server_calls r) = Some True" "rects_inside cfg (server_calls r)" "0 < nUpdateRectsLeft r"
    "msg_type r = 0" "cursorEncoding r = None \<or> rectEncoding r = -314"
    "partialEntry (manager r) \<in> {None, decode_args r}" "msg_state r = MsgRectData" "server_ok cfg r"
  using assms by (auto simp: rect_pre_def server_ok_def in_update_def)

lemma finish_pseudo_ok:
  assumes "rect_pre cfg r" and "rectEncoding r \<in> pseudo_encodings" and "\<And>d. c = Some d \<Longrightarrow> rect_call d \<and> \<not> is_data d"
  shows "server_ok cfg (finish_rect c r)"
proof (rule finish_rect_ok)
  note rect_preD [OF assms(1)]
  then show "rects_inside cfg (server_calls (add_call c r))"
    using assms(3) no_data_inside by (cases c) (auto simp: add_call_def)
  show "cursorEncoding r = None" using rect_preD(5) [OF assms(1)] assms(2) by (auto simp: pseudo_encodings_def)
  show "partialEntry (manager r) = None" using rect_preD(6) [OF assms(1)] assms(2) by (simp add: decode_args_def)
qed (use rect_preD [OF assms(1)] assms(3) in auto)

lemma leaves_pseudo:
  "leaves (\<lambda>r. rect_pre cfg r \<and> rectEncoding r \<in> pseudo_encodings)
     (run_body (\<lambda>r. pseudo_body (sc_pf cfg (server_calls r)) (dataRect r) (rectEncoding r)) finish_rect)
     (server_ok cfg) (server_ok cfg)"
proof (rule leaves_body)
  fix r s c s1
  assume P: "rect_pre cfg r \<and> rectEncoding r \<in> pseudo_encodings"
    and b: "pseudo_body (sc_pf cfg (server_calls r)) (dataRect r) (rectEncoding r) s = Inr (Done c, s1)"
  then show "server_ok cfg (finish_rect c r)"
    using makes_pseudo [of "sc_pf cfg (server_calls r)" "dataRect r" "rectEncoding r"]
    by (intro finish_pseudo_ok) (auto simp: makes_def)
qed (simp add: rect_pre_def)

lemma set_manager_ok:
  assumes "rect_pre cfg r" and "partialEntry m \<in> {None, decode_args r}"
  shows "rect_pre cfg (set_manager m r)"
proof -
  have "decode_args (set_manager m r) = decode_args r" "nUpdateRectsLeft (set_manager m r) = nUpdateRectsLeft r"
    by (simp_all add: decode_args_def) (simp add: set_manager_def)
  then show ?thesis using assms by (auto simp: rect_pre_def server_ok_def in_update_def)
qed

lemma leaves_data:
  "leaves (\<lambda>r. rect_pre cfg r \<and> rectEncoding r \<notin> pseudo_encodings \<and> rectEncoding r \<noteq> -314) (data_step cfg)
     (server_ok cfg) (server_ok cfg)"
  unfolding data_step_def [abs_def]
proof (rule leaves_choose [OF leaves_refuse leaves_part], goal_cases)
  case (1 r m ok s1 s)
  then have pre: "rect_pre cfg r" and e: "rectEncoding r \<notin> pseudo_encodings" "rectEncoding r \<noteq> -314"
    and inside: "br_x (dataRect r) \<le> fst (sc_size cfg (server_calls r))" "br_y (dataRect r) \<le> snd (sc_size cfg (server_calls r))"
    by auto
  have a: "decode_args r = Some (dataRect r, rectEncoding r)" using e rect_preD(7) [OF pre] by (simp add: decode_args_def)
  have m: "partialEntry m = (if ok then None else Some (dataRect r, rectEncoding r))"
    using 1(2) decode_rect_partial rect_preD(6) [OF pre] a by metis
  let ?r = "set_manager m r"
  have r: "rect_pre cfg ?r" using pre m a by (intro set_manager_ok) auto
  show ?case
  proof (cases ok)
    case True
    have "server_ok cfg (finish_data ?r)"
      unfolding finish_data_def
    proof (rule finish_rect_ok)
      show "rects_inside cfg (server_calls (add_call (Some (DataRect (dataRect ?r) (rectEncoding ?r))) ?r))"
        using rect_preD(2) [OF pre] inside by (simp add: add_call_def rects_inside_snoc)
      show "cursorEncoding ?r = None" using rect_preD(5) [OF pre] e by auto
      show "partialEntry (manager ?r) = None" using m True by simp
    qed (use rect_preD [OF r] in auto)
    with True show ?thesis by simp
  next
    case False
    with rect_preD(8) [OF r] show ?thesis by simp
  qed
qed

lemma note_encoding_fields [simp]:
  "cursorEncoding (note_encoding e r) = e" "manager (note_encoding e r) = manager r"
  "rectEncoding (note_encoding e r) = rectEncoding r" "msg_state (note_encoding e r) = msg_state r"
  "server_calls (note_encoding e r) = server_calls r" "nUpdateRectsLeft (note_encoding e r) = nUpdateRectsLeft r"
  by (simp_all add: note_encoding_def)

lemma alpha_pre:
  assumes "rect_pre cfg r" and "rectEncoding r = -314" and "cursorEncoding r = None"
  shows "rect_pre cfg (note_encoding e r)"
proof -
  have "partialEntry (manager r) = None"
    using rect_preD(6) [OF assms(1)] assms(2,3) by (auto simp: decode_args_def split: if_splits)
  then show ?thesis using assms by (auto simp: rect_pre_def server_ok_def in_update_def)
qed

lemma leaves_alpha_decode:
  "leaves (\<lambda>r. rect_pre cfg r \<and> rectEncoding r = -314 \<and> cursorEncoding r \<noteq> None) (alpha_decode cfg)
     (server_ok cfg) (server_ok cfg)"
  unfolding alpha_decode_def
proof (rule leaves_part, goal_cases)
  case (1 r m ok s1 s)
  then have pre: "rect_pre cfg r" and e: "rectEncoding r = -314" and c: "cursorEncoding r \<noteq> None" by auto
  have a: "decode_args r = Some (alpha_rect r, the (cursorEncoding r))"
    using e c rect_preD(7) [OF pre] by (auto simp: decode_args_def pseudo_encodings_def)
  have m: "partialEntry m = (if ok then None else Some (alpha_rect r, the (cursorEncoding r)))"
    using 1(2) decode_rect_partial rect_preD(6) [OF pre] a by metis
  let ?r = "set_manager m r"
  have r: "rect_pre cfg ?r" using pre m a by (intro set_manager_ok) auto
  show ?case
  proof (cases ok)
    case True
    have "server_ok cfg (finish_alpha cfg ?r)"
      unfolding finish_alpha_def
    proof (rule finish_rect_ok)
      show "rects_inside cfg (server_calls (add_call (Some (SetCursor (nat (rect_width (dataRect ?r))) (nat (rect_height (dataRect ?r)))
          (tl_x (dataRect ?r), tl_y (dataRect ?r)) (unpremultiply (sc_pixels cfg (last (workQueue (manager ?r)))))))
          (?r\<lparr>cursorEncoding := None\<rparr>)))"
        using rect_preD(2) [OF pre] by (simp add: add_call_def rects_inside_snoc)
      show "partialEntry (manager (?r\<lparr>cursorEncoding := None\<rparr>)) = None" using m True by simp
    qed (use rect_preD [OF r] in auto)
    with True show ?thesis by simp
  next
    case False
    with rect_preD(8) [OF r] show ?thesis by simp
  qed
qed

lemma leaves_alpha:
  "leaves (\<lambda>r. rect_pre cfg r \<and> rectEncoding r = -314) (alpha_step cfg) (server_ok cfg) (server_ok cfg)"
  unfolding alpha_step_def [abs_def]
proof (rule leaves_choose [OF leaves_refuse leaves_andthen [OF leaves_in_state [OF leaves_body] leaves_alpha_decode]], goal_cases)
  case (2 r s c s1)
  then show ?case using alpha_pre encoding_known by auto
qed (auto simp: rect_pre_def)

lemma leaves_strengthen: "leaves P f Q R \<Longrightarrow> (\<And>r. P' r \<Longrightarrow> P r) \<Longrightarrow> leaves P' f Q R"
  unfolding leaves_def by blast

lemma leaves_rect: "leaves (rect_pre cfg) (rect_step cfg) (server_ok cfg) (server_ok cfg)"
  unfolding rect_step_def [abs_def]
  by (rule leaves_choose [OF leaves_pseudo leaves_choose],
      rule leaves_strengthen [OF leaves_alpha], simp, rule leaves_strengthen [OF leaves_data], simp)

text \<open>The header of a rectangle, the start of an update, and the type of a message.\<close>

lemma server_okD:
  assumes "server_ok cfg r"
  shows "bracket False (server_calls r) = Some (in_update r)" "rects_inside cfg (server_calls r)"
    "in_update r \<Longrightarrow> 0 < nUpdateRectsLeft r" "in_update r \<Longrightarrow> msg_type r = 0"
    "msg_state r \<noteq> MsgRectData \<Longrightarrow> cursorEncoding r = None"
    "msg_state r \<noteq> MsgRectData \<Longrightarrow> partialEntry (manager r) = None"
  using assms by (auto simp: server_ok_def decode_args_def)

lemma header_ok:
  assumes "server_ok cfg r" and "msg_state r = MsgRectHeader"
  shows "rect_pre cfg (note_header (Some hdr) r)"
  using assms server_okD [OF assms(1)] by (cases hdr) (simp add: rect_pre_def server_ok_def in_update_def note_header_def)

lemma leaves_rect_part:
  "leaves (\<lambda>r. server_ok cfg r \<and> in_update r) (rect_part cfg) (server_ok cfg) (server_ok cfg)"
  unfolding rect_part_def
proof (rule leaves_andthen [OF leaves_in_state [OF leaves_body] leaves_rect], goal_cases)
  case (2 r s c s1)
  then show ?case using header_ok some_part(1) by fastforce
qed (auto simp: rect_pre_def in_update_def)

lemma update_ok:
  assumes "server_ok cfg r" and "msg_state r = MsgMessage" and "msg_type r = 0"
  shows "server_ok cfg (note_update (Some n) r)"
proof -
  note ok = server_okD [OF assms(1)]
  have b: "bracket False (server_calls r) = Some False" using ok(1) assms(2) by (simp add: in_update_def)
  then have c: "server_calls (add_call (Some FramebufferUpdateStart) r) = server_calls r @ [FramebufferUpdateStart]"
    "bracket False (server_calls r @ [FramebufferUpdateStart]) = Some True"
    by (simp_all add: add_call_def bracket_append)
  have n: "n \<noteq> 0 \<Longrightarrow> 0 < uint n" by (metis less_le uint_0_iff uint_nonnegative)
  show ?thesis
  proof (cases "n = 0")
    case True
    have "bracket False ((server_calls r @ [FramebufferUpdateStart]) @ [FramebufferUpdateEnd]) = Some False"
      by (rule bracket_ends [OF c(2)])
    then show ?thesis using True ok assms end_inside c(1)
      by (auto simp: note_update_def server_ok_def in_update_def Let_def simp del: append_assoc)
  next
    case False
    then show ?thesis using ok assms end_inside c n
      by (auto simp: note_update_def server_ok_def in_update_def Let_def)
  qed
qed

lemma leaves_update:
  "leaves (\<lambda>r. server_ok cfg r \<and> msg_state r \<noteq> MsgIdle \<and> msg_type r = 0) (update_step cfg) (server_ok cfg) (server_ok cfg)"
  unfolding update_step_parts
proof (rule leaves_andthen [where P' = "\<lambda>r. server_ok cfg r \<and> msg_state r \<noteq> MsgMessage",
        OF leaves_in_state [OF leaves_body] leaves_in_state])
  let ?P = "\<lambda>r. server_ok cfg r \<and> msg_state r \<noteq> MsgMessage"
  show "leaves (\<lambda>r. ?P r \<and> msg_state r \<noteq> MsgIdle) (rect_part cfg) (server_ok cfg) (server_ok cfg)"
    by (rule leaves_strengthen [OF leaves_rect_part]) (auto simp: in_update_def intro: msg_state.exhaust)
  fix r s c s1
  assume P: "(server_ok cfg r \<and> msg_state r \<noteq> MsgIdle \<and> msg_type r = 0) \<and> msg_state r = MsgMessage"
    and b: "update_body s = Inr (Done c, s1)"
  then obtain n where n: "c = Some n" using some_part(2) by blast
  then have "msg_state (note_update c r) \<noteq> MsgMessage" by (simp add: note_update_def Let_def)
  then show "?P (note_update c r)" using update_ok P n by blast
qed auto

lemma finish_plain_ok:
  assumes "server_ok cfg r" and "msg_state r = MsgMessage" and "\<And>d. c = Some d \<Longrightarrow> plain_call d"
  shows "server_ok cfg (finish_plain c r)"
proof -
  note ok = server_okD [OF assms(1)]
  have "d \<noteq> FramebufferUpdateStart \<and> d \<noteq> FramebufferUpdateEnd \<and> \<not> rect_call d \<and> \<not> is_data d" if "plain_call d" for d
    using that by (cases d) simp_all
  then have "bracket False (server_calls (add_call c r)) = Some False \<and> rects_inside cfg (server_calls (add_call c r))"
    using ok(1,2) assms(2,3) no_data_inside
    by (cases c) (auto simp: add_call_def in_update_def bracket_append)
  then show ?thesis using ok(5,6) assms(2) by (simp add: finish_plain_def server_ok_def in_update_def)
qed

lemma leaves_message:
  "leaves (\<lambda>r. server_ok cfg r \<and> msg_state r \<noteq> MsgIdle) (message_step cfg) (server_ok cfg) (server_ok cfg)"
  unfolding message_step_def [abs_def]
proof (rule leaves_choose [OF leaves_body])
  show "leaves (\<lambda>r. (server_ok cfg r \<and> msg_state r \<noteq> MsgIdle) \<and> \<not> msg_type r \<noteq> 0) (update_step cfg) (server_ok cfg) (server_ok cfg)"
    by (rule leaves_strengthen [OF leaves_update]) simp
  fix r s c s1
  assume P: "(server_ok cfg r \<and> msg_state r \<noteq> MsgIdle) \<and> msg_type r \<noteq> 0"
    and b: "plain_body cfg (msg_type r) s = Inr (Done c, s1)"
  then have "msg_state r = MsgMessage" using server_okD(4) by (cases "msg_state r") (auto simp: in_update_def)
  then show "server_ok cfg (finish_plain c r)"
    using P b makes_plain [of cfg "msg_type r"] by (intro finish_plain_ok) (auto simp: makes_def)
qed auto

lemma leaves_readServerMsg: "leaves (server_ok cfg) (readServerMsg cfg) (server_ok cfg) (server_ok cfg)"
  unfolding readServerMsg_def
proof (rule leaves_andthen [OF leaves_in_state [OF leaves_body] leaves_message])
  fix r s c s1
  assume P: "server_ok cfg r \<and> msg_state r = MsgIdle" and b: "type_body s = Inr (Done c, s1)"
  then obtain t where c: "c = Some t" using some_part(3) by blast
  from P have idle: "msg_state r = MsgIdle" by simp
  have "bracket False (server_calls r) = Some False" "rects_inside cfg (server_calls r)"
    "cursorEncoding r = None" "partialEntry (manager r) = None"
    using server_okD [of cfg r] P by (simp_all add: in_update_def)
  then show "server_ok cfg (note_type c r) \<and> msg_state (note_type c r) \<noteq> MsgIdle"
    by (simp add: c note_type_def server_ok_def in_update_def)
qed auto

lemma new_reader_ok: "server_ok cfg new_reader"
  by (simp add: new_reader_def server_ok_def in_update_def rects_inside_def new_manager_def)

lemma server_always_ok:
  "\<exists>res. deliver (readServerMsg cfg) new_reader (mem_stream []) chunks = Some res \<and>
     (case res of Inl e \<Rightarrow> (\<exists>m. e = ProtocolError m) | Inr (r, s) \<Rightarrow> server_ok cfg r)"
proof -
  have p: "past (mem_stream []) = None" by (simp add: mem_stream_def)
  obtain res where res: "deliver (readServerMsg cfg) new_reader (mem_stream []) chunks = Some res"
      "case res of Inl e \<Rightarrow> is_protocol e | Inr (r1, s1) \<Rightarrow> past s1 = None"
    using server_link.deliver_returns [OF p] by blast
  have keep: "server_ok cfg r1" if "server_ok cfg r" "readServerMsg cfg r s = Inr (ok, r1, s1)" for r s ok r1 s1
    using leaves_readServerMsg [of cfg, unfolded leaves_def, rule_format, OF that(1), of s r1 s1] that(2)
    by (cases ok) simp_all
  have "server_ok cfg r1" if "res = Inr (r1, s1)" for r1 s1
    using server_link.deliver_keeps [where P = "server_ok cfg", OF _ p new_reader_ok] keep res(1) that by blast
  then show ?thesis using res by (auto simp: is_protocol_def split: sum.splits)
qed

subsection \<open>Properties\<close>

text \<open>
  The calls as a sequence of updates and other messages: an update is open exactly while the
  reader is in one, with rectangles left; rectangle calls come only in between, all other calls
  only outside; and each rectangle of data lies within the framebuffer of its time.
\<close>

definition calls_in_order :: "server_cfg \<Rightarrow> server_reader \<Rightarrow> bool" where
  "calls_in_order cfg r \<longleftrightarrow> bracket False (server_calls r) = Some (in_update r) \<and>
     rects_inside cfg (server_calls r) \<and> (in_update r \<longrightarrow> 0 < nUpdateRectsLeft r)"

text \<open>
  C15: Whatever a server sends, in whatever chunks, the client's handler sees a well-formed
  sequence: each \<open>framebufferUpdateStart\<close> is followed by rectangles only and then its
  \<open>framebufferUpdateEnd\<close>, an update that is still open has rectangles left to read, and
  no rectangle of pixels reaches outside the framebuffer as it is when the rectangle is
  handed over.
\<close>

theorem server_calls_in_order:
  "\<exists>res. deliver (readServerMsg cfg) new_reader (mem_stream []) chunks = Some res \<and>
     (case res of Inl e \<Rightarrow> (\<exists>m. e = ProtocolError m) | Inr (r, s) \<Rightarrow> calls_in_order cfg r)"
proof -
  have "server_ok cfg r \<Longrightarrow> calls_in_order cfg r" for r by (simp add: server_ok_def calls_in_order_def)
  then show ?thesis using server_always_ok [of cfg chunks] by (fastforce split: sum.splits)
qed


end
