(* ===== verification/Spec2Isabelle.thy ===== *)
theory Spec2Isabelle
  imports Prelude Core_String Input_Queue Clipboard_Channel Middle_Button Shortcut_State Session_Scheduler Session_Events Connection_Document Endpoint
    In_Stream Buffered_In Buffered_Out Pixel_Format Pixel_Convert Cursor_Images
    Message_Parts Reader_Logic Message_Loop Message_Delivery Client_Messages Client_Link Client_Delivery
    Rect_Decoders Decode_Manager Server_Messages Server_Link Server_Order
begin

text \<open>
  A verification development for the core of TidyVNC, a VNC viewer on the common code of
  TigerVNC. The parts modelled are those that decide what a viewer sends, accepts and shows:
  the byte streams and messages of the RFB protocol and their pixel data under
  \<open>src/common\<close>, and the mailboxes, timers, input machines and documents of the
  viewer core under \<open>src/viewer/core\<close>.

  \<^bold>\<open>How the parts interact.\<close> The host of the viewer puts keys and pointer moves into
  the input mailbox and clipboard texts into the clipboard channel; the session thread takes
  them out, passes them through the middle-button emulation, and hands them to the message
  writer. The writer appends bytes to the buffered output stream, which gives them to the
  socket. The server's reader gets them from its buffered input stream, message by message,
  whenever bytes arrive. Reconnection and restart timers run in the session scheduler, and
  what happens in a session reaches the host as events. Documents and addresses are what a
  session is started from.

  \<^bold>\<open>Theories and sources.\<close>

  \<^item> \<open>Prelude\<close>: results as sums with \<open>ebind\<close>, runs of an operation over a list of
    calls, the locales \<open>invariant_system\<close>, \<open>monotone_system\<close> and \<open>id_pool\<close> of such
    runs, lists of bytes and numerals.
  \<^item> \<open>Core_String\<close>: \<open>common/core/string.cxx\<close>, with \<open>size_t\<close> arithmetic and
    reads outside a buffer as \<open>None\<close>; a codec locale interpreted for UTF-8, UTF-16 and
    Latin-1.
  \<^item> \<open>Input_Queue\<close>, \<open>Clipboard_Channel\<close>, \<open>Middle_Button\<close>,
    \<open>Shortcut_State\<close>, \<open>Session_Scheduler\<close>, \<open>Session_Events\<close>: the files of
    the same names in \<open>viewer/core\<close>, each a record of the members and a function for
    each method; locks are held for a whole method there, so a history is a list of calls.
    Allocation failure, callbacks and the clock are arguments.
  \<^item> \<open>Connection_Document\<close>, \<open>Endpoint\<close>: \<open>ConnectionDocument.cxx\<close>,
    \<open>Endpoint.cxx\<close>, \<open>SSHGateway.cxx\<close> and \<open>common/network/HostPort\<close>.
  \<^item> \<open>In_Stream\<close>: \<open>common/rdr/InStream.h\<close> and \<open>OutStream.h\<close>, a cursor over the
    bytes that have arrived, in the checked build; the locale \<open>stream_codec\<close> of fixed-width
    values. \<open>Buffered_In\<close> and \<open>Buffered_Out\<close>: the socket streams
    (\<open>BufferedInStream\<close>, \<open>FdInStream\<close>, \<open>BufferedOutStream\<close>,
    \<open>FdOutStream\<close>); the kernel's answers are a script of events.
  \<^item> \<open>Pixel_Format\<close>, \<open>Pixel_Convert\<close>: \<open>common/rfb/PixelFormat\<close>, the optimised
    loops included; host byte order and alignment are arguments.
  \<^item> \<open>Client_Messages\<close>: \<open>CMsgWriter.cxx\<close> and \<open>SMsgReader.cxx\<close>.
    \<open>Reader_Logic\<close> has two logics for message readers: what a reader decided does not
    depend on later bytes, and Hoare triples over the bytes checked for and the restore point.
    \<open>Client_Link\<close> is the loop over the messages, \<open>Client_Delivery\<close> the round trip
    of every message.
  \<^item> \<open>Message_Parts\<close>: what the messages of both directions share; \<open>Message_Loop\<close>: the
    contract \<open>resumes\<close> of a reader that is called again when more has arrived, closed under
    the ways readers are put together, and the locale \<open>message_loop\<close> of what the loop around
    one owes to it; \<open>Message_Delivery\<close>: what the parts promise about their writers.
  \<^item> \<open>Rect_Decoders\<close>, \<open>Decode_Manager\<close>: \<open>readRect\<close> of the decoders in
    \<open>common/rfb\<close> and \<open>DecodeManager.cxx\<close> up to the work queue. \<open>Server_Messages\<close>,
    with the images of \<open>Cursor_Images\<close>: \<open>CMsgReader.cxx\<close>, its state machine of
    updates included; \<open>Server_Link\<close> is the loop over the messages, \<open>Server_Order\<close> what
    its calls keep to.

  \<^bold>\<open>What the lemmas show.\<close> Each component has an invariant that every operation keeps
  (\<open>input_inv\<close>, \<open>lease_inv\<close>, \<open>sched_inv\<close>, \<open>events_inv\<close>, \<open>sc_inv\<close>, \<open>emu_inv\<close>,
  \<open>buf_wf\<close>, \<open>out_wf\<close>, \<open>format_ok\<close>), the functional behaviour of its
  operations on every branch, and properties of whole histories by induction over the calls.
  The buffered streams refine the plain ones; the optimised pixel conversions agree with the
  generic rendering; documents, addresses, formats and messages survive their transport; a
  reader fed with arbitrary bytes in arbitrary chunks is free of underruns and returns.

  \<^bold>\<open>Bounds and fuel.\<close> No definition carries fuel: loops that are not structural are
  functions with a measure, and the loops of \<open>writeBytes\<close> and over messages, whose end
  is a fact about the code, are partial functions with a theorem that they return. Words have
  the width of the source's types; \<open>size_t\<close> is 64 bits.

  \<^bold>\<open>Parameters.\<close> zlib (\<open>inflate\<close>, \<open>deflate\<close>), the kernel's sockets, the
  clock, callbacks, allocation failure and what a message handler knows are arguments of the
  definitions that use them; a property that relies on one states what it relies on.

  \<^bold>\<open>Not modelled.\<close> User interfaces and platform applications, servers for X11 and
  Windows, threads and their queues, TLS, JPEG and H.264 wrappers and other calls of
  libraries, logging, configuration storage, encoders, and floating-point code (scaling);
  the manifest lists them. The models of threads' shared objects are sequential: what the
  source guards by a mutex is one step.
\<close>

end
